(* ===== verification/BoltQ_Prelude.thy ===== *)
theory BoltQ_Prelude
  imports Main "HOL-Library.Word" "HOL-Library.AList" "HOL-Library.Multiset"
begin

unbundle bit_operations_syntax

section \<open>Shared vocabulary of the BoltQ development\<close>

text \<open>
  What every component of the development shares: the Go types the source uses and how
  they are read in HOL, the little-endian codecs of \<open>encoding/binary\<close>, the binary
  search of \<open>sort.Search\<close>, the outcome of a system call, and the generic notion of an
  invariant of a transition system.

  \<^item> \<open>byte\<close>, \<open>u16\<close>, \<open>u32\<close>, \<open>u64\<close> are machine words, so \<open>+\<close> and \<open>-\<close> wrap as in Go;
  \<^item> \<open>s64\<close> is an \<open>int64\<close> kept as its two's complement bits and compared with \<open><s\<close>;
  \<^item> any other Go \<open>int\<close> or \<open>int64\<close> is an \<open>int\<close>, wrapped by \<open>i64\<close> where the code can leave the range;
  \<^item> a length is a \<open>nat\<close>;
  \<^item> a \<open>[]byte\<close> is a \<open>bytes\<close>; a Go string that is only compared is a \<open>string\<close>;
  \<^item> a Go map is an association list with distinct keys, so that its size and an
    iteration over it compute; lookups are \<open>map_of\<close>, stores \<open>AList.update\<close>, deletes
    \<open>AList.delete\<close>;
  \<^item> an operation that can fail returns the new state and \<open>error + 'a\<close>.
\<close>

type_synonym byte = "8 word"
type_synonym bytes = "byte list"
type_synonym u16 = "16 word"
type_synonym u32 = "32 word"
type_synonym u64 = "64 word"
type_synonym s64 = "64 word"

text \<open>
  The outcome of the system calls an operation makes: \<open>io what\<close> says whether the call the
  source labels \<open>what\<close> (in the error it would wrap) succeeds.
\<close>

type_synonym io = "string \<Rightarrow> bool"

abbreviation io_ok :: io where
  "io_ok \<equiv> (\<lambda>_. True)"

named_theorems seq_arith \<open>facts that move sequence arithmetic from words to naturals\<close>
named_theorems codec \<open>facts about encoded lengths and decoded fields\<close>

subsection \<open>Signed 64-bit arithmetic\<close>

text \<open>The two's complement value of an \<open>int64\<close> result: \<open>i64 x\<close> is \<open>x\<close> wrapped into range.\<close>

definition i64 :: "int \<Rightarrow> int" where
  "i64 x = signed_take_bit 63 x"

lemma i64_id: "- (2 ^ 63) \<le> x \<Longrightarrow> x < 2 ^ 63 \<Longrightarrow> i64 x = x"
  unfolding i64_def by (rule signed_take_bit_int_eq_self) simp_all

subsection \<open>Slices\<close>

text \<open>\<open>xs[a:b]\<close> of Go, for \<open>a \<le> b \<le> len(xs)\<close>; the uses below are guarded by length checks.\<close>

definition go_slice :: "nat \<Rightarrow> nat \<Rightarrow> 'a list \<Rightarrow> 'a list" where
  "go_slice a b xs = take (b - a) (drop a xs)"

lemma length_go_slice [codec]: "length (go_slice a b xs) = min (b - a) (length xs - a)"
  by (simp add: go_slice_def min.commute)

lemma go_slice_append_skip [simp]: "length xs \<le> a \<Longrightarrow> go_slice a b (xs @ ys) = go_slice (a - length xs) (b - length xs) ys"
  by (simp add: go_slice_def)

lemma go_slice_append_here [simp]: "length xs = b \<Longrightarrow> go_slice 0 b (xs @ ys) = xs"
  by (simp add: go_slice_def)

lemma go_slice_all: "length xs \<le> b \<Longrightarrow> go_slice 0 b xs = xs"
  by (simp add: go_slice_def)

subsection \<open>Little-endian integers\<close>

text \<open>
  \<open>binary.LittleEndian.PutUint\<close> and \<open>Uint\<close>: \<open>le_bytes n w\<close> are the \<open>n\<close> low bytes of \<open>w\<close>,
  least significant first, and \<open>le_word\<close> reads them back.
\<close>

definition le_bytes :: "nat \<Rightarrow> 'a::len word \<Rightarrow> bytes" where
  "le_bytes n w = map (\<lambda>i. ucast (drop_bit (8 * i) w)) [0..<n]"

fun le_word :: "bytes \<Rightarrow> 'a::len word" where
  "le_word [] = 0"
| "le_word (b # bs) = ucast b OR push_bit 8 (le_word bs)"

lemma length_le_bytes [simp, codec]: "length (le_bytes n w) = n"
  by (simp add: le_bytes_def)

lemma bit_le_word:
  "bit (le_word bs :: 'a::len word) i \<longleftrightarrow>
     i < LENGTH('a) \<and> i div 8 < length bs \<and> bit (bs ! (i div 8)) (i mod 8)"
proof (induction bs arbitrary: i)
  case Nil
  then show ?case by simp
next
  case (Cons b bs)
  show ?case
  proof (cases "i < 8")
    case True
    then show ?thesis
      by (auto simp: bit_or_iff bit_push_bit_iff bit_ucast_iff dest: bit_imp_le_length)
  next
    case False
    then obtain j where j: "i = j + 8"
      by (metis add.commute le_Suc_ex not_less)
    moreover have "(j + 8) div 8 = Suc (j div 8)" and "(j + 8) mod 8 = j mod 8"
      by simp_all
    ultimately show ?thesis
      using Cons.IH [of j]
      by (auto simp: bit_or_iff bit_push_bit_iff bit_ucast_iff dest: bit_imp_le_length)
  qed
qed

lemma bit_le_bytes_nth:
  "i < n \<Longrightarrow> bit (le_bytes n (w :: 'a::len word) ! i) j \<longleftrightarrow> j < 8 \<and> bit w (8 * i + j)"
  by (auto simp: le_bytes_def bit_ucast_iff bit_drop_bit_eq dest: bit_imp_le_length)

lemma le_word_le_bytes [simp]:
  assumes "LENGTH('a) = 8 * n"
  shows "le_word (le_bytes n w) = (w :: 'a::len word)"
proof (rule bit_word_eqI)
  fix i assume "i < LENGTH('a)"
  then have "i div 8 < n" using assms by auto
  then show "bit (le_word (le_bytes n w) :: 'a word) i \<longleftrightarrow> bit w i"
    using \<open>i < LENGTH('a)\<close> by (simp add: bit_le_word bit_le_bytes_nth)
qed

lemma le_bytes_le_word:
  assumes "length bs = n" and "8 * n \<le> LENGTH('a)"
  shows "le_bytes n (le_word bs :: 'a::len word) = bs"
proof (rule nth_equalityI)
  show "length (le_bytes n (le_word bs :: 'a word)) = length bs" using assms by simp
next
  fix i assume "i < length (le_bytes n (le_word bs :: 'a word))"
  then have i: "i < n" by simp
  show "le_bytes n (le_word bs :: 'a word) ! i = bs ! i"
  proof (rule bit_word_eqI)
    fix j assume "j < LENGTH(8)"
    then have "j < 8" by simp
    then have "8 * i + j < 8 * n" using i by auto
    then show "bit (le_bytes n (le_word bs :: 'a word) ! i) j \<longleftrightarrow> bit (bs ! i) j"
      using i assms \<open>j < 8\<close> by (simp add: bit_le_bytes_nth bit_le_word)
  qed
qed

lemma le_bytes_eq_Nil [simp]: "le_bytes n w = [] \<longleftrightarrow> n = 0"
  by (simp add: le_bytes_def)

lemma unat_of_nat_16: "n < 65536 \<Longrightarrow> unat (of_nat n :: u16) = n"
  by (simp add: unat_of_nat take_bit_nat_eq_self)

lemma unat_of_nat_32: "n < 4294967296 \<Longrightarrow> unat (of_nat n :: u32) = n"
  by (simp add: unat_of_nat take_bit_nat_eq_self)

abbreviation put16 :: "u16 \<Rightarrow> bytes" where "put16 \<equiv> le_bytes 2"
abbreviation put32 :: "u32 \<Rightarrow> bytes" where "put32 \<equiv> le_bytes 4"
abbreviation put64 :: "u64 \<Rightarrow> bytes" where "put64 \<equiv> le_bytes 8"
abbreviation get16 :: "bytes \<Rightarrow> u16" where "get16 bs \<equiv> le_word (take 2 bs)"
abbreviation get32 :: "bytes \<Rightarrow> u32" where "get32 bs \<equiv> le_word (take 4 bs)"
abbreviation get64 :: "bytes \<Rightarrow> u64" where "get64 bs \<equiv> le_word (take 8 bs)"


subsection \<open>Association lists\<close>

lemma AList_update_new: "k \<notin> fst ` set al \<Longrightarrow> AList.update k v al = al @ [(k, v)]"
  by (induction al) auto

lemma set_AList_update: "set (AList.update k v al) \<subseteq> insert (k, v) (set al)"
  by (induction al) auto

lemma update_all: "\<forall>x \<in> set al. P x \<Longrightarrow> P (k, v) \<Longrightarrow> \<forall>x \<in> set (AList.update k v al). P x"
  using set_AList_update [of k v al] by blast

lemma map_filter_append: "List.map_filter f (xs @ ys) = List.map_filter f xs @ List.map_filter f ys"
  by (induction xs) (auto simp: List.map_filter_simps split: option.splits)

subsection \<open>Strings\<close>

text \<open>
  \<open>fmt.Sprintf("%d", n)\<close>, \<open>strings.HasPrefix\<close>, \<open>strings.HasSuffix\<close> and \<open>strings.Split\<close> by a
  separator of one character. \<open>Split\<close> of the empty string is one empty part, as in Go.
\<close>

definition digit_char :: "nat \<Rightarrow> char" where
  "digit_char d = char_of (48 + d)"

fun decimal :: "nat \<Rightarrow> string" where
  "decimal n = (if n < 10 then [digit_char n] else decimal (n div 10) @ [digit_char (n mod 10)])"

declare decimal.simps [simp del]

definition HasPrefix :: "'a list \<Rightarrow> 'a list \<Rightarrow> bool" where
  "HasPrefix s pre \<longleftrightarrow> length pre \<le> length s \<and> take (length pre) s = pre"

definition HasSuffix :: "'a list \<Rightarrow> 'a list \<Rightarrow> bool" where
  "HasSuffix s suf \<longleftrightarrow> length suf \<le> length s \<and> drop (length s - length suf) s = suf"

fun split_on :: "'a \<Rightarrow> 'a list \<Rightarrow> 'a list list" where
  "split_on c [] = [[]]"
| "split_on c (x # xs) = (if x = c then [] # split_on c xs else (x # hd (split_on c xs)) # tl (split_on c xs))"

fun join_with :: "'a \<Rightarrow> 'a list list \<Rightarrow> 'a list" where
  "join_with c [] = []"
| "join_with c [x] = x"
| "join_with c (x # y # xs) = x @ c # join_with c (y # xs)"

text \<open>The conversions \<open>[]byte(s)\<close> and \<open>string(b)\<close>.\<close>

definition str_bytes :: "string \<Rightarrow> bytes" where
  "str_bytes s = map (\<lambda>c. of_nat (of_char c)) s"

definition bytes_str :: "bytes \<Rightarrow> string" where
  "bytes_str bs = map (\<lambda>b. char_of (unat b)) bs"

lemma length_str_bytes [simp]: "length (str_bytes s) = length s"
  by (simp add: str_bytes_def)

lemma bytes_str_str_bytes [simp]: "bytes_str (str_bytes s) = s"
proof -
  have "char_of (unat (of_nat (of_char c) :: byte)) = c" for c
    by (simp add: unat_of_nat of_char_mod_256 take_bit_eq_mod char_of_def [symmetric])
  then show ?thesis by (simp add: bytes_str_def str_bytes_def map_idI)
qed

lemma decimal_not_Nil [simp]: "decimal n \<noteq> []"
  by (subst decimal.simps) simp

lemma split_on_not_Nil [simp]: "split_on c xs \<noteq> []"
  by (cases xs) auto

lemma HasPrefix_append [simp]: "HasPrefix (pre @ s) pre"
  by (simp add: HasPrefix_def)

lemma HasPrefix_iff: "HasPrefix s pre \<longleftrightarrow> (\<exists>t. s = pre @ t)"
  by (auto simp: HasPrefix_def) (metis append_take_drop_id)

lemma split_on_append: "c \<notin> set xs \<Longrightarrow> split_on c (xs @ c # ys) = xs # split_on c ys"
  by (induction xs) auto

lemma split_on_plain: "c \<notin> set xs \<Longrightarrow> split_on c xs = [xs]"
  by (induction xs) auto

lemma split_on_parts: "p \<in> set (split_on c xs) \<Longrightarrow> c \<notin> set p"
proof (induction xs arbitrary: p)
  case (Cons x xs)
  have "hd (split_on c xs) \<in> set (split_on c xs)" by simp
  moreover have "q \<in> set (tl (split_on c xs)) \<Longrightarrow> q \<in> set (split_on c xs)" for q by (meson list.set_sel(2) split_on_not_Nil)
  ultimately show ?case using Cons by (auto split: if_splits)
qed simp

lemma join_split [simp]: "join_with c (split_on c xs) = xs"
proof (induction xs)
  case (Cons x xs)
  obtain p ps where p: "split_on c xs = p # ps" by (cases "split_on c xs") auto
  show ?case using Cons p by (cases ps) auto
qed simp

lemma split_join: "ps \<noteq> [] \<Longrightarrow> \<forall>p \<in> set ps. c \<notin> set p \<Longrightarrow> split_on c (join_with c ps) = ps"
  by (induction c ps rule: join_with.induct) (auto simp: split_on_append split_on_plain)

subsection \<open>Binary search\<close>

text \<open>
  The loop of \<open>sort.Search\<close>: \<open>f\<close> is false before the answer and true from it on, and the
  answer stays in the range from \<open>i\<close> to \<open>j\<close>.
\<close>

function search_loop :: "(nat \<Rightarrow> bool) \<Rightarrow> nat \<Rightarrow> nat \<Rightarrow> nat" where
  "search_loop f i j =
     (if i < j then
        let h = (i + j) div 2 in
        if \<not> f h then search_loop f (h + 1) j else search_loop f i h
      else i)"
  by pat_completeness auto
termination
  by (relation "measure (\<lambda>(f, i, j). j - i)") (auto simp: Let_def)

declare search_loop.simps [simp del]

definition sort_search :: "nat \<Rightarrow> (nat \<Rightarrow> bool) \<Rightarrow> nat" where
  "sort_search n f = search_loop f 0 n"

lemma search_loop_split:
  assumes "i \<le> r" and "r \<le> j"
    and "\<And>k. i \<le> k \<Longrightarrow> k < r \<Longrightarrow> \<not> f k" and "\<And>k. r \<le> k \<Longrightarrow> k < j \<Longrightarrow> f k"
  shows "search_loop f i j = r"
  using assms
proof (induction f i j rule: search_loop.induct)
  case (1 f i j)
  let ?h = "(i + j) div 2"
  show ?case
  proof (cases "i < j")
    case False
    with "1.prems" show ?thesis by (subst search_loop.simps) simp
  next
    case True
    then have h: "i \<le> ?h" "?h < j" by auto
    show ?thesis
    proof (cases "f ?h")
      case True
      then have "r \<le> ?h" using "1.prems"(3) [of ?h] h by (meson not_le)
      then have "search_loop f i ?h = r"
        using "1.IH"(2) [OF \<open>i < j\<close> refl] True "1.prems" h by simp
      with True \<open>i < j\<close> show ?thesis by (subst search_loop.simps) (simp add: Let_def)
    next
      case False
      then have "?h < r" using "1.prems"(4) [of ?h] h by (meson not_le)
      then have "search_loop f (?h + 1) j = r"
        using "1.IH"(1) [OF \<open>i < j\<close> refl False] "1.prems" h by simp
      with False \<open>i < j\<close> show ?thesis by (subst search_loop.simps) (simp add: Let_def)
    qed
  qed
qed

text \<open>
  Over a list on which the predicate is monotone, the search returns the length of the
  longest prefix that does not satisfy it.
\<close>

definition upward :: "('a \<Rightarrow> bool) \<Rightarrow> 'a list \<Rightarrow> bool" where
  "upward P xs \<longleftrightarrow> (\<forall>i j. i \<le> j \<longrightarrow> j < length xs \<longrightarrow> P (xs ! i) \<longrightarrow> P (xs ! j))"

lemma sort_search_takeWhile:
  assumes "upward P xs"
  shows "sort_search (length xs) (\<lambda>i. P (xs ! i)) = length (takeWhile (\<lambda>x. \<not> P x) xs)"
  unfolding sort_search_def
proof (rule search_loop_split)
  let ?r = "length (takeWhile (\<lambda>x. \<not> P x) xs)"
  show "?r \<le> length xs" by (rule length_takeWhile_le)
  fix k assume "0 \<le> k" "k < ?r"
  then show "\<not> P (xs ! k)"
    by (metis nth_mem set_takeWhileD takeWhile_nth)
next
  let ?r = "length (takeWhile (\<lambda>x. \<not> P x) xs)"
  fix k assume k: "?r \<le> k" "k < length xs"
  then have "P (xs ! ?r)" using nth_length_takeWhile [of "\<lambda>x. \<not> P x" xs] by auto
  with k assms show "P (xs ! k)" unfolding upward_def by blast
qed simp

lemma upward_sorted_wrt:
  assumes "sorted_wrt R xs" and "\<And>x y. R x y \<Longrightarrow> P x \<Longrightarrow> P y"
  shows "upward P xs"
  using assms unfolding upward_def sorted_wrt_iff_nth_less
  by (metis le_neq_implies_less)

lemma takeWhile_nth_sat: "i < length (takeWhile Q xs) \<Longrightarrow> Q (xs ! i)"
  by (metis nth_mem set_takeWhileD takeWhile_nth)

lemma length_takeWhile_mono:
  "(\<And>x. P x \<Longrightarrow> Q x) \<Longrightarrow> length (takeWhile P xs) \<le> length (takeWhile Q xs)"
  by (induction xs) auto

lemma takeWhile_drop:
  "k \<le> length (takeWhile Q xs) \<Longrightarrow> takeWhile Q (drop k xs) = drop k (takeWhile Q xs)"
  by (induction xs arbitrary: k) (auto split: if_splits simp: drop_Cons' )

lemma takeWhile_upward_iff:
  assumes "upward (\<lambda>x. \<not> Q x) xs" and "i < length xs"
  shows "i < length (takeWhile Q xs) \<longleftrightarrow> Q (xs ! i)"
proof
  assume "i < length (takeWhile Q xs)"
  then show "Q (xs ! i)" by (rule takeWhile_nth_sat)
next
  assume "Q (xs ! i)"
  show "i < length (takeWhile Q xs)"
  proof (rule ccontr)
    let ?k = "length (takeWhile Q xs)"
    assume "\<not> i < ?k"
    then have "?k \<le> i" by simp
    moreover have "\<not> Q (xs ! ?k)" using \<open>?k \<le> i\<close> assms(2) by (intro nth_length_takeWhile) simp
    ultimately show False using assms \<open>Q (xs ! i)\<close> unfolding upward_def by blast
  qed
qed

subsection \<open>Words and lists of lists\<close>

lemma word_pred_less: "w \<noteq> 0 \<Longrightarrow> w - 1 < (w :: 'a::len word)"
proof -
  assume "w \<noteq> 0"
  then have "unat w \<noteq> 0" by (simp add: unat_eq_zero)
  then show ?thesis using \<open>w \<noteq> 0\<close> by (simp add: word_less_nat_alt unat_minus_one)
qed

lemma concat_take_Suc: "i < length xss \<Longrightarrow> concat (take (Suc i) xss) = concat (take i xss) @ xss ! i"
  by (simp add: take_Suc_conv_app_nth)

lemma length_concat_take: "length (concat (take i xss)) \<le> length (concat xss)"
  by (metis append_take_drop_id concat_append le_add1 length_append)

lemma take_in_segment:
  assumes "i < length xss" and "length (concat (take i xss)) \<le> k" and "k \<le> length (concat (take (Suc i) xss))"
  shows "take k (concat xss) = concat (take i xss) @ take (k - length (concat (take i xss))) (xss ! i)"
proof -
  have "concat xss = concat (take i xss) @ xss ! i @ concat (drop (Suc i) xss)"
    using concat_take_Suc [OF assms(1)] by (metis append_assoc append_take_drop_id concat_append)
  then show ?thesis using assms(2,3) concat_take_Suc [OF assms(1)] by simp
qed

subsection \<open>Reachable states and invariants\<close>

inductive reachable :: "('s \<Rightarrow> bool) \<Rightarrow> ('s \<Rightarrow> 's \<Rightarrow> bool) \<Rightarrow> 's \<Rightarrow> bool"
  for init :: "'s \<Rightarrow> bool" and step :: "'s \<Rightarrow> 's \<Rightarrow> bool" where
  reach_init: "init s \<Longrightarrow> reachable init step s"
| reach_step: "reachable init step s \<Longrightarrow> step s t \<Longrightarrow> reachable init step t"

text \<open>
  The contract of a component that keeps an invariant: it holds at the start and every
  step keeps it. Components interpret the locale with their own step relation.
\<close>

locale state_machine =
  fixes init :: "'s \<Rightarrow> bool" and step :: "'s \<Rightarrow> 's \<Rightarrow> bool" and inv :: "'s \<Rightarrow> bool"
  assumes inv_init: "init s \<Longrightarrow> inv s"
    and inv_step: "inv s \<Longrightarrow> step s t \<Longrightarrow> inv t"
begin

lemma reachable_inv: "reachable init step s \<Longrightarrow> inv s"
  by (induction rule: reachable.induct) (auto intro: inv_init inv_step)

lemma steps_inv: "step\<^sup>*\<^sup>* s t \<Longrightarrow> inv s \<Longrightarrow> inv t"
  by (induction rule: rtranclp_induct) (auto intro: inv_step)

end

end
