(* ===== verification/Message_Queue.thy ===== *)
theory Message_Queue
  imports BoltQ_Prelude
begin

unbundle bit_operations_syntax

section \<open>Messages and the ring-buffer queue\<close>

text \<open>
  The message of \<open>pkg/protocol/message.go\<close>, the contract of the \<open>MessageQueue\<close> interface as a
  locale with its first-in-first-out and ranked extensions, and the ring buffer of
  \<open>internal/queue/queue.go\<close>. The buffer keeps its two counters as \<open>uint64\<close> words that wrap, and a
  slot is the counter masked by the capacity minus one. The lemmas show that the capacity is the
  least power of two that fits the request, that the buffer answers every sequence of pushes and
  pops as a bounded list does, and that a closed queue hands out the rest and then ends.
\<close>

record message =
  mID :: string
  mTopic :: string
  mPayload :: bytes
  mHeaders :: "(string \<times> string) list"
  mTimestamp :: int
  mRetry :: int
  mMaxRetry :: int
  mDeliveryCount :: int
  mDelay :: int
  mTTL :: int
  mDeliverAt :: int
  mExpiresAt :: int
  mPriority :: int
  mExchange :: string
  mRoutingKey :: string

text \<open>\<open>NewMessage\<close>: the random identifier and the clock are arguments.\<close>

definition NewMessage :: "string \<Rightarrow> int \<Rightarrow> string \<Rightarrow> bytes \<Rightarrow> (string \<times> string) list \<Rightarrow> message" where
  "NewMessage genID now topic payload headers =
     \<lparr>mID = genID, mTopic = topic, mPayload = payload, mHeaders = headers, mTimestamp = now, mRetry = 0,
      mMaxRetry = 5, mDeliveryCount = 0, mDelay = 0, mTTL = 0, mDeliverAt = 0, mExpiresAt = 0, mPriority = 0,
      mExchange = [], mRoutingKey = []\<rparr>"

subsection \<open>The interface\<close>

datatype q_op = OpPush message | OpPop

text \<open>A run of pushes and non-blocking pops: the final queue, what was accepted, what was delivered.\<close>

fun run_ops ::
  "(message \<Rightarrow> 'q \<Rightarrow> 'q \<times> bool) \<Rightarrow> ('q \<Rightarrow> 'q \<times> message option) \<Rightarrow> q_op list \<Rightarrow> 'q \<Rightarrow>
   'q \<times> message list \<times> message list" where
  "run_ops push pop [] q = (q, [], [])"
| "run_ops push pop (OpPush m # ops) q =
     (case push m q of (q1, ok) \<Rightarrow>
        (case run_ops push pop ops q1 of (q2, acc, del) \<Rightarrow> (q2, (if ok then m # acc else acc), del)))"
| "run_ops push pop (OpPop # ops) q =
     (case pop q of (q1, r) \<Rightarrow>
        (case run_ops push pop ops q1 of (q2, acc, del) \<Rightarrow> (q2, acc, (case r of None \<Rightarrow> del | Some m \<Rightarrow> m # del))))"

text \<open>Two queues that answer every operation alike answer every run alike.\<close>

lemma run_ops_simulation:
  assumes "\<And>q ms m. R q ms \<Longrightarrow> snd (push m q) = snd (push' m ms) \<and> R (fst (push m q)) (fst (push' m ms))"
    and "\<And>q ms. R q ms \<Longrightarrow> snd (pop q) = snd (pop' ms) \<and> R (fst (pop q)) (fst (pop' ms))"
  shows "R q ms \<Longrightarrow> run_ops push pop ops q = (q', acc, del) \<Longrightarrow>
     \<exists>ms'. run_ops push' pop' ops ms = (ms', acc, del) \<and> R q' ms'"
proof (induction ops arbitrary: q ms acc del)
  case (Cons op ops)
  show ?case
  proof (cases op)
    case (OpPush m)
    then show ?thesis
      using Cons.IH [of "fst (push m q)" "fst (push' m ms)"] Cons.prems assms(1) [OF Cons.prems(1), of m]
      by (fastforce split: prod.splits)
  next
    case OpPop
    then show ?thesis
      using Cons.IH [of "fst (pop q)" "fst (pop' ms)"] Cons.prems assms(2) [OF Cons.prems(1)]
      by (fastforce split: prod.splits)
  qed
qed auto

text \<open>
  The contract of \<open>MessageQueue\<close>: \<open>rep q ms\<close> says that \<open>ms\<close> are the messages of \<open>q\<close> in the order
  in which they will be popped.
\<close>

locale message_queue =
  fixes rep :: "'q \<Rightarrow> message list \<Rightarrow> bool"
    and push :: "message \<Rightarrow> 'q \<Rightarrow> 'q \<times> bool"
    and pop :: "'q \<Rightarrow> 'q \<times> message option"
    and drain :: "'q \<Rightarrow> message list"
    and qsize :: "'q \<Rightarrow> int"
    and has :: "string \<Rightarrow> 'q \<Rightarrow> bool"
    and purge :: "'q \<Rightarrow> 'q \<times> int"
  assumes push_ok: "rep q ms \<Longrightarrow> push m q = (q', True) \<Longrightarrow> \<exists>xs ys. ms = xs @ ys \<and> rep q' (xs @ m # ys)"
    and push_full: "rep q ms \<Longrightarrow> push m q = (q', False) \<Longrightarrow> q' = q"
    and pop_empty: "rep q [] \<Longrightarrow> pop q = (q, None)"
    and pop_next: "rep q (m # ms) \<Longrightarrow> \<exists>q'. pop q = (q', Some m) \<and> rep q' ms"
    and drain_all: "rep q ms \<Longrightarrow> drain q = ms"
    and size_all: "rep q ms \<Longrightarrow> qsize q = int (length ms)"
    and has_iff: "rep q ms \<Longrightarrow> has i q \<longleftrightarrow> (\<exists>m \<in> set ms. mID m = i)"
    and purge_all: "rep q ms \<Longrightarrow> snd (purge q) = int (length ms) \<and> rep (fst (purge q)) []"
begin

lemma pop_cases:
  assumes "rep q ms"
  obtains (empty) "ms = []" "pop q = (q, None)" | (next_one) m ms' q' where "ms = m # ms'" "pop q = (q', Some m)" "rep q' ms'"
proof (cases ms)
  case Nil
  then show thesis using assms pop_empty empty by simp
next
  case (Cons m ms')
  then show thesis using assms pop_next [of q m ms'] next_one by auto
qed

text \<open>Nothing is lost and nothing is delivered twice.\<close>

lemma run_conserves:
  "rep q ms \<Longrightarrow> run_ops push pop ops q = (q', acc, del) \<Longrightarrow>
     \<exists>ms'. rep q' ms' \<and> mset ms + mset acc = mset del + mset ms'"
proof (induction ops arbitrary: q ms acc del)
  case Nil
  then show ?case by auto
next
  case (Cons op ops)
  show ?case
  proof (cases op)
    case (OpPush m)
    obtain q1 ok where q1: "push m q = (q1, ok)" by (cases "push m q")
    obtain acc' where run: "run_ops push pop ops q1 = (q', acc', del)" and acc: "acc = (if ok then m # acc' else acc')"
      using Cons.prems(2) OpPush q1 by (auto split: prod.splits)
    show ?thesis
    proof (cases ok)
      case True
      then obtain xs ys where xy: "ms = xs @ ys" "rep q1 (xs @ m # ys)" using push_ok [OF Cons.prems(1), of m q1] q1 by auto
      show ?thesis using Cons.IH [OF xy(2) run] acc True xy(1) by auto
    next
      case False
      then have "q1 = q" using push_full [OF Cons.prems(1), of m q1] q1 by auto
      then show ?thesis using Cons.IH [OF Cons.prems(1)] run acc False by auto
    qed
  next
    case OpPop
    from Cons.prems(1) show ?thesis
    proof (cases rule: pop_cases)
      case empty
      then show ?thesis using Cons.IH [OF Cons.prems(1)] Cons.prems(2) OpPop by (auto split: prod.splits)
    next
      case (next_one m ms1 q1)
      obtain del' where run: "run_ops push pop ops q1 = (q', acc, del')" "del = m # del'"
        using Cons.prems(2) OpPop next_one(2) by (auto split: prod.splits)
      show ?thesis using Cons.IH [OF next_one(3) run(1)] run(2) next_one(1) by auto
    qed
  qed
qed

text \<open>
  When every accepted message goes behind the earlier messages with property \<open>P\<close>, the messages with
  \<open>P\<close> leave in the order in which they were accepted.
\<close>

lemma run_view:
  assumes appends: "\<And>q ms m q'. rep q ms \<Longrightarrow> push m q = (q', True) \<Longrightarrow>
      \<exists>ms'. rep q' ms' \<and> filter P ms' = filter P ms @ filter P [m]"
  shows "rep q ms \<Longrightarrow> run_ops push pop ops q = (q', acc, del) \<Longrightarrow>
     \<exists>ms'. rep q' ms' \<and> filter P ms @ filter P acc = filter P del @ filter P ms'"
proof (induction ops arbitrary: q ms acc del)
  case Nil
  then show ?case by auto
next
  case (Cons op ops)
  show ?case
  proof (cases op)
    case (OpPush m)
    obtain q1 ok where q1: "push m q = (q1, ok)" by (cases "push m q")
    obtain acc' where run: "run_ops push pop ops q1 = (q', acc', del)" and acc: "acc = (if ok then m # acc' else acc')"
      using Cons.prems(2) OpPush q1 by (auto split: prod.splits)
    show ?thesis
    proof (cases ok)
      case True
      then obtain ms1 where ms1: "rep q1 ms1" "filter P ms1 = filter P ms @ filter P [m]"
        using appends [OF Cons.prems(1), of m q1] q1 by auto
      from Cons.IH [OF ms1(1) run] show ?thesis using acc True ms1(2) by auto
    next
      case False
      then have "q1 = q" using push_full [OF Cons.prems(1), of m q1] q1 by auto
      then show ?thesis using Cons.IH [OF Cons.prems(1)] run acc False by auto
    qed
  next
    case OpPop
    from Cons.prems(1) show ?thesis
    proof (cases rule: pop_cases)
      case empty
      then show ?thesis using Cons.IH [OF Cons.prems(1)] Cons.prems(2) OpPop by (auto split: prod.splits)
    next
      case (next_one m ms1 q1)
      obtain del' where run: "run_ops push pop ops q1 = (q', acc, del')" "del = m # del'"
        using Cons.prems(2) OpPop next_one(2) by (auto split: prod.splits)
      show ?thesis using Cons.IH [OF next_one(3) run(1)] run(2) next_one(1) by auto
    qed
  qed
qed

lemma drain_then_pop: "rep q ms \<Longrightarrow> drain q = m # rest \<Longrightarrow> \<exists>q'. pop q = (q', Some m) \<and> drain q' = rest"
  using drain_all pop_next by metis

end

text \<open>A queue that appends at the end: delivery is in the order of acceptance.\<close>

locale fifo_queue = message_queue +
  assumes push_last: "rep q ms \<Longrightarrow> push m q = (q', True) \<Longrightarrow> rep q' (ms @ [m])"
begin

lemma run_fifo:
  assumes "rep q ms" and "run_ops push pop ops q = (q', acc, del)"
  shows "ms @ acc = del @ drain q'"
proof -
  have "\<exists>ms'. rep q' ms' \<and> filter (\<lambda>_. True) ms @ filter (\<lambda>_. True) acc = filter (\<lambda>_. True) del @ filter (\<lambda>_. True) ms'"
    by (rule run_view [OF _ assms]) (use push_last in fastforce)
  then show ?thesis using drain_all by auto
qed

end

text \<open>
  A queue that serves the highest rank first and, within a rank, in the order of acceptance.
\<close>

locale ranked_queue = message_queue +
  fixes rank :: "message \<Rightarrow> nat"
  assumes push_ranked: "rep q ms \<Longrightarrow> push m q = (q', True) \<Longrightarrow>
      rep q' (takeWhile (\<lambda>x. rank m \<le> rank x) ms @ m # dropWhile (\<lambda>x. rank m \<le> rank x) ms)"
    and ranked: "rep q ms \<Longrightarrow> sorted_wrt (\<lambda>x y. rank y \<le> rank x) ms"
begin

lemma rank_filter_insert:
  "sorted_wrt (\<lambda>x y. rank y \<le> rank x) ms \<Longrightarrow>
     filter (\<lambda>x. rank x = r) (takeWhile (\<lambda>x. rank m \<le> rank x) ms @ m # dropWhile (\<lambda>x. rank m \<le> rank x) ms) =
     filter (\<lambda>x. rank x = r) ms @ filter (\<lambda>x. rank x = r) [m]"
proof (induction ms)
  case (Cons x ms)
  then show ?case
  proof (cases "rank m \<le> rank x")
    case False
    then have "\<forall>y \<in> set (x # ms). rank y < rank m" using Cons.prems by auto
    then have "filter (\<lambda>x. rank x = rank m) (x # ms) = []" unfolding filter_empty_conv by auto
    then show ?thesis using False by auto
  qed simp
qed simp

lemma run_ranked:
  assumes "rep q ms" and "run_ops push pop ops q = (q', acc, del)"
  shows "filter (\<lambda>x. rank x = r) (ms @ acc) = filter (\<lambda>x. rank x = r) (del @ drain q')"
proof -
  have "\<exists>ms'. rep q' ms' \<and> filter (\<lambda>x. rank x = r) ms @ filter (\<lambda>x. rank x = r) acc =
      filter (\<lambda>x. rank x = r) del @ filter (\<lambda>x. rank x = r) ms'"
    by (rule run_view [OF _ assms]) (use push_ranked ranked rank_filter_insert in blast)
  then show ?thesis using drain_all by auto
qed

lemma pop_highest: "rep q ms \<Longrightarrow> pop q = (q', Some m) \<Longrightarrow> \<forall>x \<in> set (drain q'). rank x \<le> rank m"
  by (cases rule: pop_cases) (use ranked drain_all in fastforce)+

end

subsection \<open>The ring buffer\<close>

record ring_queue =
  qName :: string
  qBuf :: "message option list"
  qMask :: u64
  qHead :: u64
  qTail :: u64
  qSize :: int
  qClosed :: bool

definition defaultCapacity :: int where "defaultCapacity = 1048576"

definition nextPowerOfTwo :: "int \<Rightarrow> int" where
  "nextPowerOfTwo n =
     (if n \<le> 0 then 1
      else
        let n = n - 1; n = n OR drop_bit 1 n; n = n OR drop_bit 2 n; n = n OR drop_bit 4 n;
            n = n OR drop_bit 8 n; n = n OR drop_bit 16 n
        in n + 1)"

definition New :: "string \<Rightarrow> int \<Rightarrow> ring_queue" where
  "New name capacity =
     (let cap = nextPowerOfTwo capacity in
      \<lparr>qName = name, qBuf = replicate (nat cap) None, qMask = word_of_int (cap - 1), qHead = 0, qTail = 0,
       qSize = 0, qClosed = False\<rparr>)"

definition NewDefault :: "string \<Rightarrow> ring_queue" where
  "NewDefault name = New name defaultCapacity"

definition Push :: "message \<Rightarrow> ring_queue \<Rightarrow> ring_queue \<times> bool" where
  "Push msg q =
     (if qSize q \<ge> int (length (qBuf q)) then (q, False)
      else
        let pos = unat (qHead q AND qMask q) in
        (q\<lparr>qBuf := (qBuf q)[pos := Some msg], qHead := qHead q + 1, qSize := qSize q + 1\<rparr>, True))"

text \<open>The removal both pops share, on a queue that is not empty.\<close>

definition pop_slot :: "ring_queue \<Rightarrow> ring_queue \<times> message option" where
  "pop_slot q =
     (let pos = unat (qTail q AND qMask q) in
      (q\<lparr>qBuf := (qBuf q)[pos := None], qTail := qTail q + 1, qSize := qSize q - 1\<rparr>, qBuf q ! pos))"

definition TryPop :: "ring_queue \<Rightarrow> ring_queue \<times> message option" where
  "TryPop q = (if qSize q = 0 then (q, None) else pop_slot q)"

text \<open>\<open>Pop\<close> waits on an empty queue that is open; the wait is a result of its own.\<close>

datatype pop_result = PopWaits | PopReturns "message option"

definition Pop :: "ring_queue \<Rightarrow> ring_queue \<times> pop_result" where
  "Pop q =
     (if qSize q = 0 then (q, if qClosed q then PopReturns None else PopWaits)
      else case pop_slot q of (q', m) \<Rightarrow> (q', PopReturns m))"

text \<open>The variants for a caller that holds the lock.\<close>

definition pushInternal :: "message \<Rightarrow> ring_queue \<Rightarrow> ring_queue \<times> bool" where
  "pushInternal msg q =
     (if qSize q \<ge> int (length (qBuf q)) then (q, False)
      else
        let pos = unat (qHead q AND qMask q) in
        (q\<lparr>qBuf := (qBuf q)[pos := Some msg], qHead := qHead q + 1, qSize := qSize q + 1\<rparr>, True))"

definition tryPopInternal :: "ring_queue \<Rightarrow> ring_queue \<times> message option" where
  "tryPopInternal q =
     (if qSize q = 0 then (q, None)
      else
        let pos = unat (qTail q AND qMask q) in
        (q\<lparr>qBuf := (qBuf q)[pos := None], qTail := qTail q + 1, qSize := qSize q - 1\<rparr>, qBuf q ! pos))"

definition sizeInternal :: "ring_queue \<Rightarrow> int" where "sizeInternal q = qSize q"

definition queue_Size :: "ring_queue \<Rightarrow> int" where "queue_Size q = qSize q"
definition Capacity :: "ring_queue \<Rightarrow> int" where "Capacity q = int (length (qBuf q))"
definition IsFull :: "ring_queue \<Rightarrow> bool" where "IsFull q \<longleftrightarrow> qSize q \<ge> int (length (qBuf q))"
definition queue_Close :: "ring_queue \<Rightarrow> ring_queue" where "queue_Close q = q\<lparr>qClosed := True\<rparr>"

definition slot :: "ring_queue \<Rightarrow> nat \<Rightarrow> nat" where
  "slot q i = unat ((qTail q + of_nat i) AND qMask q)"

definition Purge :: "ring_queue \<Rightarrow> ring_queue \<times> int" where
  "Purge q =
     (let count = qSize q in
      (q\<lparr>qBuf := fold (\<lambda>i buf. buf[slot q i := None]) [0..<nat count] (qBuf q), qTail := qHead q, qSize := 0\<rparr>, count))"

definition Drain :: "ring_queue \<Rightarrow> message list" where
  "Drain q = List.map_filter (\<lambda>i. qBuf q ! slot q i) [0..<nat (qSize q)]"

definition HasMessage :: "string \<Rightarrow> ring_queue \<Rightarrow> bool" where
  "HasMessage i q =
     list_ex (\<lambda>k. case qBuf q ! slot q k of None \<Rightarrow> False | Some m \<Rightarrow> mID m = i) [0..<nat (qSize q)]"


subsection \<open>The ring buffer is a bounded FIFO\<close>

definition ring_shape :: "nat \<Rightarrow> ring_queue \<Rightarrow> bool" where
  "ring_shape k q \<longleftrightarrow> k < 64 \<and> length (qBuf q) = 2 ^ k \<and> qMask q = mask k"

definition ring_rep :: "ring_queue \<Rightarrow> message list \<Rightarrow> bool" where
  "ring_rep q ms \<longleftrightarrow> (\<exists>k. ring_shape k q) \<and> qSize q = int (length ms) \<and> length ms \<le> length (qBuf q) \<and>
     qHead q = qTail q + of_nat (length ms) \<and>
     (\<forall>i < length (qBuf q). qBuf q ! slot q i = (if i < length ms then Some (ms ! i) else None))"

lemma unat_and_mask: "unat ((w :: u64) AND mask k) = unat w mod 2 ^ k"
  unfolding take_bit_eq_mask [symmetric] unsigned_take_bit_eq by (simp add: take_bit_eq_mod)

lemma mod_shift_inj:
  fixes a i j n :: nat
  assumes "(a + i) mod n = (a + j) mod n" and "i < n" and "j < n"
  shows "i = j"
proof -
  have le: "x = y" if "(a + x) mod n = (a + y) mod n" "x \<le> y" "y < n" for x y
  proof -
    have "n dvd y - x" using that mod_eq_dvd_iff_nat [of "a + x" "a + y" n] by simp
    then have "y - x = 0 \<or> n \<le> y - x" by (meson dvd_imp_le not_gr0)
    then show ?thesis using that(2,3) by auto
  qed
  show ?thesis using le [of i j] le [of j i] assms by (cases "i \<le> j") simp_all
qed

lemma slot_mod:
  assumes "ring_shape k q"
  shows "slot q i = (unat (qTail q) + i) mod 2 ^ k"
proof -
  have "unat (qTail q + of_nat i) = (unat (qTail q) + i) mod 2 ^ 64"
    by (simp add: unat_word_ariths unat_of_nat take_bit_eq_mod mod_simps)
  moreover have "(2 :: nat) ^ k dvd 2 ^ 64"
    using assms by (intro le_imp_power_dvd) (simp add: ring_shape_def)
  ultimately show ?thesis
    using assms unfolding slot_def ring_shape_def by (simp only: unat_and_mask mod_mod_cancel)
qed

lemma slot_bound: "ring_shape k q \<Longrightarrow> slot q i < length (qBuf q)"
  by (simp only: slot_mod) (simp add: ring_shape_def)

lemma slot_inj:
  assumes "ring_shape k q" and "i < length (qBuf q)" and "j < length (qBuf q)" and "slot q i = slot q j"
  shows "i = j"
proof -
  have "(unat (qTail q) + i) mod 2 ^ k = (unat (qTail q) + j) mod 2 ^ k"
    using assms(4) unfolding slot_mod [OF assms(1)] .
  then show ?thesis using assms(1-3) by (intro mod_shift_inj [of "unat (qTail q)" i "2 ^ k" j]) (simp_all add: ring_shape_def)
qed

lemma slot_wrap: "ring_shape k q \<Longrightarrow> slot q (i + length (qBuf q)) = slot q i"
  by (simp only: slot_mod) (simp add: ring_shape_def flip: add.assoc)

lemma slot_advance: "slot (q\<lparr>qTail := qTail q + of_nat n\<rparr>) i = slot q (n + i)"
  by (simp add: slot_def add.assoc)

lemma ring_shape_upd [simp]:
  "ring_shape k (q\<lparr>qHead := h\<rparr>) = ring_shape k q" "ring_shape k (q\<lparr>qTail := h\<rparr>) = ring_shape k q"
  "ring_shape k (q\<lparr>qSize := n\<rparr>) = ring_shape k q" "ring_shape k (q\<lparr>qBuf := (qBuf q)[i := x]\<rparr>) = ring_shape k q"
  by (simp_all add: ring_shape_def)

lemma slot_upd [simp]:
  "slot (q\<lparr>qHead := h\<rparr>) i = slot q i" "slot (q\<lparr>qSize := n\<rparr>) i = slot q i" "slot (q\<lparr>qBuf := b\<rparr>) i = slot q i"
  by (simp_all add: slot_def)

lemma Push_rep:
  assumes "ring_rep q ms" and "length ms < length (qBuf q)"
  shows "\<exists>q'. Push m q = (q', True) \<and> ring_rep q' (ms @ [m]) \<and> length (qBuf q') = length (qBuf q)"
proof -
  obtain k where k: "ring_shape k q" using assms(1) by (auto simp: ring_rep_def)
  let ?n = "length ms"
  have pos: "unat (qHead q AND qMask q) = slot q ?n" using assms(1) by (simp add: ring_rep_def slot_def)
  let ?q = "q\<lparr>qBuf := (qBuf q)[slot q ?n := Some m], qHead := qHead q + 1, qSize := qSize q + 1\<rparr>"
  have "(qBuf q)[slot q ?n := Some m] ! slot q i = (if i < Suc ?n then Some ((ms @ [m]) ! i) else None)"
    if "i < length (qBuf q)" for i
  proof (cases "i = ?n")
    case True
    then show ?thesis using slot_bound [OF k] by simp
  next
    case False
    then have "slot q ?n \<noteq> slot q i" using slot_inj [OF k] that assms(2) by blast
    then show ?thesis using assms(1) that False by (auto simp: ring_rep_def nth_append)
  qed
  then have "ring_rep ?q (ms @ [m])"
    using assms k by (auto simp: ring_rep_def slot_def ring_shape_def)
  moreover have "Push m q = (?q, True)"
    using assms unfolding Push_def pos by (simp add: ring_rep_def Let_def)
  ultimately show ?thesis by auto
qed

lemma Push_full: "ring_rep q ms \<Longrightarrow> \<not> length ms < length (qBuf q) \<Longrightarrow> Push m q = (q, False)"
  by (simp add: Push_def ring_rep_def)

lemma TryPop_rep:
  assumes "ring_rep q (m # ms)"
  shows "\<exists>q'. TryPop q = (q', Some m) \<and> ring_rep q' ms \<and> length (qBuf q') = length (qBuf q)"
proof -
  obtain k where k: "ring_shape k q" using assms by (auto simp: ring_rep_def)
  have pos: "unat (qTail q AND qMask q) = slot q 0" by (simp add: slot_def)
  let ?q = "q\<lparr>qBuf := (qBuf q)[slot q 0 := None], qTail := qTail q + 1, qSize := qSize q - 1\<rparr>"
  have ne: "0 < length (qBuf q)" using assms by (auto simp: ring_rep_def)
  have sl: "slot ?q i = slot q (Suc i)" for i using slot_advance [of q 1 i] by (simp add: slot_def)
  have "(qBuf q)[slot q 0 := None] ! slot q (Suc i) = (if i < length ms then Some (ms ! i) else None)"
    if "i < length (qBuf q)" for i
  proof (cases "Suc i < length (qBuf q)")
    case True
    then have "slot q 0 \<noteq> slot q (Suc i)" using slot_inj [OF k ne True] by blast
    then show ?thesis using assms True by (auto simp: ring_rep_def)
  next
    case False
    then have "Suc i = 0 + length (qBuf q)" using that by simp
    then have "slot q (Suc i) = slot q 0" using slot_wrap [OF k, of 0] by simp
    moreover have "\<not> i < length ms" using False assms by (auto simp: ring_rep_def)
    ultimately show ?thesis using slot_bound [OF k, of 0] by simp
  qed
  then have "ring_rep ?q ms"
    using assms k unfolding ring_rep_def sl by (auto simp: ring_shape_def)
  moreover have "TryPop q = (?q, Some m)"
    using assms ne unfolding TryPop_def pop_slot_def pos by (auto simp: ring_rep_def Let_def)
  ultimately show ?thesis by auto
qed

lemma TryPop_empty: "ring_rep q [] \<Longrightarrow> TryPop q = (q, None)"
  by (simp add: TryPop_def ring_rep_def)

lemma ring_slots:
  assumes "ring_rep q ms"
  shows "map (\<lambda>i. qBuf q ! slot q i) [0..<nat (qSize q)] = map Some ms"
  using assms by (intro nth_equalityI) (auto simp: ring_rep_def)

lemma Drain_rep: "ring_rep q ms \<Longrightarrow> Drain q = ms"
proof -
  assume "ring_rep q ms"
  then have "map (\<lambda>i. qBuf q ! slot q i) [0..<nat (qSize q)] = map Some ms" by (rule ring_slots)
  moreover have "List.map_filter id (map f xs) = List.map_filter f xs" for f :: "nat \<Rightarrow> message option" and xs
    by (induction xs) (simp_all add: List.map_filter_simps split: option.splits)
  moreover have "List.map_filter id (map Some ms) = ms" by (induction ms) (simp_all add: List.map_filter_simps)
  ultimately show ?thesis by (metis Drain_def)
qed

lemma HasMessage_rep:
  assumes "ring_rep q ms"
  shows "HasMessage i q \<longleftrightarrow> (\<exists>m \<in> set ms. mID m = i)"
proof -
  have "HasMessage i q \<longleftrightarrow> list_ex (\<lambda>r. case r of None \<Rightarrow> False | Some m \<Rightarrow> mID m = i) (map (\<lambda>k. qBuf q ! slot q k) [0..<nat (qSize q)])"
    by (simp add: HasMessage_def list_ex_iff)
  then show ?thesis unfolding ring_slots [OF assms] by (auto simp: list_ex_iff)
qed


lemma pushInternal_Push: "pushInternal = Push"
  by (simp add: fun_eq_iff pushInternal_def Push_def)

lemma tryPopInternal_TryPop: "tryPopInternal = TryPop"
  by (simp add: fun_eq_iff tryPopInternal_def TryPop_def pop_slot_def)

lemma fold_clear:
  "length (fold (\<lambda>i b. b[f i := None]) is buf) = length buf"
  "j < length buf \<Longrightarrow>
     fold (\<lambda>i b. b[f i := None]) is buf ! j = (if \<exists>i \<in> set is. f i = j then None else buf ! j)"
  by (induction "is" arbitrary: buf) (auto simp: nth_list_update)

lemma Purge_rep:
  assumes "ring_rep q ms"
  shows "snd (Purge q) = int (length ms)" and "ring_rep (fst (Purge q)) []"
    and "length (qBuf (fst (Purge q))) = length (qBuf q)"
proof -
  obtain k where k: "ring_shape k q" using assms by (auto simp: ring_rep_def)
  let ?n = "length ms"
  let ?b = "fold (\<lambda>i buf. buf[slot q i := None]) [0..<?n] (qBuf q)"
  have n: "qSize q = int ?n" "qHead q = qTail q + of_nat ?n" using assms by (simp_all add: ring_rep_def)
  have len: "length ?b = length (qBuf q)" by (rule fold_clear(1))
  have P: "Purge q = (q\<lparr>qBuf := ?b, qTail := qHead q, qSize := 0\<rparr>, int ?n)" by (simp add: Purge_def n)
  then show "snd (Purge q) = int ?n" "length (qBuf (fst (Purge q))) = length (qBuf q)" by (simp_all add: len)
  have sl: "slot (q\<lparr>qBuf := ?b, qTail := qHead q, qSize := 0\<rparr>) i = slot q (?n + i)" for i
    using slot_advance [of q ?n i] by (simp add: slot_def n)
  have "?b ! slot q (?n + i) = None" if i: "i < length (qBuf q)" for i
  proof (cases "?n + i < length (qBuf q)")
    case True
    then have "qBuf q ! slot q (?n + i) = None" using assms by (simp add: ring_rep_def)
    then show ?thesis using fold_clear(2) [OF slot_bound [OF k], of "slot q" "[0..<?n]" "?n + i"] by simp
  next
    case False
    then obtain d where d: "?n + i = d + length (qBuf q)" by (metis le_add_diff_inverse2 not_less)
    then have "slot q (?n + i) = slot q d" "d < ?n" using slot_wrap [OF k, of d] i by simp_all
    then show ?thesis using fold_clear(2) [OF slot_bound [OF k], of "slot q" "[0..<?n]" d] by auto
  qed
  then show "ring_rep (fst (Purge q)) []"
    using k unfolding ring_rep_def P fst_conv sl by (auto simp: ring_shape_def len)
qed

subsection \<open>The capacity is the next power of two\<close>

text \<open>After the shifts by 1, 2, 4, 8 and 16 a bit is set iff one of the 32 bits from it upwards was.\<close>

definition smeared :: "nat \<Rightarrow> int \<Rightarrow> int \<Rightarrow> bool" where
  "smeared w m r \<longleftrightarrow> (\<forall>i. bit r i \<longleftrightarrow> (\<exists>d<w. bit m (i + d)))"

lemma smeared_step: "smeared w m r \<Longrightarrow> smeared (w + w) m (r OR drop_bit w r)"
proof -
  assume r: "smeared w m r"
  have "(\<exists>d<w + w. P d) \<longleftrightarrow> (\<exists>d<w. P d) \<or> (\<exists>d<w. P (w + d))" for P :: "nat \<Rightarrow> bool"
    by (metis add_diff_inverse_nat add_less_cancel_left trans_less_add1)
  then show ?thesis using r by (simp add: smeared_def bit_simps ac_simps)
qed

lemma bit_between:
  fixes m :: int
  assumes "2 ^ k \<le> m" "m < 2 ^ Suc k"
  shows "bit m k" and "j > k \<Longrightarrow> \<not> bit m j"
proof -
  have "m div 2 ^ k = 1" using assms by (intro int_div_pos_eq [where r = "m - 2 ^ k"]) simp_all
  then show "bit m k" by (simp add: bit_iff_odd)
  assume "j > k"
  then have "(2 :: int) ^ Suc k \<le> 2 ^ j" by (intro power_increasing) simp_all
  then have "m div 2 ^ j = 0" using assms order.trans [of 0 "2 ^ k" m] by (intro div_pos_pos_trivial) simp_all
  then show "\<not> bit m j" by (simp add: bit_iff_odd)
qed

lemma power_between:
  fixes m :: int
  assumes "1 \<le> m"
  obtains k where "2 ^ k \<le> m" and "m < 2 ^ Suc k"
proof -
  define k where "k = (LEAST k. m < 2 ^ Suc k)"
  have "int (nat m) < int (2 ^ nat m)" by (simp only: of_nat_less_iff less_exp)
  then have "m < 2 ^ Suc (nat m)" using assms by simp
  then have 1: "m < 2 ^ Suc k" unfolding k_def by (rule LeastI)
  have "2 ^ k \<le> m"
  proof (cases k)
    case (Suc l)
    then show ?thesis using not_less_Least [of l "\<lambda>k. m < 2 ^ Suc k"] by (simp add: k_def)
  qed (use assms in simp)
  then show thesis using 1 that by blast
qed

lemma smeared_mask:
  assumes "smeared 32 m r" "2 ^ k \<le> m" "m < 2 ^ Suc k" "k < 32"
  shows "r = mask (Suc k)"
proof (rule bit_eqI)
  fix i
  have "(\<exists>d<32. bit m (i + d)) \<longleftrightarrow> i \<le> k"
  proof
    assume "i \<le> k"
    then have "bit m (i + (k - i))" "k - i < 32" using bit_between(1) [OF assms(2,3)] assms(4) by simp_all
    then show "\<exists>d<32. bit m (i + d)" by blast
  next
    assume "\<exists>d<32. bit m (i + d)"
    then show "i \<le> k" using bit_between(2) [OF assms(2,3)] by (meson not_le trans_less_add1)
  qed
  then show "bit r i \<longleftrightarrow> bit (mask (Suc k) :: int) i"
    using assms(1) by (simp add: smeared_def bit_mask_iff less_Suc_eq_le)
qed

lemma nextPowerOfTwo_power:
  assumes "n \<le> 2 ^ 32"
  obtains k where "k \<le> 32" and "nextPowerOfTwo n = 2 ^ k" and "n \<le> 2 ^ k" and "k = 0 \<or> 2 ^ k < 2 * n"
proof (cases "n \<le> 1")
  case True
  then have "n \<le> 0 \<or> n = 1" by auto
  then have "nextPowerOfTwo n = 2 ^ 0" by (auto simp: nextPowerOfTwo_def Let_def)
  then show thesis using that [of 0] True by simp
next
  case False
  let ?m = "n - 1"
  obtain k where k: "2 ^ k \<le> ?m" "?m < 2 ^ Suc k" using power_between [of ?m] False by auto
  have "(2 :: int) ^ k < 2 ^ 32" using k(1) assms by simp
  then have k32: "k < 32" by (rule power_less_imp_less_exp [rotated]) simp
  define m1 where "m1 = ?m OR drop_bit 1 ?m"
  define m2 where "m2 = m1 OR drop_bit 2 m1"
  define m4 where "m4 = m2 OR drop_bit 4 m2"
  define m8 where "m8 = m4 OR drop_bit 8 m4"
  define m16 where "m16 = m8 OR drop_bit 16 m8"
  have "smeared 1 ?m ?m" by (simp add: smeared_def)
  then have "smeared 2 ?m m1" using smeared_step [of 1 ?m ?m] by (simp add: m1_def numeral_2_eq_2)
  then have "smeared 4 ?m m2" using smeared_step [of 2 ?m m1] by (simp add: m2_def)
  then have "smeared 8 ?m m4" using smeared_step [of 4 ?m m2] by (simp add: m4_def)
  then have "smeared 16 ?m m8" using smeared_step [of 8 ?m m4] by (simp add: m8_def)
  then have "smeared 32 ?m m16" using smeared_step [of 16 ?m m8] by (simp add: m16_def)
  then have "m16 = mask (Suc k)" by (rule smeared_mask [OF _ k k32])
  moreover have "nextPowerOfTwo n = m16 + 1"
    using False unfolding nextPowerOfTwo_def Let_def m16_def m8_def m4_def m2_def m1_def by (simp only: if_False not_le) simp
  ultimately have "nextPowerOfTwo n = mask (Suc k) + 1" by simp
  then show thesis using that [of "Suc k"] k k32 by (simp add: mask_eq_exp_minus_1)
qed

lemma New_rep:
  assumes "capacity \<le> 2 ^ 32"
  shows "ring_rep (New name capacity) []" and "capacity \<le> int (length (qBuf (New name capacity)))"
proof -
  obtain k where k: "k \<le> 32" "nextPowerOfTwo capacity = 2 ^ k" "capacity \<le> 2 ^ k"
    by (rule nextPowerOfTwo_power [OF assms])
  have shape: "ring_shape k (New name capacity)"
    using k by (simp add: ring_shape_def New_def nat_power_eq mask_eq_exp_minus_1)
  then show "ring_rep (New name capacity) []"
    using slot_bound [OF shape] by (auto simp: ring_rep_def New_def Let_def)
  show "capacity \<le> int (length (qBuf (New name capacity)))" using shape k by (simp add: ring_shape_def)
qed

interpretation ring: fifo_queue ring_rep Push TryPop Drain queue_Size HasMessage Purge
proof
  fix q ms m q' assume r: "ring_rep q ms"
  show last: "ring_rep q' (ms @ [m])" if "Push m q = (q', True)"
    using that Push_rep [OF r, of m] Push_full [OF r, of m] by (cases "length ms < length (qBuf q)") auto
  show "\<exists>xs ys. ms = xs @ ys \<and> ring_rep q' (xs @ m # ys)" if "Push m q = (q', True)"
    using last [OF that] by (intro exI [of _ ms] exI [of _ "[]"]) simp
  show "q' = q" if "Push m q = (q', False)"
    using that by (auto simp: Push_def Let_def split: if_splits)
next
  fix q m ms assume "ring_rep q (m # ms)"
  then show "\<exists>q'. TryPop q = (q', Some m) \<and> ring_rep q' ms" using TryPop_rep by blast
next
  fix q ms assume "ring_rep q ms"
  then show "queue_Size q = int (length ms)" by (simp add: queue_Size_def ring_rep_def)
qed (simp_all add: TryPop_empty Drain_rep Purge_rep HasMessage_rep)

subsection \<open>The bounded list the ring buffer implements\<close>

definition fifo_push :: "int \<Rightarrow> message \<Rightarrow> message list \<Rightarrow> message list \<times> bool" where
  "fifo_push cap m ms = (if int (length ms) < cap then (ms @ [m], True) else (ms, False))"

definition fifo_pop :: "message list \<Rightarrow> message list \<times> message option" where
  "fifo_pop ms = (case ms of [] \<Rightarrow> ([], None) | m # ms' \<Rightarrow> (ms', Some m))"

lemma ring_step_push:
  assumes "ring_rep q ms" and "int (length (qBuf q)) = cap"
  shows "snd (Push m q) = snd (fifo_push cap m ms) \<and> ring_rep (fst (Push m q)) (fst (fifo_push cap m ms)) \<and>
     int (length (qBuf (fst (Push m q)))) = cap"
proof (cases "length ms < length (qBuf q)")
  case True
  then show ?thesis using Push_rep [OF assms(1) True, of m] assms(2) by (auto simp: fifo_push_def)
next
  case False
  then show ?thesis using Push_full [OF assms(1) False] assms by (auto simp: fifo_push_def)
qed

lemma ring_step_pop:
  assumes "ring_rep q ms" and "int (length (qBuf q)) = cap"
  shows "snd (TryPop q) = snd (fifo_pop ms) \<and> ring_rep (fst (TryPop q)) (fst (fifo_pop ms)) \<and>
     int (length (qBuf (fst (TryPop q)))) = cap"
proof (cases ms)
  case Nil
  then show ?thesis using TryPop_empty assms by (simp add: fifo_pop_def)
next
  case (Cons m ms')
  then show ?thesis using TryPop_rep [of q m ms'] assms by (auto simp: fifo_pop_def)
qed

lemma New_capacity: "capacity \<le> 2 ^ 32 \<Longrightarrow> int (length (qBuf (New name capacity))) = nextPowerOfTwo capacity"
  by (rule nextPowerOfTwo_power) (auto simp: New_def Let_def)

lemma queue_refines_fifo_facts:
  assumes "capacity \<le> 2 ^ 32" and "run_ops Push TryPop ops (New name capacity) = (q, acc, del)"
  shows "run_ops (fifo_push (nextPowerOfTwo capacity)) fifo_pop ops [] = (Drain q, acc, del)"
    and "acc = del @ Drain q"
proof -
  let ?R = "\<lambda>q ms. ring_rep q ms \<and> int (length (qBuf q)) = nextPowerOfTwo capacity"
  have "?R (New name capacity) []" using New_rep(1) New_capacity assms(1) by blast
  then obtain ms where "run_ops (fifo_push (nextPowerOfTwo capacity)) fifo_pop ops [] = (ms, acc, del)" "?R q ms"
    using run_ops_simulation [of ?R Push "fifo_push (nextPowerOfTwo capacity)" TryPop fifo_pop, OF _ _ _ assms(2)]
      ring_step_push ring_step_pop by blast
  then show "run_ops (fifo_push (nextPowerOfTwo capacity)) fifo_pop ops [] = (Drain q, acc, del)"
    using ring.drain_all [of q ms] by simp
  show "acc = del @ Drain q" using ring.run_fifo [OF New_rep(1) [OF assms(1)] assms(2)] by simp
qed

text \<open>
  C2: Every sequence of pushes and non-blocking pops on a new queue accepts, refuses and delivers
  exactly as a list bounded by the rounded capacity does, and the messages left in the buffer are
  the list's; in particular the deliveries are the accepted messages in order.
\<close>

theorem queue_refines_fifo:
  assumes "capacity \<le> 2 ^ 32" and "run_ops Push TryPop ops (New name capacity) = (q, acc, del)"
  shows "run_ops (fifo_push (nextPowerOfTwo capacity)) fifo_pop ops [] = (Drain q, acc, del) \<and>
    acc = del @ Drain q"
  by (assumption | rule queue_refines_fifo_facts [OF assms] | rule impI | rule conjI)+

theorem queue_refines_fifo_witness:
  "\<exists>q. run_ops Push TryPop [OpPush (NewMessage ''a'' 0 ''t'' [] []), OpPush (NewMessage ''b'' 0 ''t'' [] []),
        OpPush (NewMessage ''c'' 0 ''t'' [] []), OpPop] (New ''q'' 2) =
      (q, [NewMessage ''a'' 0 ''t'' [] [], NewMessage ''b'' 0 ''t'' [] []], [NewMessage ''a'' 0 ''t'' [] []]) \<and>
    Drain q = [NewMessage ''b'' 0 ''t'' [] []]"
proof -
  let ?m = "\<lambda>i. NewMessage i 0 ''t'' [] []"
  let ?r = "run_ops Push TryPop [OpPush (?m ''a''), OpPush (?m ''b''), OpPush (?m ''c''), OpPop] (New ''q'' 2)"
  obtain q acc del where r: "?r = (q, acc, del)" by (cases ?r) auto
  have "nextPowerOfTwo 2 = 2" by code_simp
  then show ?thesis
    using queue_refines_fifo [OF _ r] r by (auto simp: fifo_push_def fifo_pop_def)
qed

lemma capacity_bounds_facts:
  assumes "0 < capacity" and "capacity \<le> 2 ^ 32"
  shows "\<exists>k. Capacity (New name capacity) = 2 ^ k" and "capacity \<le> Capacity (New name capacity)"
    and "Capacity (New name capacity) < 2 * capacity"
    and "run_ops Push TryPop ops (New name capacity) = (q, acc, del) \<Longrightarrow>
      queue_Size q \<le> Capacity (New name capacity) \<and> (snd (Push m q) \<longleftrightarrow> \<not> IsFull q) \<and>
      (IsFull q \<longleftrightarrow> queue_Size q = Capacity (New name capacity))"
proof -
  obtain k where k: "nextPowerOfTwo capacity = 2 ^ k" "capacity \<le> 2 ^ k" "k = 0 \<or> 2 ^ k < 2 * capacity"
    by (rule nextPowerOfTwo_power [OF assms(2)]) blast
  have cap: "Capacity (New name capacity) = nextPowerOfTwo capacity"
    using New_capacity [OF assms(2)] by (simp add: Capacity_def)
  then show "\<exists>k. Capacity (New name capacity) = 2 ^ k" "capacity \<le> Capacity (New name capacity)"
      "Capacity (New name capacity) < 2 * capacity"
    using k assms(1) by auto
  assume run: "run_ops Push TryPop ops (New name capacity) = (q, acc, del)"
  let ?R = "\<lambda>q ms. ring_rep q ms \<and> int (length (qBuf q)) = nextPowerOfTwo capacity"
  have "?R (New name capacity) []" using New_rep(1) New_capacity assms(2) by blast
  then obtain ms where ms: "ring_rep q ms" "int (length (qBuf q)) = nextPowerOfTwo capacity"
    using run_ops_simulation [of ?R Push "fifo_push (nextPowerOfTwo capacity)" TryPop fifo_pop, OF _ _ _ run]
      ring_step_push ring_step_pop by blast
  then have "snd (Push m q) \<longleftrightarrow> length ms < length (qBuf q)" using ring_step_push [OF ms] by (auto simp: fifo_push_def)
  then show "queue_Size q \<le> Capacity (New name capacity) \<and> (snd (Push m q) \<longleftrightarrow> \<not> IsFull q) \<and>
      (IsFull q \<longleftrightarrow> queue_Size q = Capacity (New name capacity))"
    using ms unfolding cap by (auto simp: ring_rep_def queue_Size_def IsFull_def)
qed

text \<open>
  The capacity of a new queue is a power of two, at least what was asked for and less than twice
  as much, and a queue never holds more than its capacity: it accepts a message exactly when
  fewer messages than that are waiting.
\<close>

theorem capacity_bounds:
  assumes "0 < capacity" and "capacity \<le> 2 ^ 32"
  shows "(\<exists>k. Capacity (New name capacity) = 2 ^ k) \<and>
    capacity \<le> Capacity (New name capacity) \<and>
    Capacity (New name capacity) < 2 * capacity \<and>
    (run_ops Push TryPop ops (New name capacity) = (q, acc, del) \<longrightarrow>
      queue_Size q \<le> Capacity (New name capacity) \<and> (snd (Push m q) \<longleftrightarrow> \<not> IsFull q) \<and>
      (IsFull q \<longleftrightarrow> queue_Size q = Capacity (New name capacity)))"
  by (assumption | rule capacity_bounds_facts [OF assms] | rule impI | rule conjI)+

theorem capacity_bounds_witness:
  "Capacity (New ''q'' 5) = 8"
proof -
  obtain k where "Capacity (New ''q'' 5) = 2 ^ k" using capacity_bounds [THEN conjunct1, of 5 "''q''"] by auto
  moreover have "5 \<le> Capacity (New ''q'' 5)" "Capacity (New ''q'' 5) < 10"
    using capacity_bounds [THEN conjunct2, THEN conjunct1, of 5 "''q''"] capacity_bounds [THEN conjunct2, THEN conjunct2, THEN conjunct1, of 5 "''q''"] by simp_all
  moreover have "k < 4"
  proof (rule ccontr)
    assume "\<not> k < 4"
    then have "(2 :: int) ^ 4 \<le> 2 ^ k" by (intro power_increasing) simp_all
    then show False using calculation by simp
  qed
  then have "k = 0 \<or> k = 1 \<or> k = 2 \<or> k = 3" by auto
  ultimately show ?thesis by auto
qed

subsection \<open>Closing\<close>

text \<open>The results of \<open>n\<close> successive calls of the blocking \<open>Pop\<close>.\<close>

fun pops :: "nat \<Rightarrow> ring_queue \<Rightarrow> pop_result list" where
  "pops 0 q = []"
| "pops (Suc n) q = (case Pop q of (q', r) \<Rightarrow> r # pops n q')"

lemma Pop_TryPop: "qSize q \<noteq> 0 \<Longrightarrow> Pop q = (case TryPop q of (q', m) \<Rightarrow> (q', PopReturns m))"
  by (simp add: Pop_def TryPop_def)

lemma TryPop_closed: "TryPop q = (q', m) \<Longrightarrow> qClosed q' = qClosed q"
  by (auto simp: TryPop_def pop_slot_def Let_def split: if_splits)

lemma ring_rep_Close [simp]: "ring_rep (queue_Close q) ms = ring_rep q ms"
  by (simp add: ring_rep_def queue_Close_def ring_shape_def slot_def)

lemma pops_closed:
  "ring_rep q ms \<Longrightarrow> qClosed q \<Longrightarrow>
     pops (length ms + n) q = map (\<lambda>m. PopReturns (Some m)) ms @ replicate n (PopReturns None)"
proof (induction ms arbitrary: q)
  case Nil
  then have "Pop q = (q, PopReturns None)" by (simp add: Pop_def ring_rep_def)
  then have "pops n q = replicate n (PopReturns None)" by (induction n) simp_all
  then show ?case by simp
next
  case (Cons m ms)
  then obtain q' where q': "TryPop q = (q', Some m)" "ring_rep q' ms" using TryPop_rep by blast
  then have "Pop q = (q', PopReturns (Some m))" using Cons.prems(1) Pop_TryPop [of q] by (simp add: ring_rep_def)
  then show ?case using Cons.IH [OF q'(2)] TryPop_closed [OF q'(1)] Cons.prems(2) by simp
qed

text \<open>
  Once a queue is closed no consumer waits: successive calls of \<open>Pop\<close> return the waiting messages
  in order and then nil for ever, whatever happened before the close.
\<close>

theorem Close_drains:
  assumes "capacity \<le> 2 ^ 32" and "run_ops Push TryPop ops (New name capacity) = (q, acc, del)"
  shows "pops (length (Drain q) + n) (queue_Close q) =
     map (\<lambda>m. PopReturns (Some m)) (Drain q) @ replicate n (PopReturns None)"
proof -
  obtain ms where ms: "ring_rep q ms"
    using ring.run_conserves [OF New_rep(1) [OF assms(1)] assms(2)] by blast
  then have "Drain q = ms" by (rule ring.drain_all)
  moreover have "qClosed (queue_Close q)" by (simp add: queue_Close_def)
  ultimately show ?thesis using pops_closed [of "queue_Close q" ms n] ms by simp
qed

theorem Close_drains_witness:
  "pops 2 (queue_Close (fst (Push (NewMessage ''a'' 0 ''t'' [] []) (New ''q'' 1)))) =
     [PopReturns (Some (NewMessage ''a'' 0 ''t'' [] [])), PopReturns None]"
proof -
  let ?m = "NewMessage ''a'' 0 ''t'' [] []"
  obtain q ok where q: "Push ?m (New ''q'' 1) = (q, ok)" by (cases "Push ?m (New ''q'' 1)")
  then have r: "run_ops Push TryPop [OpPush ?m] (New ''q'' 1) = (q, if ok then [?m] else [], [])" by simp
  have "length ([] :: message list) < length (qBuf (New ''q'' 1))" using New_rep(2) [of 1 "''q''"] by (cases "qBuf (New ''q'' 1)") simp_all
  then have "ok" "Drain q = [?m]"
    using q Push_rep [OF New_rep(1) [of 1 "''q''"], of ?m] ring.drain_all [of q "[?m]"] by auto
  then show ?thesis using Close_drains [OF _ r, of 1] q by (simp add: numeral_2_eq_2)
qed

end
