(* ===== verification/Priority_Queue.thy ===== *)
theory Priority_Queue
  imports Message_Queue
begin

section \<open>The priority queue\<close>

text \<open>
  \<open>internal/queue/priority_queue.go\<close>: ten ring buffers, one for each priority from 0 to 9, with a
  size of their own. The lemmas show that it is a stable queue by descending priority: a message
  goes behind every message of at least its priority.
\<close>

subsection \<open>State and operations\<close>

definition NumPriorityLevels :: nat where "NumPriorityLevels = 10"

record priority_queue =
  pqName :: string
  pqLevels :: "ring_queue list"
  pqSize :: int
  pqClosed :: bool

definition NewPriority :: "string \<Rightarrow> int \<Rightarrow> priority_queue" where
  "NewPriority name capacityPerLevel =
     \<lparr>pqName = name,
      pqLevels = map (\<lambda>i. New (name @ ''_p'' @ decimal i) capacityPerLevel) [0..<NumPriorityLevels],
      pqSize = 0, pqClosed = False\<rparr>"

definition clampPriority :: "int \<Rightarrow> int" where
  "clampPriority p = (if p < 0 then 0 else if p \<ge> int NumPriorityLevels then int NumPriorityLevels - 1 else p)"

definition pq_Push :: "message \<Rightarrow> priority_queue \<Rightarrow> priority_queue \<times> bool" where
  "pq_Push msg pq =
     (let pri = nat (clampPriority (mPriority msg)) in
      case pushInternal msg (pqLevels pq ! pri) of
        (_, False) \<Rightarrow> (pq, False)
      | (l, True) \<Rightarrow> (pq\<lparr>pqLevels := (pqLevels pq)[pri := l], pqSize := pqSize pq + 1\<rparr>, True))"

text \<open>The scan of \<open>popHighest\<close> over the levels below \<open>n\<close>, highest first.\<close>

fun pop_levels :: "nat \<Rightarrow> priority_queue \<Rightarrow> priority_queue \<times> message option" where
  "pop_levels 0 pq = (pq, None)"
| "pop_levels (Suc pri) pq =
     (if sizeInternal (pqLevels pq ! pri) > 0
      then case tryPopInternal (pqLevels pq ! pri) of
             (l, Some m) \<Rightarrow> (pq\<lparr>pqLevels := (pqLevels pq)[pri := l], pqSize := pqSize pq - 1\<rparr>, Some m)
           | (l, None) \<Rightarrow> pop_levels pri (pq\<lparr>pqLevels := (pqLevels pq)[pri := l]\<rparr>)
      else pop_levels pri pq)"

definition popHighest :: "priority_queue \<Rightarrow> priority_queue \<times> message option" where
  "popHighest pq = pop_levels NumPriorityLevels pq"

definition pq_Pop :: "priority_queue \<Rightarrow> priority_queue \<times> pop_result" where
  "pq_Pop pq =
     (if pqSize pq = 0 then (pq, if pqClosed pq then PopReturns None else PopWaits)
      else case popHighest pq of (pq', m) \<Rightarrow> (pq', PopReturns m))"

definition pq_TryPop :: "priority_queue \<Rightarrow> priority_queue \<times> message option" where
  "pq_TryPop pq = (if pqSize pq = 0 then (pq, None) else popHighest pq)"

definition pq_Size :: "priority_queue \<Rightarrow> int" where "pq_Size pq = pqSize pq"

definition pq_Capacity :: "priority_queue \<Rightarrow> int" where
  "pq_Capacity pq = sum_list (map Capacity (pqLevels pq))"

definition pq_IsFull :: "priority_queue \<Rightarrow> bool" where
  "pq_IsFull pq \<longleftrightarrow> \<not> list_ex (\<lambda>l. sizeInternal l < int (length (qBuf l))) (pqLevels pq)"

definition pq_Close :: "priority_queue \<Rightarrow> priority_queue" where "pq_Close pq = pq\<lparr>pqClosed := True\<rparr>"

definition pq_Purge :: "priority_queue \<Rightarrow> priority_queue \<times> int" where
  "pq_Purge pq =
     (pq\<lparr>pqLevels := map (\<lambda>l. if sizeInternal l > 0 then fst (Purge l) else l) (pqLevels pq), pqSize := 0\<rparr>,
      sum_list (map (\<lambda>l. if sizeInternal l > 0 then sizeInternal l else 0) (pqLevels pq)))"

definition pq_Drain :: "priority_queue \<Rightarrow> message list" where
  "pq_Drain pq = concat (map Drain (rev (pqLevels pq)))"

definition pq_HasMessage :: "string \<Rightarrow> priority_queue \<Rightarrow> bool" where
  "pq_HasMessage i pq \<longleftrightarrow> list_ex (HasMessage i) (pqLevels pq)"

subsection \<open>The priority queue is a stable queue by descending priority\<close>

abbreviation prio :: "message \<Rightarrow> nat" where "prio m \<equiv> nat (clampPriority (mPriority m))"

definition prio_levels :: "priority_queue \<Rightarrow> message list list \<Rightarrow> bool" where
  "prio_levels pq mss \<longleftrightarrow> length mss = NumPriorityLevels \<and> list_all2 ring_rep (pqLevels pq) mss \<and>
     (\<forall>i < NumPriorityLevels. \<forall>m \<in> set (mss ! i). prio m = i)"

definition prio_rep :: "priority_queue \<Rightarrow> message list \<Rightarrow> bool" where
  "prio_rep pq ms \<longleftrightarrow> pqSize pq = int (length ms) \<and> (\<exists>mss. prio_levels pq mss \<and> ms = concat (rev mss))"

text \<open>Insertion behind every message of at least the same priority.\<close>

definition prio_insert :: "message \<Rightarrow> message list \<Rightarrow> message list" where
  "prio_insert m ms = takeWhile (\<lambda>x. prio m \<le> prio x) ms @ m # dropWhile (\<lambda>x. prio m \<le> prio x) ms"

lemma length_prio_insert: "length (prio_insert m ms) = Suc (length ms)"
proof -
  have "length ms = length (takeWhile (\<lambda>x. prio m \<le> prio x) ms @ dropWhile (\<lambda>x. prio m \<le> prio x) ms)"
    by (simp only: takeWhile_dropWhile_id)
  then show ?thesis by (simp only: prio_insert_def length_append list.size)
qed

lemma prio_bound: "prio m < NumPriorityLevels"
  by (auto simp: clampPriority_def NumPriorityLevels_def)

lemma prio_levels_nth:
  assumes "prio_levels pq mss" and "i < NumPriorityLevels"
  shows "ring_rep (pqLevels pq ! i) (mss ! i)" and "length (pqLevels pq) = NumPriorityLevels"
  using assms by (auto simp: prio_levels_def list_all2_conv_all_nth)

lemma prio_levels_update:
  assumes "prio_levels pq mss" "i < NumPriorityLevels" "ring_rep l ms" "\<forall>m \<in> set ms. prio m = i"
  shows "prio_levels (pq\<lparr>pqLevels := (pqLevels pq)[i := l]\<rparr>) (mss[i := ms])"
  using assms by (auto simp: prio_levels_def nth_list_update intro: list_all2_update_cong)

lemma prio_levels_size [simp]: "prio_levels (pq\<lparr>pqSize := n\<rparr>) mss = prio_levels pq mss"
  by (simp add: prio_levels_def)

lemma takeWhile_all_none: "\<forall>x \<in> set xs. P x \<Longrightarrow> \<forall>y \<in> set ys. \<not> P y \<Longrightarrow>
    takeWhile P (xs @ ys) = xs \<and> dropWhile P (xs @ ys) = ys"
  by (induction xs) (cases ys; auto)+

lemma concat_rev_split:
  "i < length mss \<Longrightarrow> concat (rev mss) = concat (rev (drop (Suc i) mss)) @ mss ! i @ concat (rev (take i mss))"
  by (subst id_take_nth_drop [of i mss]) auto

lemma concat_rev_update:
  "i < length mss \<Longrightarrow>
     concat (rev (mss[i := ms])) = concat (rev (drop (Suc i) mss)) @ ms @ concat (rev (take i mss))"
  by (simp add: upd_conv_take_nth_drop)

lemma prio_insert_levels:
  assumes "prio_levels pq mss"
  shows "concat (rev (mss[prio m := mss ! prio m @ [m]])) = prio_insert m (concat (rev mss))"
proof -
  let ?i = "prio m"
  have len: "length mss = NumPriorityLevels" "?i < length mss"
    using assms prio_bound by (simp_all add: prio_levels_def)
  let ?hi = "concat (rev (drop (Suc ?i) mss)) @ mss ! ?i" and ?lo = "concat (rev (take ?i mss))"
  have lev: "x \<in> set (mss ! j) \<Longrightarrow> j < length mss \<Longrightarrow> prio x = j" for x j
    using assms by (simp add: prio_levels_def)
  have "\<forall>x \<in> set ?hi. ?i \<le> prio x"
    using lev len by (fastforce simp: in_set_conv_nth)
  moreover have "\<forall>x \<in> set ?lo. \<not> ?i \<le> prio x"
    using lev len by (fastforce simp: in_set_conv_nth)
  ultimately have "takeWhile (\<lambda>x. ?i \<le> prio x) (?hi @ ?lo) = ?hi" "dropWhile (\<lambda>x. ?i \<le> prio x) (?hi @ ?lo) = ?lo"
    using takeWhile_all_none [of ?hi "\<lambda>x. ?i \<le> prio x" ?lo] by blast+
  moreover have "concat (rev mss) = ?hi @ ?lo" using concat_rev_split [OF len(2)] by simp
  ultimately show ?thesis
    unfolding prio_insert_def concat_rev_update [OF len(2)] by simp
qed

lemma pq_Push_rep:
  assumes "prio_rep pq ms" and "pq_Push m pq = (pq', True)"
  shows "prio_rep pq' (prio_insert m ms)"
proof -
  obtain mss where mss: "prio_levels pq mss" "ms = concat (rev mss)" and sz: "pqSize pq = int (length ms)"
    using assms(1) by (auto simp: prio_rep_def)
  note lev = prio_levels_nth [OF mss(1) prio_bound [of m]]
  obtain l where l: "Push m (pqLevels pq ! prio m) = (l, True)"
      "pq' = pq\<lparr>pqLevels := (pqLevels pq)[prio m := l], pqSize := pqSize pq + 1\<rparr>"
    using assms(2) unfolding pq_Push_def pushInternal_Push by (auto simp: Let_def split: prod.splits bool.splits)
  have "ring_rep l (mss ! prio m @ [m])" using ring.push_last [OF lev(1) l(1)] .
  moreover have "\<forall>x \<in> set (mss ! prio m @ [m]). prio x = prio m"
    using mss(1) prio_bound [of m] by (auto simp: prio_levels_def)
  ultimately have "prio_levels pq' (mss[prio m := mss ! prio m @ [m]])"
    unfolding l(2) prio_levels_size by (rule prio_levels_update [OF mss(1) prio_bound])
  moreover have "length (prio_insert m ms) = Suc (length ms)" by (rule length_prio_insert)
  ultimately show ?thesis
    using prio_insert_levels [OF mss(1), of m] l(2) sz mss(2) by (auto simp: prio_rep_def)
qed

lemma prio_rep_sorted: "prio_rep pq ms \<Longrightarrow> sorted_wrt (\<lambda>x y. prio y \<le> prio x) ms"
proof -
  have "sorted_wrt (\<lambda>x y. prio y \<le> prio x) (concat (rev mss))"
    if "\<forall>i < length mss. \<forall>m \<in> set (mss ! i). prio m = i" for mss
    using that
  proof (induction mss rule: rev_induct)
    case (snoc l mss)
    have l: "prio m = length mss" if "m \<in> set l" for m using snoc.prems [rule_format, of "length mss" m] that by simp
    have rest: "\<forall>i < length mss. \<forall>m \<in> set (mss ! i). prio m = i" using snoc.prems by (auto simp: nth_append)
    then have "prio x < length mss" if "x \<in> set (concat (rev mss))" for x
      using that by (auto simp: in_set_conv_nth [of _ mss])
    moreover have "sorted_wrt (\<lambda>x y. prio y \<le> prio x) l" using l by (simp add: sorted_wrt_iff_nth_less)
    ultimately show ?case using snoc.IH [OF rest] l by (auto simp: sorted_wrt_append dest: less_imp_le)
  qed simp
  then show "prio_rep pq ms \<Longrightarrow> sorted_wrt (\<lambda>x y. prio y \<le> prio x) ms"
    by (auto simp: prio_rep_def prio_levels_def)
qed

lemma pop_levels_rep:
  assumes "prio_levels pq mss" and "n \<le> NumPriorityLevels" and "\<forall>i. n \<le> i \<longrightarrow> i < NumPriorityLevels \<longrightarrow> mss ! i = []"
    and "concat (rev mss) = m # ms"
  shows "\<exists>pq' mss'. pop_levels n pq = (pq', Some m) \<and> prio_levels pq' mss' \<and> concat (rev mss') = ms \<and>
      pqSize pq' = pqSize pq - 1"
  using assms(2,3)
proof (induction n)
  case 0
  then have "concat (rev mss) = []" using assms(1) by (auto simp: prio_levels_def in_set_conv_nth)
  then show ?case using assms(4) by simp
next
  case (Suc n)
  then have n: "n < NumPriorityLevels" "n < length mss" using assms(1) by (auto simp: prio_levels_def)
  note lev = prio_levels_nth [OF assms(1) n(1)]
  have sz: "sizeInternal (pqLevels pq ! n) = int (length (mss ! n))"
    using lev(1) by (simp add: sizeInternal_def ring_rep_def)
  show ?case
  proof (cases "mss ! n")
    case Nil
    then have "\<forall>i. n \<le> i \<longrightarrow> i < NumPriorityLevels \<longrightarrow> mss ! i = []" using Suc.prems(2) by (metis Suc_leI le_neq_implies_less)
    then show ?thesis using Suc.IH Suc.prems(1) Nil sz by simp
  next
    case (Cons x xs)
    then obtain l where l: "TryPop (pqLevels pq ! n) = (l, Some x)" "ring_rep l xs" using lev(1) TryPop_rep by fastforce
    have hi: "concat (rev (drop (Suc n) mss)) = []"
      using Suc.prems(2) assms(1) by (auto simp: in_set_conv_nth prio_levels_def)
    have "\<forall>y \<in> set xs. prio y = n" using assms(1) n(1) Cons by (auto simp: prio_levels_def)
    then have "prio_levels (pq\<lparr>pqLevels := (pqLevels pq)[n := l], pqSize := pqSize pq - 1\<rparr>) (mss[n := xs])"
      using prio_levels_update [OF assms(1) n(1) l(2)] by simp
    moreover have "x = m" "concat (rev (mss[n := xs])) = ms"
      using assms(4) hi Cons concat_rev_split [OF n(2)] by (simp_all add: concat_rev_update [OF n(2)])
    ultimately show ?thesis
      using l(1) sz Cons by (auto simp: tryPopInternal_TryPop)
  qed
qed

lemma pq_TryPop_rep:
  assumes "prio_rep pq (m # ms)"
  shows "\<exists>pq'. pq_TryPop pq = (pq', Some m) \<and> prio_rep pq' ms"
proof -
  obtain mss where mss: "prio_levels pq mss" "concat (rev mss) = m # ms" and sz: "pqSize pq = 1 + int (length ms)"
    using assms by (auto simp: prio_rep_def)
  from pop_levels_rep [OF mss(1) order.refl _ mss(2)] show ?thesis
    using sz by (auto simp: pq_TryPop_def popHighest_def prio_rep_def)
qed

lemma list_all2_sum_sizes:
  "list_all2 ring_rep ls mss \<Longrightarrow>
     sum_list (map (\<lambda>l. if sizeInternal l > 0 then sizeInternal l else 0) ls) = int (length (concat mss))"
  by (induction rule: list_all2_induct) (auto simp: sizeInternal_def ring_rep_def)

lemma list_all2_drain: "list_all2 ring_rep ls mss \<Longrightarrow> map Drain ls = mss"
  by (induction rule: list_all2_induct) (auto simp: Drain_rep)

lemma pq_Purge_rep:
  assumes "prio_rep pq ms"
  shows "snd (pq_Purge pq) = int (length ms) \<and> prio_rep (fst (pq_Purge pq)) []"
proof -
  obtain mss where mss: "prio_levels pq mss" "ms = concat (rev mss)" using assms by (auto simp: prio_rep_def)
  define clear where "clear l = (if sizeInternal l > 0 then fst (Purge l) else l)" for l
  have "ring_rep (clear l) []" if "ring_rep l xs" for l xs
    using that Purge_rep(2) [OF that] by (auto simp: clear_def sizeInternal_def ring_rep_def)
  then have "prio_levels (fst (pq_Purge pq)) (replicate NumPriorityLevels [])"
    using mss(1) unfolding prio_levels_def pq_Purge_def list_all2_conv_all_nth clear_def [symmetric]
    by simp metis
  moreover have "length (concat (rev mss)) = length (concat mss)" by (induction mss) auto
  then have "snd (pq_Purge pq) = int (length ms)"
    using list_all2_sum_sizes [of "pqLevels pq" mss] mss by (simp add: pq_Purge_def prio_levels_def)
  ultimately show ?thesis
    by (intro conjI) (auto simp: prio_rep_def pq_Purge_def intro!: exI [of _ "replicate NumPriorityLevels []"])
qed

lemma pq_HasMessage_rep:
  assumes "prio_rep pq ms"
  shows "pq_HasMessage i pq \<longleftrightarrow> (\<exists>m \<in> set ms. mID m = i)"
proof -
  have "list_ex (HasMessage i) ls \<longleftrightarrow> (\<exists>m \<in> set (concat mss). mID m = i)" if "list_all2 ring_rep ls mss" for ls mss
    using that by (induction rule: list_all2_induct) (auto simp: HasMessage_rep)
  then have "pq_HasMessage i pq \<longleftrightarrow> (\<exists>m \<in> set (concat mss). mID m = i)" if "prio_levels pq mss" for mss
    using that unfolding prio_levels_def pq_HasMessage_def by blast
  then show ?thesis using assms unfolding prio_rep_def by (metis set_concat set_rev)
qed

lemma NewPriority_rep: "capacity \<le> 2 ^ 32 \<Longrightarrow> prio_rep (NewPriority name capacity) []"
  unfolding prio_rep_def prio_levels_def
  by (auto simp: NewPriority_def list_all2_conv_all_nth New_rep intro!: exI [of _ "replicate NumPriorityLevels []"])

interpretation prio_queue: ranked_queue prio_rep pq_Push pq_TryPop pq_Drain pq_Size pq_HasMessage pq_Purge prio
proof
  fix q ms m q' assume r: "prio_rep q ms"
  show ins: "prio_rep q' (takeWhile (\<lambda>x. prio m \<le> prio x) ms @ m # dropWhile (\<lambda>x. prio m \<le> prio x) ms)"
    if "pq_Push m q = (q', True)"
    using pq_Push_rep [OF r that] by (simp add: prio_insert_def)
  show "\<exists>xs ys. ms = xs @ ys \<and> prio_rep q' (xs @ m # ys)" if "pq_Push m q = (q', True)"
    using ins [OF that] by (metis takeWhile_dropWhile_id)
  show "q' = q" if "pq_Push m q = (q', False)"
    using that by (auto simp: pq_Push_def Let_def split: prod.splits bool.splits)
  show "pq_Drain q = ms"
    using r by (auto simp: prio_rep_def prio_levels_def pq_Drain_def rev_map [symmetric] list_all2_drain)
  show "pq_Size q = int (length ms)" using r by (simp add: pq_Size_def prio_rep_def)
  show "sorted_wrt (\<lambda>x y. prio y \<le> prio x) ms" using r by (rule prio_rep_sorted)
next
  fix q assume "prio_rep q []"
  then show "pq_TryPop q = (q, None)" by (simp add: pq_TryPop_def prio_rep_def)
qed (simp_all add: pq_TryPop_rep pq_Purge_rep pq_HasMessage_rep)

subsection \<open>The bounded list the priority queue implements\<close>

definition prio_push :: "int \<Rightarrow> message \<Rightarrow> message list \<Rightarrow> message list \<times> bool" where
  "prio_push cap m ms =
     (if int (length (filter (\<lambda>x. prio x = prio m) ms)) < cap then (prio_insert m ms, True) else (ms, False))"

definition prio_state :: "int \<Rightarrow> priority_queue \<Rightarrow> message list \<Rightarrow> bool" where
  "prio_state cap pq ms \<longleftrightarrow> prio_rep pq ms \<and> (\<forall>l \<in> set (pqLevels pq). int (length (qBuf l)) = cap)"

lemma prio_level_filter:
  assumes "prio_levels pq mss" and "i < NumPriorityLevels"
  shows "filter (\<lambda>x. prio x = i) (concat (rev mss)) = mss ! i"
proof -
  have i: "i < length mss" using assms by (simp add: prio_levels_def)
  have lev: "x \<in> set (mss ! j) \<Longrightarrow> j < length mss \<Longrightarrow> prio x = j" for x j
    using assms by (simp add: prio_levels_def)
  have "filter (\<lambda>x. prio x = i) (concat (rev (drop (Suc i) mss))) = []"
    using lev i by (fastforce simp: filter_empty_conv in_set_conv_nth)
  moreover have "filter (\<lambda>x. prio x = i) (concat (rev (take i mss))) = []"
    using lev i by (fastforce simp: filter_empty_conv in_set_conv_nth)
  moreover have "filter (\<lambda>x. prio x = i) (mss ! i) = mss ! i" using lev [OF _ i] by simp
  ultimately show ?thesis using concat_rev_split [OF i] by simp
qed

lemma prio_step_push:
  assumes "prio_state cap pq ms"
  shows "snd (pq_Push m pq) = snd (prio_push cap m ms) \<and> prio_state cap (fst (pq_Push m pq)) (fst (prio_push cap m ms))"
proof -
  obtain mss where mss: "prio_levels pq mss" "ms = concat (rev mss)" and rep: "prio_rep pq ms"
    using assms by (auto simp: prio_state_def prio_rep_def)
  note lev = prio_levels_nth [OF mss(1) prio_bound [of m]]
  let ?l = "pqLevels pq ! prio m"
  have mem: "?l \<in> set (pqLevels pq)" using lev(2) prio_bound by (metis nth_mem)
  then have cap: "int (length (qBuf ?l)) = cap" using assms by (simp add: prio_state_def)
  have "int (length (filter (\<lambda>x. prio x = prio m) ms)) = int (length (mss ! prio m))"
    using prio_level_filter [OF mss(1) prio_bound] mss(2) by simp
  then have ok: "snd (pq_Push m pq) = snd (prio_push cap m ms)"
    using ring_step_push [OF lev(1) cap, of m] unfolding pq_Push_def pushInternal_Push prio_push_def fifo_push_def
    by (auto simp: Let_def split: prod.splits bool.splits if_splits)
  have keep: "\<forall>l \<in> set (pqLevels (fst (pq_Push m pq))). int (length (qBuf l)) = cap"
    using ring_step_push [OF lev(1) cap, of m] assms unfolding pq_Push_def pushInternal_Push prio_state_def
    by (auto simp: Let_def split: prod.splits bool.splits dest!: set_update_subset_insert [THEN subsetD])
  obtain pq' b where p: "pq_Push m pq = (pq', b)" by (cases "pq_Push m pq")
  have "prio_rep pq' (fst (prio_push cap m ms))"
  proof (cases b)
    case True
    then show ?thesis using pq_Push_rep [OF rep] p ok by (auto simp: prio_push_def)
  next
    case False
    then show ?thesis using prio_queue.push_full [OF rep] p ok rep by (auto simp: prio_push_def)
  qed
  then show ?thesis using ok keep p by (simp add: prio_state_def)
qed

lemma pop_levels_caps:
  "\<forall>l \<in> set (pqLevels pq). int (length (qBuf l)) = cap \<Longrightarrow> n \<le> length (pqLevels pq) \<Longrightarrow>
     \<forall>l \<in> set (pqLevels (fst (pop_levels n pq))). int (length (qBuf l)) = cap"
proof (induction n arbitrary: pq)
  case (Suc n)
  obtain l m where t: "tryPopInternal (pqLevels pq ! n) = (l, m)" by (cases "tryPopInternal (pqLevels pq ! n)")
  then have "length (qBuf l) = length (qBuf (pqLevels pq ! n))"
    by (auto simp: tryPopInternal_def Let_def split: if_splits)
  moreover have "pqLevels pq ! n \<in> set (pqLevels pq)" using Suc.prems(2) by simp
  ultimately have upd: "\<forall>l' \<in> set ((pqLevels pq)[n := l]). int (length (qBuf l')) = cap"
    using Suc.prems(1) by (auto dest!: set_update_subset_insert [THEN subsetD])
  show ?case
    using Suc.IH [of pq] Suc.IH [of "pq\<lparr>pqLevels := (pqLevels pq)[n := l]\<rparr>"] Suc.prems t upd
    by (cases m) simp_all
qed simp

lemma prio_step_pop:
  assumes "prio_state cap pq ms"
  shows "snd (pq_TryPop pq) = snd (fifo_pop ms) \<and> prio_state cap (fst (pq_TryPop pq)) (fst (fifo_pop ms))"
proof -
  have "length (pqLevels pq) = NumPriorityLevels"
    using assms by (auto simp: prio_state_def prio_rep_def prio_levels_def list_all2_lengthD)
  then have "\<forall>l \<in> set (pqLevels (fst (pq_TryPop pq))). int (length (qBuf l)) = cap"
    using assms pop_levels_caps [of pq cap NumPriorityLevels] by (simp add: pq_TryPop_def popHighest_def prio_state_def)
  then show ?thesis
    using assms prio_queue.pop_empty [of pq] pq_TryPop_rep [of pq]
    by (cases ms) (fastforce simp: prio_state_def fifo_pop_def)+
qed

lemma NewPriority_state:
  "capacity \<le> 2 ^ 32 \<Longrightarrow> prio_state (nextPowerOfTwo capacity) (NewPriority name capacity) []"
  using NewPriority_rep New_capacity by (auto simp: prio_state_def NewPriority_def)

lemma priority_queue_refines_facts:
  assumes "capacity \<le> 2 ^ 32" and "run_ops pq_Push pq_TryPop ops (NewPriority name capacity) = (pq, acc, del)"
  shows "run_ops (prio_push (nextPowerOfTwo capacity)) fifo_pop ops [] = (pq_Drain pq, acc, del)"
    and "filter (\<lambda>x. prio x = r) acc = filter (\<lambda>x. prio x = r) (del @ pq_Drain pq)"
    and "mset acc = mset del + mset (pq_Drain pq)"
    and "pq_TryPop pq = (pq', Some m) \<Longrightarrow> \<forall>x \<in> set (pq_Drain pq'). prio x \<le> prio m"
proof -
  obtain ms where ms: "run_ops (prio_push (nextPowerOfTwo capacity)) fifo_pop ops [] = (ms, acc, del)"
      "prio_state (nextPowerOfTwo capacity) pq ms"
    using run_ops_simulation [of "prio_state (nextPowerOfTwo capacity)" pq_Push "prio_push (nextPowerOfTwo capacity)"
        pq_TryPop fifo_pop, OF prio_step_push prio_step_pop NewPriority_state [OF assms(1)] assms(2)] by blast
  then have rep: "prio_rep pq ms" by (simp add: prio_state_def)
  note d = prio_queue.drain_all [OF rep]
  show "run_ops (prio_push (nextPowerOfTwo capacity)) fifo_pop ops [] = (pq_Drain pq, acc, del)" using ms(1) d by simp
  show "filter (\<lambda>x. prio x = r) acc = filter (\<lambda>x. prio x = r) (del @ pq_Drain pq)"
    using prio_queue.run_ranked [OF NewPriority_rep [OF assms(1)] assms(2), of r] by simp
  show "mset acc = mset del + mset (pq_Drain pq)"
    using prio_queue.run_conserves [OF NewPriority_rep [OF assms(1)] assms(2)] prio_queue.drain_all by auto
  show "\<forall>x \<in> set (pq_Drain pq'). prio x \<le> prio m" if "pq_TryPop pq = (pq', Some m)"
    by (rule prio_queue.pop_highest [OF rep that])
qed

text \<open>
  C7: Every sequence of pushes and pops on a new priority queue is answered as by a list into which a
  message is inserted behind all messages of at least its (clamped) priority and which is bounded
  for each priority by the rounded capacity. Messages of one priority are delivered in the order
  of acceptance, nothing is lost or delivered twice, and a delivered message has the highest
  priority of those waiting.
\<close>

theorem priority_queue_refines:
  assumes "capacity \<le> 2 ^ 32" and "run_ops pq_Push pq_TryPop ops (NewPriority name capacity) = (pq, acc, del)"
  shows "run_ops (prio_push (nextPowerOfTwo capacity)) fifo_pop ops [] = (pq_Drain pq, acc, del) \<and>
    filter (\<lambda>x. prio x = r) acc = filter (\<lambda>x. prio x = r) (del @ pq_Drain pq) \<and>
    mset acc = mset del + mset (pq_Drain pq) \<and>
    (pq_TryPop pq = (pq', Some m) \<longrightarrow> (\<forall>x \<in> set (pq_Drain pq'). prio x \<le> prio m))"
  by (assumption | rule priority_queue_refines_facts [OF assms] | rule impI | rule conjI)+

theorem priority_queue_refines_witness:
  "\<exists>pq. run_ops pq_Push pq_TryPop
      [OpPush (NewMessage ''a'' 0 ''t'' [] []), OpPush ((NewMessage ''b'' 0 ''t'' [] [])\<lparr>mPriority := 12\<rparr>), OpPop]
      (NewPriority ''q'' 1) =
      (pq, [NewMessage ''a'' 0 ''t'' [] [], (NewMessage ''b'' 0 ''t'' [] [])\<lparr>mPriority := 12\<rparr>],
       [(NewMessage ''b'' 0 ''t'' [] [])\<lparr>mPriority := 12\<rparr>])"
proof -
  let ?a = "NewMessage ''a'' 0 ''t'' [] []" and ?b = "(NewMessage ''b'' 0 ''t'' [] [])\<lparr>mPriority := 12\<rparr>"
  let ?r = "run_ops pq_Push pq_TryPop [OpPush ?a, OpPush ?b, OpPop] (NewPriority ''q'' 1)"
  obtain q acc del where r: "?r = (q, acc, del)" by (cases ?r) auto
  have "nextPowerOfTwo 1 = 1" by code_simp
  moreover have "prio ?a = 0" "prio ?b = 9" by (simp_all add: NewMessage_def clampPriority_def NumPriorityLevels_def)
  ultimately show ?thesis
    using priority_queue_refines [THEN conjunct1, OF _ r] r by (auto simp: prio_push_def prio_insert_def fifo_pop_def)
qed

end
