(* ===== verification/Exchange.thy ===== *)
theory Exchange
  imports Message_Queue
begin

section \<open>Exchanges\<close>

text \<open>
  \<open>internal/broker/exchange.go\<close>: the four kinds of exchange, the wildcard match of topic
  patterns, the match of headers, routing to the bound queues, and bindings. The meaning of a
  pattern is given by an inductive predicate on words; the index loop of the source is shown to
  decide it through a locale that the access rules share.
\<close>

subsection \<open>State\<close>

definition ExchangeDirect :: string where "ExchangeDirect = ''direct''"
definition ExchangeFanout :: string where "ExchangeFanout = ''fanout''"
definition ExchangeTopic :: string where "ExchangeTopic = ''topic''"
definition ExchangeHeaders :: string where "ExchangeHeaders = ''headers''"

record binding =
  bExchange :: string
  bQueue :: string
  bBindingKey :: string
  bHeaders :: "(string \<times> string) list"
  bMatchAll :: bool

record exchange =
  exName :: string
  exType :: string
  exDurable :: bool
  exBindings :: "binding list"

subsection \<open>Topic patterns\<close>

text \<open>
  The loop of \<open>matchParts\<close> with its two indices. The inner loop over the words a \<open>#\<close> may swallow
  returns at the first success, which is an existence test over its range.
\<close>

function matchParts :: "string list \<Rightarrow> nat \<Rightarrow> string list \<Rightarrow> nat \<Rightarrow> bool" where
  "matchParts rParts ri pParts pi =
     (if pi < length pParts then
        if pParts ! pi = ''#'' then
          if pi = length pParts - 1 then True
          else list_ex (\<lambda>i. matchParts rParts i pParts (pi + 1)) [ri..<length rParts + 1]
        else if ri \<ge> length rParts then False
        else if pParts ! pi \<noteq> ''*'' \<and> pParts ! pi \<noteq> rParts ! ri then False
        else matchParts rParts (ri + 1) pParts (pi + 1)
      else ri = length rParts)"
  by pat_completeness auto
termination
  by (relation "measure (\<lambda>(rParts, ri, pParts, pi). length pParts - pi)") auto

declare matchParts.simps [simp del]

definition topicMatch :: "string \<Rightarrow> string \<Rightarrow> bool" where
  "topicMatch routingKey pattern =
     matchParts (split_on (CHR ''.'') routingKey) 0 (split_on (CHR ''.'') pattern) 0"

text \<open>A Go map read of a missing key yields the empty string.\<close>

definition map_get :: "(string \<times> string) list \<Rightarrow> string \<Rightarrow> string" where
  "map_get m k = (case map_of m k of None \<Rightarrow> [] | Some v \<Rightarrow> v)"

definition headersMatch :: "(string \<times> string) list \<Rightarrow> (string \<times> string) list \<Rightarrow> bool \<Rightarrow> bool" where
  "headersMatch msgHeaders bindingHeaders matchAll =
     (if length bindingHeaders = 0 then True
      else if matchAll then \<not> list_ex (\<lambda>(k, v). map_get msgHeaders k \<noteq> v) bindingHeaders
      else list_ex (\<lambda>(k, v). map_get msgHeaders k = v) bindingHeaders)"

subsection \<open>Routing and bindings\<close>

definition binding_matched :: "string \<Rightarrow> string \<Rightarrow> (string \<times> string) list \<Rightarrow> binding \<Rightarrow> bool" where
  "binding_matched typ routingKey headers b =
     (if typ = ExchangeDirect then bBindingKey b = routingKey
      else if typ = ExchangeFanout then True
      else if typ = ExchangeTopic then topicMatch routingKey (bBindingKey b)
      else if typ = ExchangeHeaders then headersMatch headers (bHeaders b) (bMatchAll b)
      else False)"

definition route_step ::
  "string \<Rightarrow> string \<Rightarrow> (string \<times> string) list \<Rightarrow> binding \<Rightarrow> string list \<times> string list \<Rightarrow> string list \<times> string list" where
  "route_step typ routingKey headers b acc =
     (case acc of (seen, queues) \<Rightarrow>
        if bQueue b \<in> set seen then (seen, queues)
        else if binding_matched typ routingKey headers b then (bQueue b # seen, queues @ [bQueue b])
        else (seen, queues))"

definition route :: "exchange \<Rightarrow> string \<Rightarrow> (string \<times> string) list \<Rightarrow> string list" where
  "route e routingKey headers =
     snd (fold (route_step (exType e) routingKey headers) (exBindings e) ([], []))"

definition Route :: "exchange \<Rightarrow> string \<Rightarrow> (string \<times> string) list \<Rightarrow> string list" where
  "Route e routingKey headers = route e routingKey headers"

definition same_binding :: "string \<Rightarrow> string \<Rightarrow> binding \<Rightarrow> bool" where
  "same_binding queue bindingKey b \<longleftrightarrow> bQueue b = queue \<and> bBindingKey b = bindingKey"

text \<open>Replacement and removal of the first binding for a queue and a key.\<close>

fun replace_first :: "('a \<Rightarrow> bool) \<Rightarrow> 'a \<Rightarrow> 'a list \<Rightarrow> 'a list" where
  "replace_first P y [] = [y]"
| "replace_first P y (x # xs) = (if P x then y # xs else x # replace_first P y xs)"

fun remove_first :: "('a \<Rightarrow> bool) \<Rightarrow> 'a list \<Rightarrow> 'a list" where
  "remove_first P [] = []"
| "remove_first P (x # xs) = (if P x then xs else x # remove_first P xs)"

definition Bind :: "binding \<Rightarrow> exchange \<Rightarrow> exchange" where
  "Bind b e = e\<lparr>exBindings := replace_first (same_binding (bQueue b) (bBindingKey b)) b (exBindings e)\<rparr>"

definition Unbind :: "string \<Rightarrow> string \<Rightarrow> exchange \<Rightarrow> exchange" where
  "Unbind queue bindingKey e = e\<lparr>exBindings := remove_first (same_binding queue bindingKey) (exBindings e)\<rparr>"

subsection \<open>What a pattern means\<close>

inductive topic_glob :: "string list \<Rightarrow> string list \<Rightarrow> bool" where
  glob_end: "topic_glob [] []"
| glob_star: "topic_glob ps ws \<Longrightarrow> topic_glob (''*'' # ps) (w # ws)"
| glob_hash: "topic_glob ps ws \<Longrightarrow> topic_glob (''#'' # ps) (us @ ws)"
| glob_word: "w \<noteq> ''#'' \<Longrightarrow> topic_glob ps ws \<Longrightarrow> topic_glob (w # ps) (w # ws)"

inductive_cases topic_glob_NilE: "topic_glob [] ws"
inductive_cases topic_glob_ConsE: "topic_glob (p # ps) ws"

lemma glob_Nil_iff [simp]: "topic_glob [] ws \<longleftrightarrow> ws = []"
  by (auto elim: topic_glob_NilE intro: topic_glob.intros)

lemma glob_hash_iff: "topic_glob (''#'' # ps) ws \<longleftrightarrow> (\<exists>n \<le> length ws. topic_glob ps (drop n ws))"
proof
  assume "topic_glob (''#'' # ps) ws"
  then show "\<exists>n \<le> length ws. topic_glob ps (drop n ws)"
  proof (rule topic_glob_ConsE)
    fix ws' us assume "ws = us @ ws'" "topic_glob ps ws'"
    then show ?thesis by (intro exI [of _ "length us"]) simp
  qed auto
next
  assume "\<exists>n \<le> length ws. topic_glob ps (drop n ws)"
  then obtain n where "topic_glob ps (drop n ws)" by blast
  from glob_hash [OF this, of "take n ws"] show "topic_glob (''#'' # ps) ws" by simp
qed

lemma glob_word_iff:
  "p \<noteq> ''#'' \<Longrightarrow> topic_glob (p # ps) ws \<longleftrightarrow> (\<exists>w ws'. ws = w # ws' \<and> (p = ''*'' \<or> p = w) \<and> topic_glob ps ws')"
  by (auto elim: topic_glob_ConsE intro: topic_glob.intros)

lemma glob_hash_drop:
  assumes "ti \<le> length t"
  shows "topic_glob (''#'' # ps) (drop ti t) \<longleftrightarrow> (\<exists>i. ti \<le> i \<and> i \<le> length t \<and> topic_glob ps (drop i t))"
proof
  assume "topic_glob (''#'' # ps) (drop ti t)"
  then obtain n where "n \<le> length t - ti" "topic_glob ps (drop (n + ti) t)" by (auto simp: glob_hash_iff)
  then show "\<exists>i. ti \<le> i \<and> i \<le> length t \<and> topic_glob ps (drop i t)"
    using assms by (intro exI [of _ "n + ti"]) auto
next
  assume "\<exists>i. ti \<le> i \<and> i \<le> length t \<and> topic_glob ps (drop i t)"
  then obtain i where "ti \<le> i" "i \<le> length t" "topic_glob ps (drop i t)" by blast
  then show "topic_glob (''#'' # ps) (drop ti t)"
    unfolding glob_hash_iff by (intro exI [of _ "i - ti"]) simp
qed

lemma glob_hash_end [simp]: "topic_glob [''#''] ws"
  by (auto simp: glob_hash_iff)

text \<open>
  Two copies of the matching loop exist in the source, one for exchanges and one for access
  rules. The locale fixes the loop by its unfolding, and what it computes is proved once.
\<close>

locale topic_matcher =
  fixes matcher :: "string list \<Rightarrow> nat \<Rightarrow> string list \<Rightarrow> nat \<Rightarrow> bool"
  assumes unfold_matcher:
    "matcher t ti p pi =
       (if pi < length p then
          if p ! pi = ''#'' then
            if pi = length p - 1 then True else (\<exists>i. ti \<le> i \<and> i \<le> length t \<and> matcher t i p (pi + 1))
          else if ti \<ge> length t then False
          else if p ! pi \<noteq> ''*'' \<and> p ! pi \<noteq> t ! ti then False
          else matcher t (ti + 1) p (pi + 1)
        else ti = length t)"
begin

lemma matcher_glob: "pi \<le> length p \<Longrightarrow> ti \<le> length t \<Longrightarrow> matcher t ti p pi \<longleftrightarrow> topic_glob (drop pi p) (drop ti t)"
proof (induction "length p - pi" arbitrary: pi ti)
  case 0
  then show ?case using unfold_matcher [of t ti p pi] by (auto simp: eq_commute [of ti])
next
  case (Suc n)
  then have pi: "pi < length p" "n = length p - (pi + 1)" "pi + 1 \<le> length p" by simp_all
  note IH = Suc.hyps(1) [OF pi(2,3)]
  have dp: "drop pi p = p ! pi # drop (pi + 1) p" using pi(1) by (simp add: Cons_nth_drop_Suc)
  show ?case
  proof (cases "p ! pi = ''#''")
    case True
    have star: "topic_glob (drop pi p) (drop ti t) \<longleftrightarrow>
        (\<exists>i. ti \<le> i \<and> i \<le> length t \<and> topic_glob (drop (pi + 1) p) (drop i t))"
      unfolding dp True by (rule glob_hash_drop [OF Suc.prems(2)])
    show ?thesis
    proof (cases "pi = length p - 1")
      case end_: True
      then have "drop pi p = [''#'']" using dp True by simp
      then show ?thesis using True pi(1) end_ unfold_matcher [of t ti p pi] by simp
    next
      case False
      have "matcher t ti p pi \<longleftrightarrow> (\<exists>i. ti \<le> i \<and> i \<le> length t \<and> matcher t i p (pi + 1))"
        using True pi(1) False unfold_matcher [of t ti p pi] by simp
      then show ?thesis unfolding star using IH by blast
    qed
  next
    case False
    show ?thesis
    proof (cases "ti < length t")
      case True
      then have "drop ti t = t ! ti # drop (ti + 1) t" by (simp add: Cons_nth_drop_Suc)
      then show ?thesis
        using False True pi(1) IH [of "ti + 1"] unfold_matcher [of t ti p pi] unfolding dp glob_word_iff [OF False]
        by auto
    next
      case ge: False
      then show ?thesis
        using False pi(1) unfold_matcher [of t ti p pi] unfolding dp glob_word_iff [OF False] by auto
    qed
  qed
qed

lemma matcher_from_start: "matcher t 0 p 0 \<longleftrightarrow> topic_glob p t"
  using matcher_glob [of 0 p 0 t] by simp

end

interpretation exchange_topics: topic_matcher matchParts
proof
  fix t ti p pi
  show "matchParts t ti p pi =
       (if pi < length p then
          if p ! pi = ''#'' then
            if pi = length p - 1 then True else (\<exists>i. ti \<le> i \<and> i \<le> length t \<and> matchParts t i p (pi + 1))
          else if ti \<ge> length t then False
          else if p ! pi \<noteq> ''*'' \<and> p ! pi \<noteq> t ! ti then False
          else matchParts t (ti + 1) p (pi + 1)
        else ti = length t)"
    by (subst matchParts.simps) (auto simp: list_ex_iff Bex_def less_Suc_eq_le simp del: upt_Suc)
qed

text \<open>
  C26: The wildcard loop of a topic exchange decides exactly the documented meaning: the words of the
  pattern match the words of the key one by one, a star matches one word and a hash any number.
\<close>

theorem topicMatch_iff_glob:
  "topicMatch routingKey pattern \<longleftrightarrow> topic_glob (split_on (CHR ''.'') pattern) (split_on (CHR ''.'') routingKey)"
  unfolding topicMatch_def by (rule exchange_topics.matcher_from_start)

subsection \<open>Routing\<close>

definition matched_queues :: "exchange \<Rightarrow> string \<Rightarrow> (string \<times> string) list \<Rightarrow> string list" where
  "matched_queues e routingKey headers =
     map bQueue (filter (binding_matched (exType e) routingKey headers) (exBindings e))"

lemma remdups_snoc: "remdups (xs @ [x]) = filter (\<lambda>y. y \<noteq> x) (remdups xs) @ [x]"
  by (induction xs) auto

text \<open>The elements of a list without repetitions, in the order of their first occurrence.\<close>

definition first_only :: "'a list \<Rightarrow> 'a list" where
  "first_only xs = rev (remdups (rev xs))"

lemma first_only_simps [simp]:
  "first_only [] = []" "first_only (x # xs) = x # filter (\<lambda>y. y \<noteq> x) (first_only xs)"
  by (simp_all add: first_only_def remdups_snoc rev_filter)

lemma set_first_only [simp]: "set (first_only xs) = set xs" "distinct (first_only xs)"
  by (simp_all add: first_only_def)

lemma route_fold:
  "set seen = set queues \<Longrightarrow>
   snd (fold (route_step typ rk hs) bs (seen, queues)) =
     queues @ filter (\<lambda>q. q \<notin> set queues) (first_only (map bQueue (filter (binding_matched typ rk hs) bs)))"
proof (induction bs arbitrary: seen queues)
  case (Cons b bs)
  let ?q = "bQueue b" and ?r = "first_only (map bQueue (filter (binding_matched typ rk hs) bs))"
  consider (old) "?q \<in> set queues" | (skip) "?q \<notin> set queues" "\<not> binding_matched typ rk hs b"
    | (hit) "?q \<notin> set queues" "binding_matched typ rk hs b" by blast
  then show ?case
  proof cases
    case old
    then have "filter (\<lambda>q. q \<notin> set queues) (filter (\<lambda>y. y \<noteq> ?q) ?r) = filter (\<lambda>q. q \<notin> set queues) ?r"
      unfolding filter_filter by (intro filter_cong) auto
    then show ?thesis using old Cons.IH [OF Cons.prems] Cons.prems by (simp add: route_step_def)
  next
    case skip
    then show ?thesis using Cons.IH [OF Cons.prems] Cons.prems by (simp add: route_step_def)
  next
    case hit
    have "set (?q # seen) = set (queues @ [?q])" using Cons.prems by simp
    from Cons.IH [OF this] show ?thesis using hit Cons.prems by (simp add: route_step_def conj_commute)
  qed
qed simp

text \<open>
  C24: A routed message goes to the queues of the matching bindings, each once, in the order of the
  first matching binding.
\<close>

theorem route_exact:
  "route e routingKey headers = first_only (matched_queues e routingKey headers) \<and>
   distinct (route e routingKey headers) \<and>
   (q \<in> set (route e routingKey headers) \<longleftrightarrow>
     (\<exists>b. b \<in> set (exBindings e) \<and> bQueue b = q \<and> binding_matched (exType e) routingKey headers b))"
  by (auto simp: route_def route_fold matched_queues_def)

subsection \<open>Bindings\<close>

lemma replace_first_image: "f ` set (replace_first (\<lambda>x. f x = f y) y xs) = insert (f y) (f ` set xs)"
  by (induction xs) auto

lemma replace_first_keys: "distinct (map f xs) \<Longrightarrow> distinct (map f (replace_first (\<lambda>x. f x = f y) y xs))"
  by (induction xs) (auto simp: replace_first_image)

lemma remove_first_subset: "set (remove_first P xs) \<subseteq> set xs"
  by (induction xs) auto

lemma remove_first_keys: "distinct (map f xs) \<Longrightarrow> distinct (map f (remove_first P xs))"
proof (induction xs)
  case (Cons x xs)
  then show ?case using image_mono [OF remove_first_subset, of f P xs] by auto
qed simp

lemma remove_first_distinct: "distinct (map f xs) \<Longrightarrow> remove_first (\<lambda>x. f x = k) xs = filter (\<lambda>x. f x \<noteq> k) xs"
proof (induction xs)
  case (Cons x xs)
  have "filter (\<lambda>y. f y \<noteq> f x) xs = xs" using Cons.prems by (intro filter_True) (auto simp: image_iff)
  then show ?case using Cons by auto
qed simp

definition binding_keys :: "exchange \<Rightarrow> (string \<times> string) list" where
  "binding_keys e = map (\<lambda>b. (bQueue b, bBindingKey b)) (exBindings e)"

text \<open>
  \<open>Bind\<close> keeps one binding for each queue and key, and then \<open>Unbind\<close> removes the binding: no
  binding for the queue and the key is left and every other binding is still there.
\<close>

theorem Bind_Unbind:
  assumes "distinct (binding_keys e)"
  shows "distinct (binding_keys (Bind b e))" and "distinct (binding_keys (Unbind q k e))"
    and "b \<in> set (exBindings (Bind b e))"
    and "exBindings (Unbind q k e) = filter (\<lambda>b. \<not> same_binding q k b) (exBindings e)"
    and "Bind b (Bind b e) = Bind b e"
proof -
  let ?key = "\<lambda>b. (bQueue b, bBindingKey b)"
  have same: "same_binding q k = (\<lambda>x. ?key x = (q, k))" for q k by (auto simp: same_binding_def)
  show "distinct (binding_keys (Bind b e))"
    using replace_first_keys [of ?key "exBindings e" b] assms
    by (simp add: Bind_def binding_keys_def same)
  show "distinct (binding_keys (Unbind q k e))"
    using remove_first_keys [of ?key "exBindings e"] assms by (simp add: Unbind_def binding_keys_def)
  have "y \<in> set (replace_first P y xs)" for P and y :: binding and xs by (induction xs) auto
  then show "b \<in> set (exBindings (Bind b e))" by (simp add: Bind_def)
  show "exBindings (Unbind q k e) = filter (\<lambda>b. \<not> same_binding q k b) (exBindings e)"
    using remove_first_distinct [of ?key "exBindings e" "(q, k)"] assms
    by (simp add: Unbind_def binding_keys_def same)
  have "replace_first P y (replace_first P y xs) = replace_first P y xs" if "P y" for P and y :: binding and xs
    using that by (induction xs) auto
  then show "Bind b (Bind b e) = Bind b e" by (simp add: Bind_def same_binding_def)
qed


theorem Bind_Unbind_witness:
  "exBindings (Unbind ''q'' ''k'' (Bind \<lparr>bExchange = ''e'', bQueue = ''q'', bBindingKey = ''k'', bHeaders = [], bMatchAll = True\<rparr>
     \<lparr>exName = ''e'', exType = ExchangeDirect, exDurable = True, exBindings = []\<rparr>)) = []"
proof -
  let ?b = "\<lparr>bExchange = ''e'', bQueue = ''q'', bBindingKey = ''k'', bHeaders = [], bMatchAll = True\<rparr>"
  let ?e = "\<lparr>exName = ''e'', exType = ExchangeDirect, exDurable = True, exBindings = []\<rparr>"
  have "distinct (binding_keys ?e)" by (simp add: binding_keys_def)
  from Bind_Unbind(4) [OF Bind_Unbind(1) [OF this, of ?b], of "''q''" "''k''"] show ?thesis
    by (simp add: Bind_def same_binding_def)
qed

text \<open>
  The value of a header the message does not carry is read as the empty string: a binding that
  asks for a header with an empty value matches a message without the header.
\<close>

lemma empty_header_value_matches_absent: "headersMatch [] [(k, [])] True"
  by (simp add: headersMatch_def map_get_def)

end
