(* ===== verification/Checksum.thy ===== *)
theory Checksum
  imports BoltQ_Prelude
begin

unbundle bit_operations_syntax

section \<open>Checksums and hashes of the standard library\<close>

text \<open>
  \<open>hash/crc32\<close> (the IEEE polynomial, reflected) and \<open>hash/fnv\<close> (FNV-1a, 64 bits) as the
  source uses them. The record log, the cursor log and the write-ahead log guard each entry
  with the CRC; the topic router hashes keys with FNV.

  The lemma that matters to the logs is \<open>crc32_detects_one_byte\<close>: two inputs that differ in
  exactly one byte have different checksums.
\<close>

definition crc_bit :: "u32 \<Rightarrow> u32" where
  "crc_bit c = (if bit c 0 then drop_bit 1 c XOR 0xEDB88320 else drop_bit 1 c)"

definition crc_byte :: "u32 \<Rightarrow> byte \<Rightarrow> u32" where
  "crc_byte c b = (crc_bit ^^ 8) (c XOR ucast b)"

definition crc32 :: "bytes \<Rightarrow> u32" where
  "crc32 bs = foldl crc_byte 0xFFFFFFFF bs XOR 0xFFFFFFFF"

definition fnv64a :: "bytes \<Rightarrow> u64" where
  "fnv64a bs = foldl (\<lambda>h b. (h XOR ucast b) * 1099511628211) 14695981039346656037 bs"

text \<open>Evaluation of a checksum by the simplifier, bit by bit.\<close>

lemma funpow_8: "(f ^^ 8) x = f (f (f (f (f (f (f (f x)))))))"
  by (simp add: numeral_eq_Suc)

lemmas crc_eval =
  crc32_def crc_byte_def funpow_8 crc_bit_def [of 0] crc_bit_def [of 1] crc_bit_def [of "numeral n" for n]

text \<open>The check value of the CRC-32/IEEE specification, for the digits 1 to 9.\<close>

lemma crc32_check_value: "crc32 [0x31, 0x32, 0x33, 0x34, 0x35, 0x36, 0x37, 0x38, 0x39] = 0xCBF43926"
  by (simp add: crc_eval)

subsection \<open>The CRC detects every one-byte change\<close>

lemma bit_crc_bit_31: "bit (crc_bit c) 31 \<longleftrightarrow> bit c 0"
proof -
  have "\<not> bit (drop_bit 1 c) 31" by (auto simp: bit_drop_bit_eq dest: bit_imp_le_length)
  moreover have "bit (0xEDB88320 :: u32) 31" by simp
  ultimately show ?thesis by (simp add: crc_bit_def bit_xor_iff)
qed

lemma drop_bit_1_inject:
  assumes "drop_bit 1 c = drop_bit 1 (d :: u32)" and "bit c 0 = bit d 0"
  shows "c = d"
proof (rule bit_word_eqI)
  fix n show "bit c n = bit d n"
  proof (cases n)
    case 0
    then show ?thesis using assms(2) by simp
  next
    case (Suc m)
    have "bit (drop_bit 1 c) m = bit (drop_bit 1 d) m" using assms(1) by simp
    then show ?thesis by (simp add: Suc bit_drop_bit_eq)
  qed
qed

lemma inj_crc_bit: "inj crc_bit"
proof (rule injI)
  fix c d assume eq: "crc_bit c = crc_bit d"
  then have b: "bit c 0 = bit d 0" by (metis bit_crc_bit_31)
  have "drop_bit 1 c = drop_bit 1 d"
  proof (cases "bit c 0")
    case True
    with b eq have "drop_bit 1 c XOR 0xEDB88320 = drop_bit 1 d XOR 0xEDB88320"
      by (simp add: crc_bit_def)
    then have "(drop_bit 1 c XOR 0xEDB88320) XOR 0xEDB88320 = (drop_bit 1 d XOR 0xEDB88320) XOR (0xEDB88320 :: u32)"
      by (rule arg_cong)
    then show ?thesis by (simp add: xor.assoc)
  next
    case False
    with b eq show ?thesis by (simp add: crc_bit_def)
  qed
  then show "c = d" using b by (rule drop_bit_1_inject)
qed

lemma crc_byte_inject_state: "crc_byte c b = crc_byte d b \<Longrightarrow> c = d"
proof -
  assume "crc_byte c b = crc_byte d b"
  then have "c XOR ucast b = d XOR ucast b"
    unfolding crc_byte_def using inj_fn [OF inj_crc_bit] by (auto dest: injD)
  then have "(c XOR ucast b) XOR ucast b = (d XOR ucast b) XOR ucast b" by (rule arg_cong)
  then show "c = d" by (simp add: xor.assoc)
qed

lemma crc_byte_inject_byte: "crc_byte c a = crc_byte c b \<Longrightarrow> a = b"
proof -
  assume "crc_byte c a = crc_byte c b"
  then have "c XOR ucast a = c XOR ucast b"
    unfolding crc_byte_def using inj_fn [OF inj_crc_bit] by (auto dest: injD)
  then have "c XOR (c XOR ucast a) = c XOR (c XOR ucast b)" by (rule arg_cong)
  then have "(ucast a :: u32) = ucast b" by (simp flip: xor.assoc)
  then have "(ucast (ucast a :: u32) :: byte) = ucast (ucast b :: u32)" by (rule arg_cong)
  moreover have "(ucast (ucast x :: u32) :: byte) = x" for x :: byte by transfer simp
  ultimately show "a = b" by metis
qed

lemma foldl_crc_inject_state: "foldl crc_byte c bs = foldl crc_byte d bs \<Longrightarrow> c = d"
  by (induction bs arbitrary: c d) (auto dest: crc_byte_inject_state)

lemma crc32_detects_one_byte:
  assumes "a \<noteq> b"
  shows "crc32 (xs @ a # ys) \<noteq> crc32 (xs @ b # ys)"
proof
  assume eq: "crc32 (xs @ a # ys) = crc32 (xs @ b # ys)"
  let ?s = "foldl crc_byte 0xFFFFFFFF xs"
  from eq have "(foldl crc_byte (crc_byte ?s a) ys XOR 0xFFFFFFFF) XOR 0xFFFFFFFF =
      (foldl crc_byte (crc_byte ?s b) ys XOR 0xFFFFFFFF) XOR 0xFFFFFFFF"
    by (simp add: crc32_def)
  then have "foldl crc_byte (crc_byte ?s a) ys = foldl crc_byte (crc_byte ?s b) ys"
    by (simp only: xor.assoc xor_self_eq xor.right_neutral)
  then have "crc_byte ?s a = crc_byte ?s b" by (rule foldl_crc_inject_state)
  then have "a = b" by (rule crc_byte_inject_byte)
  with assms show False ..
qed

end
