(* ===== verification/Wal.thy ===== *)
theory Wal
  imports Message_Queue Checksum
begin

section \<open>The write-ahead log and the storage\<close>

text \<open>
  \<open>internal/wal/wal.go\<close>, the disk and memory implementations of \<open>internal/storage\<close>, and the
  recovery scan of \<open>cmd/server/main.go\<close>. A record is framed by its length and the checksum of its
  type and data. The lemmas show that a crash at any byte loses whole records from the end only,
  that recovery finds exactly the messages published and not acknowledged, that both storages
  keep the contract the broker relies on, and that compaction is not atomic.
\<close>

text \<open>
  \<open>json.Marshal\<close> and \<open>json.Unmarshal\<close> on a message: the codec is an argument of the definitions
  that store messages; the lemmas assume of it only that a stored message decodes to itself.
\<close>

record codec =
  cEncode :: "message \<Rightarrow> bytes option"
  cDecode :: "bytes \<Rightarrow> message option"

definition codec_faithful :: "('a codec_scheme) \<Rightarrow> message \<Rightarrow> bool" where
  "codec_faithful js m \<longleftrightarrow> (\<exists>d. cEncode js m = Some d \<and> length d < 2 ^ 32 - 1 \<and> cDecode js d = Some m)"

subsection \<open>State and operations\<close>

definition RecordPublish :: byte where "RecordPublish = 1"
definition RecordAck :: byte where "RecordAck = 2"

record WALRecord =
  wrType :: byte
  wrMessage :: "message option"
  wrMsgID :: string
  wrMetadata :: bytes

definition headerSize :: nat where "headerSize = 8"

text \<open>
  The file and the error a \<open>bufio.Writer\<close> keeps: after a failed flush every later write and flush
  of it returns the same error.
\<close>

record wal =
  walFile :: bytes
  walErr :: bool

datatype wal_error = WalEncode | WalWrite | WalFlush | WalOpen | WalTruncate | WalSync

text \<open>How far a write got: a failed one leaves some prefix of its bytes in the file.\<close>

datatype write_outcome = WriteOk | WriteFails nat

definition wal_New :: "bytes \<Rightarrow> wal" where
  "wal_New contents = \<lparr>walFile = contents, walErr = False\<rparr>"

definition record_frame :: "byte \<Rightarrow> bytes \<Rightarrow> bytes" where
  "record_frame typ data = put32 (of_nat (1 + length data)) @ put32 (crc32 (typ # data)) @ typ # data"

definition writeRecord :: "write_outcome \<Rightarrow> byte \<Rightarrow> bytes \<Rightarrow> wal \<Rightarrow> wal \<times> (wal_error + nat)" where
  "writeRecord out typ data w =
     (if walErr w then (w, Inl WalWrite)
      else case out of
             WriteOk \<Rightarrow> (w\<lparr>walFile := walFile w @ record_frame typ data\<rparr>, Inr (headerSize + (1 + length data)))
           | WriteFails k \<Rightarrow>
               (w\<lparr>walFile := walFile w @ take k (record_frame typ data), walErr := True\<rparr>, Inl WalWrite))"

definition wal_Write :: "('a codec_scheme) \<Rightarrow> write_outcome \<Rightarrow> message \<Rightarrow> wal \<Rightarrow> wal \<times> (wal_error + nat)" where
  "wal_Write js out msg w =
     (case cEncode js msg of None \<Rightarrow> (w, Inl WalEncode) | Some data \<Rightarrow> writeRecord out RecordPublish data w)"

definition WriteAck :: "write_outcome \<Rightarrow> string \<Rightarrow> wal \<Rightarrow> wal \<times> (wal_error + nat)" where
  "WriteAck out msgID w = writeRecord out RecordAck (str_bytes msgID) w"

definition WriteMetadata :: "write_outcome \<Rightarrow> byte \<Rightarrow> bytes \<Rightarrow> wal \<Rightarrow> wal \<times> (wal_error + nat)" where
  "WriteMetadata out recordType data w = writeRecord out recordType data w"

text \<open>The record a frame with type \<open>typ\<close> and body \<open>data\<close> adds to the result.\<close>

definition wal_record :: "('a codec_scheme) \<Rightarrow> byte \<Rightarrow> bytes \<Rightarrow> WALRecord list" where
  "wal_record js typ data =
     (if typ = RecordPublish then
        case cDecode js data of
          None \<Rightarrow> []
        | Some msg \<Rightarrow> [\<lparr>wrType = typ, wrMessage = Some msg, wrMsgID = [], wrMetadata = []\<rparr>]
      else if typ = RecordAck then [\<lparr>wrType = typ, wrMessage = None, wrMsgID = bytes_str data, wrMetadata = []\<rparr>]
      else [\<lparr>wrType = typ, wrMessage = None, wrMsgID = [], wrMetadata = data\<rparr>])"

text \<open>
  The read loop. It ends at the end of the file, at a header, a type or a body that is cut off, at
  a length of zero and at the first checksum that does not match.
\<close>

function read_records :: "('a codec_scheme) \<Rightarrow> bytes \<Rightarrow> WALRecord list" where
  "read_records js bs =
     (if length bs < headerSize then []
      else
        let totalLen = unat (get32 bs); checksum = get32 (drop 4 bs); rest = drop headerSize bs in
        if totalLen < 1 then []
        else if length rest < totalLen then []
        else
          let typ = hd rest; data = take (totalLen - 1) (tl rest) in
          if crc32 (typ # data) \<noteq> checksum then []
          else wal_record js typ data @ read_records js (drop totalLen rest))"
  by pat_completeness auto
termination
  by (relation "measure (\<lambda>(js, bs). length bs)") (auto simp: headerSize_def)

declare read_records.simps [simp del]

definition ReadAllRecords :: "('a codec_scheme) \<Rightarrow> io \<Rightarrow> wal \<Rightarrow> wal_error + WALRecord list" where
  "ReadAllRecords js io w =
     (if walErr w then Inl WalFlush
      else if \<not> io ''open wal for read'' then Inl WalOpen
      else Inr (read_records js (walFile w)))"

definition ReadAll :: "('a codec_scheme) \<Rightarrow> io \<Rightarrow> wal \<Rightarrow> wal_error + message list" where
  "ReadAll js io w =
     (case ReadAllRecords js io w of
        Inl e \<Rightarrow> Inl e
      | Inr rs \<Rightarrow> Inr (List.map_filter (\<lambda>r. if wrType r = RecordPublish then wrMessage r else None) rs))"

definition wal_Sync :: "io \<Rightarrow> wal \<Rightarrow> wal_error + unit" where
  "wal_Sync io w = (if walErr w then Inl WalFlush else if io ''sync'' then Inr () else Inl WalSync)"

definition wal_Truncate :: "io \<Rightarrow> wal \<Rightarrow> wal \<times> (wal_error + unit)" where
  "wal_Truncate io w =
     (if walErr w then (w, Inl WalFlush)
      else if \<not> io ''truncate'' then (w, Inl WalTruncate)
      else (w\<lparr>walFile := []\<rparr>, if io ''seek'' then Inr () else Inl WalTruncate))"

definition wal_Size :: "io \<Rightarrow> wal \<Rightarrow> int" where
  "wal_Size io w = (if io ''stat'' then int (length (walFile w)) else 0)"

subsection \<open>The disk storage\<close>

text \<open>\<open>DiskStorage.ReadAllRecords\<close> copies type, message and identifier of each record.\<close>

definition disk_record :: "WALRecord \<Rightarrow> WALRecord" where
  "disk_record r = \<lparr>wrType = wrType r, wrMessage = wrMessage r, wrMsgID = wrMsgID r, wrMetadata = []\<rparr>"

definition disk_ReadAllRecords :: "('a codec_scheme) \<Rightarrow> io \<Rightarrow> wal \<Rightarrow> wal_error + WALRecord list" where
  "disk_ReadAllRecords js io w =
     (case ReadAllRecords js io w of Inl e \<Rightarrow> Inl e | Inr rs \<Rightarrow> Inr (map disk_record rs))"

text \<open>\<open>outs\<close> are the outcomes of the writes, one for each message.\<close>

fun rewrite_loop :: "('a codec_scheme) \<Rightarrow> (message \<times> write_outcome) list \<Rightarrow> wal \<Rightarrow> wal \<times> (wal_error + unit)" where
  "rewrite_loop js [] w = (w, Inr ())"
| "rewrite_loop js ((m, out) # ms) w =
     (case wal_Write js out m w of
        (w', Inl e) \<Rightarrow> (w', Inl e)
      | (w', Inr _) \<Rightarrow> rewrite_loop js ms w')"

definition Rewrite :: "('a codec_scheme) \<Rightarrow> io \<Rightarrow> (message \<Rightarrow> write_outcome) \<Rightarrow> message list \<Rightarrow> wal \<Rightarrow> wal \<times> (wal_error + unit)" where
  "Rewrite js io outs msgs w =
     (case wal_Truncate io w of
        (w1, Inl e) \<Rightarrow> (w1, Inl e)
      | (w1, Inr _) \<Rightarrow>
          (case rewrite_loop js (map (\<lambda>m. (m, outs m)) msgs) w1 of
             (w2, Inl e) \<Rightarrow> (w2, Inl e)
           | (w2, Inr _) \<Rightarrow> (w2, wal_Sync io w2)))"

subsection \<open>Recovery at start\<close>

text \<open>
  The scan of the server's start over the records: the messages still to be delivered by
  identifier, and the identifiers in the order of their publish records.
\<close>

definition recover_step :: "WALRecord \<Rightarrow> (string \<times> message) list \<times> string list \<Rightarrow> (string \<times> message) list \<times> string list" where
  "recover_step r acc =
     (case acc of (msgs, order) \<Rightarrow>
        if wrType r = RecordPublish then
          (case wrMessage r of
             None \<Rightarrow> (msgs, order)
           | Some m \<Rightarrow> (AList.update (mID m) m msgs, order @ [mID m]))
        else if wrType r = RecordAck then (AList.delete (wrMsgID r) msgs, order)
        else (msgs, order))"

definition recovered :: "WALRecord list \<Rightarrow> message list" where
  "recovered rs = (case fold recover_step rs ([], []) of (msgs, order) \<Rightarrow> List.map_filter (map_of msgs) order)"

subsection \<open>Frames\<close>

lemma length_record_frame [simp]: "length (record_frame typ data) = headerSize + 1 + length data"
  by (simp add: record_frame_def headerSize_def)

lemma read_records_short: "length bs < headerSize \<Longrightarrow> read_records js bs = []"
  by (subst read_records.simps) simp

lemma read_records_cut_body:
  "unat (get32 bs) = n \<Longrightarrow> length (drop headerSize bs) < n \<Longrightarrow> read_records js bs = []"
  by (subst read_records.simps) (simp add: Let_def)

lemma frame_header:
  assumes "length data < 2 ^ 32 - 1"
  shows "unat (get32 (record_frame typ data @ rest)) = 1 + length data"
    and "get32 (drop 4 (record_frame typ data @ rest)) = crc32 (typ # data)"
    and "drop headerSize (record_frame typ data @ rest) = typ # data @ rest"
proof -
  have "get32 (record_frame typ data @ rest) = of_nat (1 + length data)" by (simp add: record_frame_def)
  then show "unat (get32 (record_frame typ data @ rest)) = 1 + length data"
    using assms unat_of_nat_32 [of "1 + length data"] by simp
  show "get32 (drop 4 (record_frame typ data @ rest)) = crc32 (typ # data)" by (simp add: record_frame_def)
  show "drop headerSize (record_frame typ data @ rest) = typ # data @ rest"
    by (simp add: record_frame_def headerSize_def)
qed

lemma read_records_step:
  assumes "headerSize \<le> length bs" and "unat (get32 bs) = 1 + n" and "get32 (drop 4 bs) = c"
    and "drop headerSize bs = typ # rest" and "n \<le> length rest" and "crc32 (typ # take n rest) = c"
  shows "read_records js bs = wal_record js typ (take n rest) @ read_records js (drop n rest)"
proof -
  have "length (drop headerSize bs) = 1 + length rest" using assms(4) by simp
  then show ?thesis using assms by (subst read_records.simps) (simp add: Let_def not_less)
qed

lemma read_records_frame:
  assumes "length data < 2 ^ 32 - 1"
  shows "read_records js (record_frame typ data @ rest) = wal_record js typ data @ read_records js rest"
  by (subst read_records_step [OF _ frame_header [OF assms]]) simp_all

lemma read_records_torn:
  assumes "length data < 2 ^ 32 - 1" and "k < length (record_frame typ data)"
  shows "read_records js (take k (record_frame typ data)) = []"
proof (cases "k < headerSize")
  case True
  then show ?thesis by (intro read_records_short) simp
next
  case False
  let ?bs = "take k (record_frame typ data)"
  have "take 4 ?bs = take 4 (record_frame typ data)" using False by (simp add: headerSize_def min_def)
  moreover have "unat (get32 (record_frame typ data)) = 1 + length data"
    using frame_header(1) [OF assms(1), of "typ" Nil] by simp
  ultimately have "unat (get32 ?bs) = 1 + length data" by simp
  moreover have "length (drop headerSize ?bs) < 1 + length data" using assms(2) False by simp
  ultimately show ?thesis by (intro read_records_cut_body)
qed

subsection \<open>What recovery finds\<close>

datatype wal_op = WPublish message | WAckOf string

definition wal_op_frame :: "('a codec_scheme) \<Rightarrow> wal_op \<Rightarrow> bytes" where
  "wal_op_frame js op =
     (case op of
        WPublish m \<Rightarrow> record_frame RecordPublish (the (cEncode js m))
      | WAckOf i \<Rightarrow> record_frame RecordAck (str_bytes i))"

definition wal_op_ok :: "('a codec_scheme) \<Rightarrow> wal_op \<Rightarrow> bool" where
  "wal_op_ok js op = (case op of WPublish m \<Rightarrow> codec_faithful js m | WAckOf i \<Rightarrow> length i < 2 ^ 32 - 1)"

fun wal_run :: "('a codec_scheme) \<Rightarrow> wal_op list \<Rightarrow> wal \<Rightarrow> wal" where
  "wal_run js [] w = w"
| "wal_run js (WPublish m # ops) w = wal_run js ops (fst (wal_Write js WriteOk m w))"
| "wal_run js (WAckOf i # ops) w = wal_run js ops (fst (WriteAck WriteOk i w))"

definition op_record :: "wal_op \<Rightarrow> WALRecord" where
  "op_record op =
     (case op of
        WPublish m \<Rightarrow> \<lparr>wrType = RecordPublish, wrMessage = Some m, wrMsgID = [], wrMetadata = []\<rparr>
      | WAckOf i \<Rightarrow> \<lparr>wrType = RecordAck, wrMessage = None, wrMsgID = i, wrMetadata = []\<rparr>)"

text \<open>The messages published and not acknowledged later, in the order of publication.\<close>

fun unacked :: "wal_op list \<Rightarrow> message list" where
  "unacked [] = []"
| "unacked (WPublish m # ops) = (if WAckOf (mID m) \<in> set ops then unacked ops else m # unacked ops)"
| "unacked (WAckOf i # ops) = unacked ops"

fun published_ids :: "wal_op list \<Rightarrow> string list" where
  "published_ids [] = []"
| "published_ids (WPublish m # ops) = mID m # published_ids ops"
| "published_ids (WAckOf i # ops) = published_ids ops"

lemma wal_run_file:
  "\<forall>op \<in> set ops. wal_op_ok js op \<Longrightarrow> \<not> walErr w \<Longrightarrow>
     wal_run js ops w = w\<lparr>walFile := walFile w @ concat (map (wal_op_frame js) ops)\<rparr>"
  by (induction js ops w rule: wal_run.induct)
    (auto simp: wal_Write_def WriteAck_def writeRecord_def wal_op_frame_def wal_op_ok_def codec_faithful_def)

lemma read_op_frame:
  "wal_op_ok js op \<Longrightarrow> read_records js (wal_op_frame js op @ rest) = op_record op # read_records js rest"
  by (cases op) (auto simp: wal_op_frame_def wal_op_ok_def codec_faithful_def op_record_def read_records_frame
      wal_record_def RecordPublish_def RecordAck_def)

lemma read_op_torn: "wal_op_ok js op \<Longrightarrow> k < length (wal_op_frame js op) \<Longrightarrow> read_records js (take k (wal_op_frame js op)) = []"
  by (cases op) (auto simp: wal_op_frame_def wal_op_ok_def codec_faithful_def intro!: read_records_torn)

text \<open>How many whole frames the first \<open>k\<close> bytes hold.\<close>

fun whole_ops :: "('a codec_scheme) \<Rightarrow> nat \<Rightarrow> wal_op list \<Rightarrow> wal_op list" where
  "whole_ops js k [] = []"
| "whole_ops js k (op # ops) =
     (let n = length (wal_op_frame js op) in if n \<le> k then op # whole_ops js (k - n) ops else [])"

lemma read_records_cut:
  "\<forall>op \<in> set ops. wal_op_ok js op \<Longrightarrow>
     read_records js (take k (concat (map (wal_op_frame js) ops))) = map op_record (whole_ops js k ops)"
proof (induction ops arbitrary: k)
  case Nil
  then show ?case by (simp add: read_records_short headerSize_def)
next
  case (Cons op ops)
  then show ?case
    by (cases "length (wal_op_frame js op) \<le> k")
      (auto simp: Let_def read_op_frame read_op_torn)
qed

lemma whole_ops_all: "length (concat (map (wal_op_frame js) ops)) \<le> k \<Longrightarrow> whole_ops js k ops = ops"
  by (induction ops arbitrary: k) (auto simp: Let_def)

lemma whole_ops_prefix: "\<exists>n. whole_ops js k ops = take n ops"
proof (induction ops arbitrary: k)
  case (Cons op ops)
  obtain n where "whole_ops js (k - length (wal_op_frame js op)) ops = take n ops" using Cons by blast
  then show ?case
    by (cases "length (wal_op_frame js op) \<le> k") (auto simp: Let_def intro: exI [of _ "Suc n"] exI [of _ 0])
qed simp

lemma recover_step_op [simp]:
  "recover_step (op_record (WPublish m)) (msgs, order) = (AList.update (mID m) m msgs, order @ [mID m])"
  "recover_step (op_record (WAckOf i)) (msgs, order) = (AList.delete i msgs, order)"
  by (simp_all add: recover_step_def op_record_def RecordPublish_def RecordAck_def)

lemma recover_order: "snd (fold recover_step (map op_record ops) (msgs, order)) = order @ published_ids ops"
  by (induction ops arbitrary: msgs order rule: published_ids.induct) auto

lemma recover_other:
  "i \<notin> set (published_ids ops) \<Longrightarrow>
     map_of (fst (fold recover_step (map op_record ops) (msgs, order))) i = (if WAckOf i \<in> set ops then None else map_of msgs i)"
  by (induction ops arbitrary: msgs order rule: published_ids.induct) (auto simp: update_conv' delete_conv')

lemma recover_live:
  "distinct (published_ids ops) \<Longrightarrow>
     List.map_filter (map_of (fst (fold recover_step (map op_record ops) (msgs, order)))) (published_ids ops) = unacked ops"
  by (induction ops arbitrary: msgs order rule: published_ids.induct)
    (auto simp: List.map_filter_simps recover_other update_conv')

lemma recovered_unacked: "distinct (published_ids ops) \<Longrightarrow> recovered (map op_record ops) = unacked ops"
  using recover_order [of ops Nil Nil] recover_live [of ops Nil Nil]
  by (simp add: recovered_def case_prod_beta)

lemma distinct_published_take: "distinct (published_ids ops) \<Longrightarrow> distinct (published_ids (take n ops))"
proof -
  have "published_ids (xs @ ys) = published_ids xs @ published_ids ys" for xs ys
    by (induction xs rule: published_ids.induct) auto
  from this [of "take n ops" "drop n ops"] show "distinct (published_ids ops) \<Longrightarrow> distinct (published_ids (take n ops))"
    by simp
qed

lemma wal_recovery_facts:
  fixes js :: "'a codec_scheme"
  assumes "\<forall>op \<in> set ops. wal_op_ok js op" and "distinct (published_ids ops)"
    and "walFile w = take k (walFile (wal_run js ops (wal_New [])))" and "\<not> walErr w"
  shows "\<exists>rs. disk_ReadAllRecords js io_ok w = Inr rs \<and> recovered rs = unacked (whole_ops js k ops)"
    and "length (walFile (wal_run js ops (wal_New []))) \<le> k \<Longrightarrow> whole_ops js k ops = ops"
    and "\<exists>n. whole_ops js k ops = take n ops"
proof -
  have contents: "walFile (wal_run js ops (wal_New [])) = concat (map (wal_op_frame js) ops)"
    using wal_run_file [OF assms(1), of "wal_New []"] by (simp add: wal_New_def)
  have "read_records js (walFile w) = map op_record (whole_ops js k ops)"
    unfolding assms(3) contents by (rule read_records_cut [OF assms(1)])
  moreover have "disk_record (op_record op) = op_record op" for op
    by (cases op) (simp_all add: disk_record_def op_record_def)
  then have "map disk_record (map op_record xs) = map op_record xs" for xs by simp
  moreover obtain n where n: "whole_ops js k ops = take n ops" using whole_ops_prefix by blast
  ultimately show "\<exists>rs. disk_ReadAllRecords js io_ok w = Inr rs \<and> recovered rs = unacked (whole_ops js k ops)"
    using assms(4) recovered_unacked [OF distinct_published_take [OF assms(2)], of n]
    by (simp add: disk_ReadAllRecords_def ReadAllRecords_def del: map_map)
  show "length (walFile (wal_run js ops (wal_New []))) \<le> k \<Longrightarrow> whole_ops js k ops = ops"
    unfolding contents by (rule whole_ops_all)
  show "\<exists>n. whole_ops js k ops = take n ops" by (rule whole_ops_prefix)
qed

text \<open>
  C4: The server recovers from the log exactly the messages that were published and not acknowledged,
  in the order of publication, as far as their records reached the disk whole: a crash that cuts
  the file at any byte loses the cut record and the later ones and nothing else.
\<close>

theorem wal_recovery:
  fixes js :: "'a codec_scheme"
  assumes "\<forall>op \<in> set ops. wal_op_ok js op" and "distinct (published_ids ops)"
    and "walFile w = take k (walFile (wal_run js ops (wal_New [])))" and "\<not> walErr w"
  shows "(\<exists>rs. disk_ReadAllRecords js io_ok w = Inr rs \<and> recovered rs = unacked (whole_ops js k ops)) \<and>
    (length (walFile (wal_run js ops (wal_New []))) \<le> k \<longrightarrow> whole_ops js k ops = ops) \<and>
    (\<exists>n. whole_ops js k ops = take n ops)"
  by (assumption | rule wal_recovery_facts [OF assms] | rule impI | rule conjI)+

subsection \<open>The storage interface\<close>

record memory_storage =
  msMessages :: "message list"

definition publish_record :: "message \<Rightarrow> WALRecord" where
  "publish_record m = \<lparr>wrType = RecordPublish, wrMessage = Some m, wrMsgID = [], wrMetadata = []\<rparr>"

definition mem_Write :: "message \<Rightarrow> memory_storage \<Rightarrow> memory_storage \<times> (wal_error + nat)" where
  "mem_Write msg s = (s\<lparr>msMessages := msMessages s @ [msg]\<rparr>, Inr 0)"

definition mem_ReadAllRecords :: "memory_storage \<Rightarrow> WALRecord list" where
  "mem_ReadAllRecords s = map publish_record (msMessages s)"

definition mem_Rewrite :: "message list \<Rightarrow> memory_storage \<Rightarrow> memory_storage \<times> (wal_error + unit)" where
  "mem_Rewrite msgs s = (s\<lparr>msMessages := msgs\<rparr>, Inr ())"

text \<open>
  What the broker relies on of a \<open>Storage\<close>: a message written is read back behind the earlier
  records, and a rewrite replaces the records by those of the given messages.
\<close>

locale message_store =
  fixes ok :: "'s \<Rightarrow> bool" and storable :: "message \<Rightarrow> bool"
    and put :: "message \<Rightarrow> 's \<Rightarrow> 's \<times> (wal_error + nat)"
    and replace_all :: "message list \<Rightarrow> 's \<Rightarrow> 's \<times> (wal_error + unit)"
    and records :: "'s \<Rightarrow> WALRecord list"
  assumes write_ok: "ok s \<Longrightarrow> storable m \<Longrightarrow>
      \<exists>s' n. put m s = (s', Inr n) \<and> ok s' \<and> records s' = records s @ [publish_record m]"
    and rewrite_ok: "ok s \<Longrightarrow> \<forall>m \<in> set ms. storable m \<Longrightarrow>
      \<exists>s'. replace_all ms s = (s', Inr ()) \<and> ok s' \<and> records s' = map publish_record ms"
begin

lemma write_recovered:
  assumes "ok s" and "storable m" and "fold recover_step (records s) ([], []) = (msgs, order)" and "mID m \<notin> set order"
  shows "recovered (records (fst (put m s))) = recovered (records s) @ [m]"
proof -
  obtain s' n where "put m s = (s', Inr n)" "records s' = records s @ [publish_record m]"
    using write_ok [OF assms(1,2)] by blast
  moreover have "List.map_filter (map_of (AList.update (mID m) m msgs)) order = List.map_filter (map_of msgs) order"
    using assms(4) by (induction order) (auto simp: List.map_filter_simps update_conv' split: option.splits)
  ultimately show ?thesis
    using assms(3) by (simp add: recovered_def publish_record_def recover_step_def update_conv' map_filter_append
        List.map_filter_simps)
qed

text \<open>Compaction to the messages still alive changes nothing of what a recovery finds.\<close>

lemma rewrite_recovered:
  assumes "ok s" and "\<forall>m \<in> set ms. storable m" and "distinct (map mID ms)"
  shows "recovered (records (fst (replace_all ms s))) = ms"
proof -
  obtain s' where s': "replace_all ms s = (s', Inr ())" "records s' = map publish_record ms"
    using rewrite_ok [OF assms(1,2)] by blast
  have "published_ids (map WPublish ms) = map mID ms" "unacked (map WPublish ms) = ms" by (induction ms) auto
  moreover have "map publish_record ms = map op_record (map WPublish ms)"
    by (simp add: publish_record_def op_record_def)
  ultimately show ?thesis using recovered_unacked [of "map WPublish ms"] assms(3) s' by (simp del: map_map)
qed

end

definition disk_ok :: "('a codec_scheme) \<Rightarrow> wal \<Rightarrow> bool" where
  "disk_ok js w \<longleftrightarrow> \<not> walErr w \<and>
     (\<exists>fs. walFile w = concat (map (\<lambda>(t, d). record_frame t d) fs) \<and> (\<forall>(t, d) \<in> set fs. length d < 2 ^ 32 - 1))"

lemma read_records_append:
  "disk_ok js w \<Longrightarrow> read_records js (walFile w @ rest) = read_records js (walFile w) @ read_records js rest"
proof -
  have "\<forall>(t, d) \<in> set fs. length d < 2 ^ 32 - 1 \<Longrightarrow>
      read_records js (concat (map (\<lambda>(t, d). record_frame t d) fs) @ rest) =
      read_records js (concat (map (\<lambda>(t, d). record_frame t d) fs)) @ read_records js rest" for fs
    by (induction fs) (auto simp: read_records_frame read_records_short headerSize_def)
  then show "disk_ok js w \<Longrightarrow> read_records js (walFile w @ rest) = read_records js (walFile w) @ read_records js rest"
    unfolding disk_ok_def by metis
qed

lemma disk_write:
  assumes "disk_ok js w" and "codec_faithful js m"
  shows "\<exists>w' n. wal_Write js WriteOk m w = (w', Inr n) \<and> disk_ok js w' \<and>
     read_records js (walFile w') = read_records js (walFile w) @ [publish_record m]"
proof -
  obtain d where d: "cEncode js m = Some d" "length d < 2 ^ 32 - 1" "cDecode js d = Some m"
    using assms(2) by (auto simp: codec_faithful_def)
  let ?w = "w\<lparr>walFile := walFile w @ record_frame RecordPublish d\<rparr>"
  obtain fs where fs: "walFile w = concat (map (\<lambda>(t, d). record_frame t d) fs)" "\<forall>(t, d) \<in> set fs. length d < 2 ^ 32 - 1"
      "\<not> walErr w"
    using assms(1) by (auto simp: disk_ok_def)
  have "disk_ok js ?w" unfolding disk_ok_def
    using fs d(2) by (auto intro!: exI [of _ "fs @ [(RecordPublish, d)]"])
  moreover have "read_records js (walFile ?w) = read_records js (walFile w) @ [publish_record m]"
    using read_records_append [OF assms(1)] read_records_frame [OF d(2), of js RecordPublish "[]"] d(3)
    by (simp add: wal_record_def publish_record_def read_records_short headerSize_def)
  ultimately show ?thesis using fs(3) d(1) by (auto simp: wal_Write_def writeRecord_def)
qed

lemma disk_rewrite_loop:
  "disk_ok js w \<Longrightarrow> \<forall>m \<in> set ms. codec_faithful js m \<Longrightarrow>
     \<exists>w'. rewrite_loop js (map (\<lambda>m. (m, WriteOk)) ms) w = (w', Inr ()) \<and> disk_ok js w' \<and>
       read_records js (walFile w') = read_records js (walFile w) @ map publish_record ms"
proof (induction ms arbitrary: w)
  case (Cons m ms)
  obtain w1 n where w1: "wal_Write js WriteOk m w = (w1, Inr n)" "disk_ok js w1"
      "read_records js (walFile w1) = read_records js (walFile w) @ [publish_record m]"
    using disk_write [OF Cons.prems(1), of m] Cons.prems(2) by auto
  then show ?case using Cons.IH [OF w1(2)] Cons.prems(2) by auto
qed simp

interpretation disk_store: message_store "disk_ok js" "codec_faithful js" "wal_Write js WriteOk"
    "Rewrite js io_ok (\<lambda>_. WriteOk)" "\<lambda>w. read_records js (walFile w)"
  for js :: "'a codec_scheme"
proof
  fix s m assume "disk_ok js s" "codec_faithful js m"
  then show "\<exists>s' n. wal_Write js WriteOk m s = (s', Inr n) \<and> disk_ok js s' \<and>
      read_records js (walFile s') = read_records js (walFile s) @ [publish_record m]"
    by (rule disk_write)
next
  fix s ms assume s: "disk_ok js s" and ms: "\<forall>m \<in> set ms. codec_faithful js m"
  have "disk_ok js (s\<lparr>walFile := []\<rparr>)" using s by (auto simp: disk_ok_def intro!: exI [of _ "[]"])
  from disk_rewrite_loop [OF this ms] s
  show "\<exists>s'. Rewrite js io_ok (\<lambda>_. WriteOk) ms s = (s', Inr ()) \<and> disk_ok js s' \<and>
      read_records js (walFile s') = map publish_record ms"
    by (auto simp: Rewrite_def wal_Truncate_def disk_ok_def wal_Sync_def read_records_short headerSize_def)
qed

interpretation memory_store: message_store "\<lambda>_. True" "\<lambda>_. True" mem_Write mem_Rewrite mem_ReadAllRecords
  by unfold_locales (auto simp: mem_Write_def mem_Rewrite_def mem_ReadAllRecords_def)

text \<open>A codec for one message, to exercise the log.\<close>

definition sample_message :: message where
  "sample_message = NewMessage ''m1'' 0 ''orders'' [] []"

definition sample_codec :: codec where
  "sample_codec = \<lparr>cEncode = (\<lambda>m. Some (str_bytes (mID m))),
     cDecode = (\<lambda>d. Some (sample_message\<lparr>mID := bytes_str d\<rparr>))\<rparr>"

lemma sample_codec_faithful: "codec_faithful sample_codec (sample_message\<lparr>mID := ''m2''\<rparr>)" "codec_faithful sample_codec sample_message"
  by (simp_all add: codec_faithful_def sample_codec_def sample_message_def NewMessage_def)

theorem wal_recovery_witness:
  "\<exists>rs. disk_ReadAllRecords sample_codec io_ok
      (wal_run sample_codec [WPublish sample_message, WPublish (sample_message\<lparr>mID := ''m2''\<rparr>), WAckOf ''m1''] (wal_New [])) = Inr rs \<and>
    recovered rs = [sample_message\<lparr>mID := ''m2''\<rparr>]"
proof -
  let ?ops = "[WPublish sample_message, WPublish (sample_message\<lparr>mID := ''m2''\<rparr>), WAckOf ''m1'']"
  let ?w = "wal_run sample_codec ?ops (wal_New [])"
  have ok: "\<forall>op \<in> set ?ops. wal_op_ok sample_codec op" "distinct (published_ids ?ops)"
    using sample_codec_faithful by (auto simp: wal_op_ok_def sample_message_def NewMessage_def)
  have err: "\<not> walErr ?w" using wal_run_file [OF ok(1), of "wal_New []"] by (simp add: wal_New_def)
  have cut: "walFile ?w = take (length (walFile ?w)) (walFile ?w)" by simp
  have "whole_ops sample_codec (length (walFile ?w)) ?ops = ?ops" using wal_recovery [THEN conjunct2, THEN conjunct1, rule_format (no_asm), OF ok cut err] by blast
  then show ?thesis
    using wal_recovery [THEN conjunct1, rule_format (no_asm), OF ok cut err] by (simp add: sample_message_def NewMessage_def)
qed

lemma Rewrite_not_atomic_facts:
  assumes "\<not> walErr w" and "cEncode js m = Some d"
  shows "walFile (fst (Rewrite js io_ok (\<lambda>_. WriteFails 0) (m # ms) w)) = []"
    and "disk_ReadAllRecords js io_ok (wal_New (walFile (fst (Rewrite js io_ok (\<lambda>_. WriteFails 0) (m # ms) w)))) = Inr []"
  using assms
  by (simp_all add: Rewrite_def wal_Truncate_def wal_Write_def writeRecord_def disk_ReadAllRecords_def
      ReadAllRecords_def wal_New_def read_records_short headerSize_def)

text \<open>
  Compaction empties the file before it writes the messages again: when the first write of a
  rewrite fails, none of the messages is left on disk.
\<close>

theorem Rewrite_not_atomic:
  assumes "\<not> walErr w" and "cEncode js m = Some d"
  shows "walFile (fst (Rewrite js io_ok (\<lambda>_. WriteFails 0) (m # ms) w)) = [] \<and>
    disk_ReadAllRecords js io_ok (wal_New (walFile (fst (Rewrite js io_ok (\<lambda>_. WriteFails 0) (m # ms) w)))) = Inr []"
  by (assumption | rule Rewrite_not_atomic_facts [OF assms] | rule impI | rule conjI)+

theorem Rewrite_not_atomic_witness:
  "walFile (fst (Rewrite sample_codec io_ok (\<lambda>_. WriteFails 0) [sample_message] (wal_New [1, 2, 3]))) = []"
  by (rule Rewrite_not_atomic [THEN conjunct1]) (simp_all add: wal_New_def sample_codec_def)

end
