(* ===== verification/Broker.thy ===== *)
theory Broker
  imports Priority_Queue Exchange Wal
begin

section \<open>The broker\<close>

text \<open>
  \<open>internal/broker/broker.go\<close> and \<open>internal/scheduler/scheduler.go\<close>: work queues with priorities,
  publish and subscribe, delayed and expiring messages, acknowledgement with retry and dead
  letters, the spill files, exchanges, compaction of the write-ahead log, snapshots, and the
  recovery of \<open>cmd/server/main.go\<close>. An operation is a function on the broker's record; the lock
  it holds makes it one step, and where the code gives up the lock in between, as in \<open>Checkpoint\<close>,
  the parts are steps of their own. Maps are association lists, so an iteration has an order; no
  lemma depends on which.
\<close>

subsection \<open>State\<close>

datatype broker_error =
    StorageWrite | StorageRewrite | StorageSync
  | SpillMkdir | SpillOpen | SpillEncode | SpillWrite
  | SendOnClosed
  | NotPending string | DelayedNotFound string
  | QueueFull string | QueueNotFound string | DeadLetterNotFound string
  | DefaultExchange | ExchangeExists string string | ExchangeNotFound string
  | PublishToQueue string broker_error

text \<open>A Go channel: the identity distinguishes the channels of one subscriber.\<close>

record channel =
  chID :: nat
  chBuf :: "message list"
  chCap :: nat
  chClosed :: bool

record subscriber =
  sbID :: string
  sbCh :: channel

record topic =
  tpName :: string
  tpSubs :: "(string \<times> subscriber) list"

record pending_message =
  pmMessage :: message
  pmQueueName :: string
  pmDeliverAt :: int
  pmAckDeadline :: int

text \<open>
  The broker. A message is held by value; the spill files of the data directory are the
  association list \<open>brSpill\<close>, by topic; \<open>brChans\<close> counts the channels made.
\<close>

record broker =
  brQueues :: "(string \<times> priority_queue) list"
  brTopics :: "(string \<times> topic) list"
  brDeadLetters :: "(string \<times> ring_queue) list"
  brExchanges :: "(string \<times> exchange) list"
  brPending :: "(string \<times> pending_message) list"
  brDelayed :: "message list"
  brDurableSubs :: "(string \<times> (string \<times> bool) list) list"
  brSpill :: "(string \<times> bytes) list"
  brStore :: "wal option"
  brMaxRetry :: int
  brAckTimeout :: int
  brQueueCap :: int
  brThreshold :: int
  brCheckpointing :: bool
  brNeedsCompaction :: bool
  brWalSize :: int
  brChans :: nat

record broker_config =
  cfMaxRetry :: int
  cfAckTimeout :: int
  cfQueueCap :: int
  cfStorage :: "wal option"
  cfThreshold :: int

text \<open>
  The JSON of exchanges and bindings joins the codec of messages; an environment holds the clock
  and the outcomes of the file operations of one call.
\<close>

record meta_codec = codec +
  mcExchange :: "exchange \<Rightarrow> bytes"
  mcUnExchange :: "bytes \<Rightarrow> exchange option"
  mcName :: "string \<Rightarrow> bytes"
  mcUnName :: "bytes \<Rightarrow> string option"
  mcBinding :: "binding \<Rightarrow> bytes"
  mcUnBinding :: "bytes \<Rightarrow> binding option"
  mcUnbind :: "string \<times> string \<times> string \<Rightarrow> bytes"
  mcUnUnbind :: "bytes \<Rightarrow> (string \<times> string \<times> string) option"

record env =
  envNow :: int
  envOut :: write_outcome
  envIo :: io

definition default_exchange :: exchange where
  "default_exchange = \<lparr>exName = [], exType = ExchangeDirect, exDurable = True, exBindings = []\<rparr>"

definition second :: int where "second = 1000000000"

definition broker_New :: "env \<Rightarrow> broker_config \<Rightarrow> broker" where
  "broker_New e cfg =
     \<lparr>brQueues = [], brTopics = [], brDeadLetters = [], brExchanges = [([], default_exchange)],
      brPending = [], brDelayed = [], brDurableSubs = [], brSpill = [], brStore = cfStorage cfg,
      brMaxRetry = (if cfMaxRetry cfg \<le> 0 then 5 else cfMaxRetry cfg),
      brAckTimeout = (if cfAckTimeout cfg \<le> 0 then 30 * second else cfAckTimeout cfg),
      brQueueCap = (if cfQueueCap cfg \<le> 0 then 1048576 else cfQueueCap cfg),
      brThreshold = cfThreshold cfg, brCheckpointing = False, brNeedsCompaction = False,
      brWalSize = (case cfStorage cfg of None \<Rightarrow> 0 | Some w \<Rightarrow> wal_Size (envIo e) w), brChans = 0\<rparr>"

subsection \<open>Lookups that create\<close>

definition getOrCreateQueueLocked :: "string \<Rightarrow> broker \<Rightarrow> broker \<times> priority_queue" where
  "getOrCreateQueueLocked name b =
     (case map_of (brQueues b) name of
        Some q \<Rightarrow> (b, q)
      | None \<Rightarrow>
          let q = NewPriority name (brQueueCap b) in
          (b\<lparr>brQueues := AList.update name q (brQueues b)\<rparr>, q))"

definition getOrCreateQueue :: "string \<Rightarrow> broker \<Rightarrow> broker \<times> priority_queue" where
  "getOrCreateQueue name b = getOrCreateQueueLocked name b"

definition getOrCreateTopicLocked :: "string \<Rightarrow> broker \<Rightarrow> broker \<times> topic" where
  "getOrCreateTopicLocked name b =
     (case map_of (brTopics b) name of
        Some t \<Rightarrow> (b, t)
      | None \<Rightarrow>
          let t = \<lparr>tpName = name, tpSubs = []\<rparr> in
          (b\<lparr>brTopics := AList.update name t (brTopics b)\<rparr>, t))"

definition getOrCreateDeadLetterLocked :: "string \<Rightarrow> broker \<Rightarrow> broker \<times> ring_queue" where
  "getOrCreateDeadLetterLocked dlName b =
     (case map_of (brDeadLetters b) dlName of
        Some q \<Rightarrow> (b, q)
      | None \<Rightarrow>
          let q = New dlName (brQueueCap b) in
          (b\<lparr>brDeadLetters := AList.update dlName q (brDeadLetters b)\<rparr>, q))"

definition dead_letter_name :: "string \<Rightarrow> string" where
  "dead_letter_name name = name @ ''_dead_letter''"

definition getOrCreateDeadLetter :: "string \<Rightarrow> broker \<Rightarrow> broker \<times> ring_queue" where
  "getOrCreateDeadLetter name b = getOrCreateDeadLetterLocked (dead_letter_name name) b"

text \<open>\<open>getOrCreateQueue(name).Push(msg)\<close> and \<open>getOrCreateDeadLetter(name).Push(msg)\<close>.\<close>

definition push_queue :: "string \<Rightarrow> message \<Rightarrow> broker \<Rightarrow> broker \<times> bool" where
  "push_queue name msg b =
     (case getOrCreateQueueLocked name b of (b1, q) \<Rightarrow>
        case pq_Push msg q of (q', ok) \<Rightarrow> (b1\<lparr>brQueues := AList.update name q' (brQueues b1)\<rparr>, ok))"

definition push_dead_letter :: "string \<Rightarrow> message \<Rightarrow> broker \<Rightarrow> broker \<times> bool" where
  "push_dead_letter name msg b =
     (case getOrCreateDeadLetter name b of (b1, q) \<Rightarrow>
        case Push msg q of (q', ok) \<Rightarrow>
          (b1\<lparr>brDeadLetters := AList.update (dead_letter_name name) q' (brDeadLetters b1)\<rparr>, ok))"

subsection \<open>Compaction\<close>

definition AutoCheckpoint :: "broker \<Rightarrow> broker" where
  "AutoCheckpoint b =
     (if brStore b = None \<or> brThreshold b \<le> 0 then b
      else if brWalSize b \<le> brThreshold b then b
      else b\<lparr>brNeedsCompaction := True, brCheckpointing := True\<rparr>)"

text \<open>
  \<open>Checkpoint\<close> collects the messages under the locks and rewrites the storage after it has
  released them, so the two parts are steps of their own.
\<close>

definition checkpoint_capture :: "broker \<Rightarrow> message list" where
  "checkpoint_capture b =
     concat (map (\<lambda>(_, q). pq_Drain q) (brQueues b)) @ concat (map (\<lambda>(_, q). Drain q) (brDeadLetters b)) @
     brDelayed b @ map (\<lambda>(_, pm). pmMessage pm) (brPending b)"

definition checkpoint_rewrite ::
  "('a codec_scheme) \<Rightarrow> io \<Rightarrow> (message \<Rightarrow> write_outcome) \<Rightarrow> message list \<Rightarrow> broker \<Rightarrow> broker \<times> (broker_error + unit)" where
  "checkpoint_rewrite js io outs allMsgs b =
     (case brStore b of
        None \<Rightarrow> (b, Inr ())
      | Some w \<Rightarrow>
          (case Rewrite js io outs allMsgs w of
             (w', Inl _) \<Rightarrow> (b\<lparr>brStore := Some w'\<rparr>, Inl StorageRewrite)
           | (w', Inr _) \<Rightarrow> (b\<lparr>brStore := Some w', brWalSize := wal_Size io w'\<rparr>, Inr ())))"

definition Checkpoint ::
  "('a codec_scheme) \<Rightarrow> io \<Rightarrow> (message \<Rightarrow> write_outcome) \<Rightarrow> broker \<Rightarrow> broker \<times> (broker_error + unit)" where
  "Checkpoint js io outs b =
     (if brStore b = None then (b, Inr ()) else checkpoint_rewrite js io outs (checkpoint_capture b) b)"

subsection \<open>Publishing\<close>

definition spillToDiskLocked ::
  "('a codec_scheme) \<Rightarrow> io \<Rightarrow> string \<Rightarrow> message \<Rightarrow> broker \<Rightarrow> broker \<times> (broker_error + unit)" where
  "spillToDiskLocked js io topic msg b =
     (if \<not> io ''create spill dir'' then (b, Inl SpillMkdir)
      else if \<not> io ''open spill file'' then (b, Inl SpillOpen)
      else
        let old = (case map_of (brSpill b) topic of None \<Rightarrow> [] | Some f \<Rightarrow> f);
            store = (\<lambda>f. b\<lparr>brSpill := AList.update topic f (brSpill b)\<rparr>) in
        case cEncode js msg of
          None \<Rightarrow> (store old, Inl SpillEncode)
        | Some data \<Rightarrow>
            let len = put32 (of_nat (length data)) in
            if \<not> io ''write spill length'' then (store old, Inl SpillWrite)
            else if \<not> io ''write spill data'' then (store (old @ len), Inl SpillWrite)
            else (store (old @ len @ data), Inr ()))"

definition spillToDisk ::
  "('a codec_scheme) \<Rightarrow> io \<Rightarrow> string \<Rightarrow> message \<Rightarrow> broker \<Rightarrow> broker \<times> (broker_error + unit)" where
  "spillToDisk js io topic msg b = spillToDiskLocked js io topic msg b"

text \<open>The write to the storage every publish starts with.\<close>

definition store_message ::
  "('a codec_scheme) \<Rightarrow> env \<Rightarrow> message \<Rightarrow> broker \<Rightarrow> broker \<times> (broker_error + unit)" where
  "store_message js e msg b =
     (case brStore b of
        None \<Rightarrow> (b, Inr ())
      | Some w \<Rightarrow>
          (case wal_Write js (envOut e) msg w of
             (w', Inl _) \<Rightarrow> (b\<lparr>brStore := Some w'\<rparr>, Inl StorageWrite)
           | (w', Inr n) \<Rightarrow> (AutoCheckpoint (b\<lparr>brStore := Some w', brWalSize := brWalSize b + int n\<rparr>), Inr ())))"

definition publish_stamp :: "int \<Rightarrow> string \<Rightarrow> broker \<Rightarrow> message \<Rightarrow> message" where
  "publish_stamp now topic b msg =
     (let msg = msg\<lparr>mTopic := topic, mMaxRetry := brMaxRetry b\<rparr>;
          msg = (if mDelay msg > 0 then msg\<lparr>mDeliverAt := i64 (now + mDelay msg)\<rparr> else msg)
      in if mTTL msg > 0 then msg\<lparr>mExpiresAt := i64 (now + mTTL msg)\<rparr> else msg)"

definition Publish ::
  "('a codec_scheme) \<Rightarrow> env \<Rightarrow> string \<Rightarrow> message \<Rightarrow> broker \<Rightarrow> broker \<times> (broker_error + unit)" where
  "Publish js e topic msg b =
     (let msg = publish_stamp (envNow e) topic b msg in
      case store_message js e msg b of
        (b1, Inl err) \<Rightarrow> (b1, Inl err)
      | (b1, Inr _) \<Rightarrow>
          if mDeliverAt msg > envNow e then (b1\<lparr>brDelayed := brDelayed b1 @ [msg]\<rparr>, Inr ())
          else case push_queue topic msg b1 of
                 (b2, True) \<Rightarrow> (b2, Inr ())
               | (b2, False) \<Rightarrow> spillToDiskLocked js (envIo e) topic msg b2)"

definition PublishConfirm ::
  "('a codec_scheme) \<Rightarrow> env \<Rightarrow> string \<Rightarrow> message \<Rightarrow> broker \<Rightarrow> broker \<times> (broker_error + unit)" where
  "PublishConfirm js e topic msg b =
     (case Publish js e topic msg b of
        (b1, Inl err) \<Rightarrow> (b1, Inl err)
      | (b1, Inr _) \<Rightarrow>
          (case brStore b1 of
             None \<Rightarrow> (b1, Inr ())
           | Some w \<Rightarrow> (b1, case wal_Sync (envIo e) w of Inl _ \<Rightarrow> Inl StorageSync | Inr _ \<Rightarrow> Inr ())))"

definition IngestRecovered :: "('a codec_scheme) \<Rightarrow> env \<Rightarrow> message \<Rightarrow> broker \<Rightarrow> broker" where
  "IngestRecovered js e msg b =
     (let now = envNow e in
      if mExpiresAt msg > 0 \<and> mExpiresAt msg \<le> now then b
      else if mTTL msg > 0 \<and> i64 (mTimestamp msg + mTTL msg) \<le> now then b
      else if mDeliverAt msg > now then b\<lparr>brDelayed := brDelayed b @ [msg]\<rparr>
      else case push_queue (mTopic msg) msg b of
             (b1, True) \<Rightarrow> b1
           | (b1, False) \<Rightarrow> fst (spillToDisk js (envIo e) (mTopic msg) msg b1))"

text \<open>
  A send that does not block: it is dropped when the buffer is full and panics on a closed channel,
  after the earlier subscribers were served.
\<close>

fun send_all :: "message \<Rightarrow> (string \<times> subscriber) list \<Rightarrow> (string \<times> subscriber) list \<times> bool" where
  "send_all msg [] = ([], True)"
| "send_all msg ((i, sub) # subs) =
     (if chClosed (sbCh sub) then ((i, sub) # subs, False)
      else
        let ch = sbCh sub;
            sub' = (if length (chBuf ch) < chCap ch then sub\<lparr>sbCh := ch\<lparr>chBuf := chBuf ch @ [msg]\<rparr>\<rparr> else sub)
        in case send_all msg subs of (subs', ok) \<Rightarrow> ((i, sub') # subs', ok))"

definition durable_queue_name :: "string \<Rightarrow> string \<Rightarrow> string" where
  "durable_queue_name topic subID = topic @ '':'' @ subID"

fun push_durable :: "('a codec_scheme) \<Rightarrow> io \<Rightarrow> string \<Rightarrow> message \<Rightarrow> string list \<Rightarrow> broker \<Rightarrow> broker" where
  "push_durable js io topic msg [] b = b"
| "push_durable js io topic msg (subID # subs) b =
     (let qName = durable_queue_name topic subID in
      push_durable js io topic msg subs
        (case push_queue qName msg b of
           (b1, True) \<Rightarrow> b1
         | (b1, False) \<Rightarrow> fst (spillToDiskLocked js io qName msg b1)))"

definition PublishTopic ::
  "('a codec_scheme) \<Rightarrow> env \<Rightarrow> string \<Rightarrow> message \<Rightarrow> broker \<Rightarrow> broker \<times> (broker_error + unit)" where
  "PublishTopic js e topicName msg b =
     (let msg = msg\<lparr>mTopic := topicName\<rparr> in
      case store_message js e msg b of
        (b1, Inl err) \<Rightarrow> (b1, Inl err)
      | (b1, Inr _) \<Rightarrow>
          (case getOrCreateTopicLocked topicName b1 of (b2, t) \<Rightarrow>
             case send_all msg (tpSubs t) of (subs, ok) \<Rightarrow>
               let b3 = b2\<lparr>brTopics := AList.update topicName (t\<lparr>tpSubs := subs\<rparr>) (brTopics b2)\<rparr> in
               if \<not> ok then (b3, Inl SendOnClosed)
               else
                 let durable = (case map_of (brDurableSubs b3) topicName of None \<Rightarrow> [] | Some m \<Rightarrow> map fst m) in
                 (push_durable js (envIo e) topicName msg durable b3, Inr ())))"

subsection \<open>Consuming\<close>

definition track_pending :: "int \<Rightarrow> string \<Rightarrow> message \<Rightarrow> broker \<Rightarrow> broker" where
  "track_pending now topic msg b =
     b\<lparr>brPending := AList.update (mID msg)
         \<lparr>pmMessage = msg, pmQueueName = topic, pmDeliverAt = now, pmAckDeadline = now + brAckTimeout b\<rparr> (brPending b)\<rparr>"

definition Consume :: "int \<Rightarrow> string \<Rightarrow> broker \<Rightarrow> broker \<times> pop_result" where
  "Consume now topic b =
     (case getOrCreateQueue topic b of (b1, q) \<Rightarrow>
        case pq_Pop q of (q', r) \<Rightarrow>
          let b2 = b1\<lparr>brQueues := AList.update topic q' (brQueues b1)\<rparr> in
          case r of
            PopReturns (Some msg) \<Rightarrow> (track_pending now topic msg b2, r)
          | _ \<Rightarrow> (b2, r))"

text \<open>
  The loop that skips expired messages takes one message off the queue in every round, so the size
  of the queue bounds the rounds.
\<close>

fun skip_expired :: "nat \<Rightarrow> int \<Rightarrow> priority_queue \<Rightarrow> priority_queue \<times> message option" where
  "skip_expired 0 now q = (q, None)"
| "skip_expired (Suc n) now q =
     (case pq_TryPop q of
        (q', None) \<Rightarrow> (q', None)
      | (q', Some msg) \<Rightarrow>
          if mExpiresAt msg > 0 \<and> now > mExpiresAt msg then skip_expired n now q' else (q', Some msg))"

definition TryConsume :: "int \<Rightarrow> string \<Rightarrow> broker \<Rightarrow> broker \<times> message option" where
  "TryConsume now topic b =
     (case getOrCreateQueue topic b of (b1, q) \<Rightarrow>
        case skip_expired (Suc (nat (pqSize q))) now q of (q', r) \<Rightarrow>
          let b2 = b1\<lparr>brQueues := AList.update topic q' (brQueues b1)\<rparr> in
          (case r of None \<Rightarrow> b2 | Some msg \<Rightarrow> track_pending now topic msg b2, r))"

subsection \<open>Delayed messages, expiry and spill files\<close>

definition GetReadyDelayedMessages :: "int \<Rightarrow> broker \<Rightarrow> message list" where
  "GetReadyDelayedMessages now b = filter (\<lambda>m. now \<ge> mDeliverAt m) (brDelayed b)"

text \<open>
  The reload loop over the bytes of a spill file. It ends when the queue is full, at a cut-off
  entry, or when the queue refuses a message, whose frame then starts the new file. The result is
  the queue, what the new file holds, and how many messages were reloaded.
\<close>

function spill_loop :: "('a codec_scheme) \<Rightarrow> priority_queue \<Rightarrow> bytes \<Rightarrow> nat \<Rightarrow> priority_queue \<times> bytes \<times> nat" where
  "spill_loop js q bs reloaded =
     (if pq_IsFull q then (q, bs, reloaded)
      else if length bs < 4 then (q, [], reloaded)
      else
        let n = unat (get32 bs); rest = drop 4 bs in
        if length rest < n then (q, [], reloaded)
        else
          let data = take n rest; rest' = drop n rest in
          case cDecode js data of
            None \<Rightarrow> spill_loop js q rest' reloaded
          | Some msg \<Rightarrow>
              (case pq_Push msg q of
                 (q', True) \<Rightarrow> spill_loop js q' rest' (reloaded + 1)
               | (q', False) \<Rightarrow> (q', put32 (of_nat (length data)) @ data @ rest', reloaded)))"
  by pat_completeness auto
termination
  by (relation "measure (\<lambda>(js, q, bs, reloaded). length bs)") auto

declare spill_loop.simps [simp del]

definition processSpillFile :: "('a codec_scheme) \<Rightarrow> io \<Rightarrow> string \<Rightarrow> broker \<Rightarrow> broker" where
  "processSpillFile js io topic b =
     (case (map_of (brQueues b) topic, map_of (brSpill b) topic) of
        (Some q, Some f) \<Rightarrow>
          if \<not> io ''open spill'' \<or> \<not> io ''create temp'' then b
          else
            case spill_loop js q f 0 of (q', new_file, reloaded) \<Rightarrow>
              let b1 = b\<lparr>brQueues := AList.update topic q' (brQueues b)\<rparr> in
              if reloaded > 0 then
                if length new_file = 0 then b1\<lparr>brSpill := AList.delete topic (brSpill b1)\<rparr>
                else b1\<lparr>brSpill := AList.update topic new_file (brSpill b1)\<rparr>
              else b1
      | _ \<Rightarrow> b)"

definition reload_topic :: "('a codec_scheme) \<Rightarrow> io \<Rightarrow> string \<Rightarrow> broker \<Rightarrow> broker" where
  "reload_topic js io topic b =
     (case getOrCreateQueue topic b of (b1, q) \<Rightarrow>
        if pq_IsFull q then b1
        else if map_of (brSpill b1) topic = None then b1
        else processSpillFile js io topic b1)"

definition reloadFromDisk :: "('a codec_scheme) \<Rightarrow> io \<Rightarrow> broker \<Rightarrow> broker" where
  "reloadFromDisk js io b = fold (reload_topic js io) (map fst (brQueues b)) b"

definition expired_pending :: "int \<Rightarrow> pending_message \<Rightarrow> bool" where
  "expired_pending now pm \<longleftrightarrow> mExpiresAt (pmMessage pm) > 0 \<and> now > mExpiresAt (pmMessage pm)"

definition ProcessAdvancedFeatures :: "('a codec_scheme) \<Rightarrow> env \<Rightarrow> broker \<Rightarrow> broker" where
  "ProcessAdvancedFeatures js e b =
     (let now = envNow e;
          ready = filter (\<lambda>m. now \<ge> mDeliverAt m) (brDelayed b);
          b1 = b\<lparr>brDelayed := filter (\<lambda>m. \<not> now \<ge> mDeliverAt m) (brDelayed b)\<rparr>;
          b2 = fold (\<lambda>m b. fst (push_queue (mTopic m) m b)) ready b1;
          b3 = b2\<lparr>brPending := filter (\<lambda>(_, pm). \<not> expired_pending now pm) (brPending b2)\<rparr>
      in reloadFromDisk js (envIo e) b3)"

definition PromoteDelayed :: "('a codec_scheme) \<Rightarrow> io \<Rightarrow> string \<Rightarrow> broker \<Rightarrow> broker \<times> (broker_error + unit)" where
  "PromoteDelayed js io messageID b =
     (case List.find (\<lambda>m. mID m = messageID) (brDelayed b) of
        None \<Rightarrow> (b, Inl (DelayedNotFound messageID))
      | Some msg \<Rightarrow>
          let b1 = b\<lparr>brDelayed := remove_first (\<lambda>m. mID m = messageID) (brDelayed b)\<rparr> in
          case push_queue (mTopic msg) msg b1 of
            (b2, True) \<Rightarrow> (b2, Inr ())
          | (b2, False) \<Rightarrow> (fst (spillToDiskLocked js io (mTopic msg) msg b2), Inr ()))"

definition hasDelayedMessageLocked :: "string \<Rightarrow> broker \<Rightarrow> bool" where
  "hasDelayedMessageLocked messageID b = list_ex (\<lambda>m. mID m = messageID) (brDelayed b)"

definition HasDelayedMessage :: "string \<Rightarrow> broker \<Rightarrow> bool" where
  "HasDelayedMessage messageID b = hasDelayedMessageLocked messageID b"

definition broker_HasMessage :: "string \<Rightarrow> broker \<Rightarrow> bool" where
  "broker_HasMessage messageID b \<longleftrightarrow>
     map_of (brPending b) messageID \<noteq> None \<or> list_ex (\<lambda>(_, q). pq_HasMessage messageID q) (brQueues b) \<or>
     hasDelayedMessageLocked messageID b"

subsection \<open>Subscriptions\<close>

definition RegisterDurableSub :: "string \<Rightarrow> string \<Rightarrow> broker \<Rightarrow> broker" where
  "RegisterDurableSub topicName subscriberID b =
     (let subs = (case map_of (brDurableSubs b) topicName of None \<Rightarrow> [] | Some m \<Rightarrow> m) in
      b\<lparr>brDurableSubs := AList.update topicName (AList.update subscriberID True subs) (brDurableSubs b)\<rparr>)"

definition UnregisterDurableSub :: "string \<Rightarrow> string \<Rightarrow> broker \<Rightarrow> broker" where
  "UnregisterDurableSub topicName subscriberID b =
     (case map_of (brDurableSubs b) topicName of
        None \<Rightarrow> b
      | Some m \<Rightarrow> b\<lparr>brDurableSubs := AList.update topicName (AList.delete subscriberID m) (brDurableSubs b)\<rparr>)"

text \<open>The second component of the result is the identity of the new channel.\<close>

definition Subscribe :: "string \<Rightarrow> string \<Rightarrow> int \<Rightarrow> bool \<Rightarrow> broker \<Rightarrow> broker \<times> nat" where
  "Subscribe topicName subscriberID bufSize durable b =
     (let cap = (if bufSize \<le> 0 then 256 else nat bufSize) in
      case getOrCreateTopicLocked topicName b of (b1, t) \<Rightarrow>
        let ch = \<lparr>chID = brChans b1, chBuf = [], chCap = cap, chClosed = False\<rparr>;
            t' = t\<lparr>tpSubs := AList.update subscriberID \<lparr>sbID = subscriberID, sbCh = ch\<rparr> (tpSubs t)\<rparr>;
            b2 = b1\<lparr>brTopics := AList.update topicName t' (brTopics b1), brChans := brChans b1 + 1\<rparr>
        in (if durable then RegisterDurableSub topicName subscriberID b2 else b2, chID ch))"

text \<open>
  One round of the goroutine that hands a durable queue to the channel of its subscriber: \<open>room\<close>
  says whether the channel takes the message before the timeout. The result says whether the
  goroutine goes on.
\<close>

definition catchUpDurable_step :: "string \<Rightarrow> string \<Rightarrow> nat \<Rightarrow> bool \<Rightarrow> broker \<Rightarrow> broker \<times> bool" where
  "catchUpDurable_step topicName subscriberID ch room b =
     (case map_of (brTopics b) topicName of
        None \<Rightarrow> (b, False)
      | Some t \<Rightarrow>
          (case map_of (tpSubs t) subscriberID of
             None \<Rightarrow> (b, False)
           | Some sub \<Rightarrow>
               if chID (sbCh sub) \<noteq> ch then (b, False)
               else
                 let qName = durable_queue_name topicName subscriberID in
                 case getOrCreateQueue qName b of (b1, q) \<Rightarrow>
                   case pq_TryPop q of
                     (q', None) \<Rightarrow> (b1, False)
                   | (q', Some msg) \<Rightarrow>
                       if room then
                         let sub' = sub\<lparr>sbCh := (sbCh sub)\<lparr>chBuf := chBuf (sbCh sub) @ [msg]\<rparr>\<rparr> in
                         (b1\<lparr>brQueues := AList.update qName q' (brQueues b1),
                            brTopics := AList.update topicName (t\<lparr>tpSubs := AList.update subscriberID sub' (tpSubs t)\<rparr>) (brTopics b1)\<rparr>,
                          True)
                       else
                         (b1\<lparr>brQueues := AList.update qName (fst (pq_Push msg q')) (brQueues b1)\<rparr>, False)))"

definition Unsubscribe :: "string \<Rightarrow> string \<Rightarrow> broker \<Rightarrow> broker" where
  "Unsubscribe topicName subscriberID b =
     (case map_of (brTopics b) topicName of
        None \<Rightarrow> b
      | Some t \<Rightarrow>
          b\<lparr>brTopics := AList.update topicName (t\<lparr>tpSubs := AList.delete subscriberID (tpSubs t)\<rparr>) (brTopics b)\<rparr>)"

subsection \<open>Acknowledgement, retry and dead letters\<close>

definition broker_Ack :: "env \<Rightarrow> string \<Rightarrow> broker \<Rightarrow> broker \<times> (broker_error + unit)" where
  "broker_Ack e messageID b =
     (if map_of (brPending b) messageID = None then (b, Inl (NotPending messageID))
      else
        let b1 = b\<lparr>brPending := AList.delete messageID (brPending b)\<rparr> in
        case brStore b1 of
          None \<Rightarrow> (b1, Inr ())
        | Some w \<Rightarrow>
            (case WriteAck (envOut e) messageID w of (w', r) \<Rightarrow>
               (AutoCheckpoint (b1\<lparr>brStore := Some w',
                  brWalSize := brWalSize b1 + (case r of Inl _ \<Rightarrow> 0 | Inr n \<Rightarrow> int n)\<rparr>), Inr ())))"

definition retryOrDeadLetter :: "message \<Rightarrow> string \<Rightarrow> broker \<Rightarrow> broker \<times> (broker_error + unit)" where
  "retryOrDeadLetter msg queueName b =
     (let msg = msg\<lparr>mRetry := mRetry msg + 1\<rparr> in
      if mRetry msg > mMaxRetry msg then (fst (push_dead_letter queueName msg b), Inr ())
      else case push_queue queueName msg b of
             (b1, True) \<Rightarrow> (b1, Inr ())
           | (b1, False) \<Rightarrow> (b1, Inl (QueueFull queueName)))"

definition Nack :: "string \<Rightarrow> broker \<Rightarrow> broker \<times> (broker_error + unit)" where
  "Nack messageID b =
     (case map_of (brPending b) messageID of
        None \<Rightarrow> (b, Inl (NotPending messageID))
      | Some pm \<Rightarrow>
          retryOrDeadLetter (pmMessage pm) (pmQueueName pm) (b\<lparr>brPending := AList.delete messageID (brPending b)\<rparr>))"

definition GetPendingMessages :: "broker \<Rightarrow> (string \<times> pending_message) list" where
  "GetPendingMessages b = brPending b"

definition RequeueTimedOut :: "string \<Rightarrow> broker \<Rightarrow> broker \<times> (broker_error + unit)" where
  "RequeueTimedOut messageID b =
     (case map_of (brPending b) messageID of
        None \<Rightarrow> (b, Inl (NotPending messageID))
      | Some pm \<Rightarrow>
          retryOrDeadLetter (pmMessage pm) (pmQueueName pm) (b\<lparr>brPending := AList.delete messageID (brPending b)\<rparr>))"

text \<open>The pass of the scheduler over the pending messages, and one tick of its loop.\<close>

definition checkTimeouts :: "int \<Rightarrow> broker \<Rightarrow> broker" where
  "checkTimeouts now b =
     fold (\<lambda>(i, pm) b. if now > pmAckDeadline pm then fst (RequeueTimedOut i b) else b) (GetPendingMessages b) b"

definition scheduler_tick :: "('a codec_scheme) \<Rightarrow> env \<Rightarrow> broker \<Rightarrow> broker" where
  "scheduler_tick js e b = checkTimeouts (envNow e) (ProcessAdvancedFeatures js e b)"

definition PurgeQueue ::
  "('a codec_scheme) \<Rightarrow> io \<Rightarrow> (message \<Rightarrow> write_outcome) \<Rightarrow> string \<Rightarrow> broker \<Rightarrow> broker \<times> (broker_error + int)" where
  "PurgeQueue js io outs topic b =
     (case map_of (brQueues b) topic of
        None \<Rightarrow> (b, Inl (QueueNotFound topic))
      | Some q \<Rightarrow>
          (case pq_Purge q of (q', purged) \<Rightarrow>
             let b1 = b\<lparr>brQueues := AList.update topic q' (brQueues b)\<rparr> in
             (if purged > 0 \<and> brStore b1 \<noteq> None then fst (Checkpoint js io outs b1) else b1, Inr purged)))"

definition PurgeDeadLetters ::
  "('a codec_scheme) \<Rightarrow> io \<Rightarrow> (message \<Rightarrow> write_outcome) \<Rightarrow> string \<Rightarrow> broker \<Rightarrow> broker \<times> (broker_error + int)" where
  "PurgeDeadLetters js io outs topic b =
     (let dlName = dead_letter_name topic in
      case map_of (brDeadLetters b) dlName of
        None \<Rightarrow> (b, Inl (DeadLetterNotFound dlName))
      | Some q \<Rightarrow>
          (case Purge q of (q', purged) \<Rightarrow>
             let b1 = b\<lparr>brDeadLetters := AList.update dlName q' (brDeadLetters b)\<rparr> in
             (if purged > 0 \<and> brStore b1 \<noteq> None then fst (Checkpoint js io outs b1) else b1, Inr purged)))"

subsection \<open>Statistics and snapshots\<close>

record stats =
  stQueues :: "(string \<times> int) list"
  stTopics :: "(string \<times> int) list"
  stDeadLetters :: "(string \<times> int) list"
  stPendingCount :: int
  stDelayedCount :: int

definition Stats :: "broker \<Rightarrow> stats" where
  "Stats b =
     \<lparr>stQueues = map (\<lambda>(n, q). (n, pq_Size q)) (brQueues b),
      stTopics = map (\<lambda>(n, t). (n, int (length (tpSubs t)))) (brTopics b),
      stDeadLetters = map (\<lambda>(n, q). (n, queue_Size q)) (brDeadLetters b),
      stPendingCount = int (length (brPending b)), stDelayedCount = int (length (brDelayed b))\<rparr>"

record full_state =
  fsQueues :: "(string \<times> message list) list"
  fsDeadLetters :: "(string \<times> message list) list"
  fsDelayed :: "message list"
  fsPending :: "(string \<times> pending_message) list"
  fsDurableSubs :: "(string \<times> (string \<times> bool) list) list"
  fsExchanges :: "(string \<times> exchange) list"

definition SnapshotFullState :: "broker \<Rightarrow> full_state" where
  "SnapshotFullState b =
     \<lparr>fsQueues = filter (\<lambda>(_, ms). length ms > 0) (map (\<lambda>(n, q). (n, pq_Drain q)) (brQueues b)),
      fsDeadLetters = filter (\<lambda>(_, ms). length ms > 0) (map (\<lambda>(n, q). (n, Drain q)) (brDeadLetters b)),
      fsDelayed = brDelayed b, fsPending = brPending b, fsDurableSubs = brDurableSubs b,
      fsExchanges = brExchanges b\<rparr>"

text \<open>The new exchange map starts with the default exchange; an exchange of the snapshot replaces it.\<close>

definition RestoreFullState :: "full_state \<Rightarrow> broker \<Rightarrow> broker" where
  "RestoreFullState st b =
     b\<lparr>brQueues := map (\<lambda>(n, ms). (n, fold (\<lambda>m q. fst (pq_Push m q)) ms (NewPriority n (brQueueCap b)))) (fsQueues st),
       brDeadLetters := map (\<lambda>(n, ms). (n, fold (\<lambda>m q. fst (Push m q)) ms (New n (brQueueCap b)))) (fsDeadLetters st),
       brDelayed := fsDelayed st, brPending := fsPending st, brDurableSubs := fsDurableSubs st,
       brExchanges := fold (\<lambda>(n, ex). AList.update n ex) (fsExchanges st) [([], default_exchange)]\<rparr>"

definition StorageSize :: "broker \<Rightarrow> int" where
  "StorageSize b = (if brStore b = None then 0 else brWalSize b)"

definition StorageMode :: "broker \<Rightarrow> string" where
  "StorageMode b = (if brStore b = None then ''memory'' else ''disk'')"

definition CompactionThreshold :: "broker \<Rightarrow> int" where
  "CompactionThreshold b = brThreshold b"

subsection \<open>Exchanges of the broker\<close>

definition walRecordExchangeDeclare :: byte where "walRecordExchangeDeclare = 3"
definition walRecordExchangeDelete :: byte where "walRecordExchangeDelete = 4"
definition walRecordBindQueue :: byte where "walRecordBindQueue = 5"
definition walRecordUnbindQueue :: byte where "walRecordUnbindQueue = 6"

lemmas wal_record_types =
  RecordPublish_def RecordAck_def walRecordExchangeDeclare_def walRecordExchangeDelete_def
  walRecordBindQueue_def walRecordUnbindQueue_def

definition store_metadata :: "env \<Rightarrow> byte \<Rightarrow> bytes \<Rightarrow> broker \<Rightarrow> broker" where
  "store_metadata e recordType data b =
     (case brStore b of
        None \<Rightarrow> b
      | Some w \<Rightarrow> b\<lparr>brStore := Some (fst (WriteMetadata (envOut e) recordType data w))\<rparr>)"

definition toState :: "exchange \<Rightarrow> exchange" where
  "toState e = \<lparr>exName = exName e, exType = exType e, exDurable = exDurable e, exBindings = exBindings e\<rparr>"

definition ExchangeDeclare ::
  "('a meta_codec_scheme) \<Rightarrow> env \<Rightarrow> string \<Rightarrow> string \<Rightarrow> bool \<Rightarrow> broker \<Rightarrow> broker \<times> (broker_error + unit)" where
  "ExchangeDeclare js e name typ durable b =
     (case map_of (brExchanges b) name of
        Some ex \<Rightarrow> (b, if exType ex \<noteq> typ then Inl (ExchangeExists name (exType ex)) else Inr ())
      | None \<Rightarrow>
          let ex = \<lparr>exName = name, exType = typ, exDurable = durable, exBindings = []\<rparr>;
              b1 = b\<lparr>brExchanges := AList.update name ex (brExchanges b)\<rparr> in
          (if durable then store_metadata e walRecordExchangeDeclare (mcExchange js (toState ex)) b1 else b1, Inr ()))"

definition ExchangeDelete ::
  "('a meta_codec_scheme) \<Rightarrow> env \<Rightarrow> string \<Rightarrow> broker \<Rightarrow> broker \<times> (broker_error + unit)" where
  "ExchangeDelete js e name b =
     (if name = [] then (b, Inl DefaultExchange)
      else if map_of (brExchanges b) name = None then (b, Inl (ExchangeNotFound name))
      else
        (store_metadata e walRecordExchangeDelete (mcName js name)
           (b\<lparr>brExchanges := AList.delete name (brExchanges b)\<rparr>), Inr ()))"

definition BindQueue ::
  "('a meta_codec_scheme) \<Rightarrow> env \<Rightarrow> string \<Rightarrow> string \<Rightarrow> string \<Rightarrow> (string \<times> string) list \<Rightarrow> bool \<Rightarrow> broker \<Rightarrow>
   broker \<times> (broker_error + unit)" where
  "BindQueue js e exch queueName bindingKey headers matchAll b =
     (case map_of (brExchanges b) exch of
        None \<Rightarrow> (b, Inl (ExchangeNotFound exch))
      | Some ex \<Rightarrow>
          let bd = \<lparr>bExchange = exch, bQueue = queueName, bBindingKey = bindingKey, bHeaders = headers, bMatchAll = matchAll\<rparr>;
              b1 = b\<lparr>brExchanges := AList.update exch (ex\<lparr>exBindings := exBindings ex @ [bd]\<rparr>) (brExchanges b)\<rparr>;
              b2 = fst (getOrCreateQueueLocked queueName b1)
          in (store_metadata e walRecordBindQueue (mcBinding js bd) b2, Inr ()))"

definition UnbindQueue ::
  "('a meta_codec_scheme) \<Rightarrow> env \<Rightarrow> string \<Rightarrow> string \<Rightarrow> string \<Rightarrow> broker \<Rightarrow> broker \<times> (broker_error + unit)" where
  "UnbindQueue js e exch queueName bindingKey b =
     (case map_of (brExchanges b) exch of
        None \<Rightarrow> (b, Inl (ExchangeNotFound exch))
      | Some ex \<Rightarrow>
          let ex' = ex\<lparr>exBindings := remove_first (same_binding queueName bindingKey) (exBindings ex)\<rparr> in
          (store_metadata e walRecordUnbindQueue (mcUnbind js (exch, queueName, bindingKey))
             (b\<lparr>brExchanges := AList.update exch ex' (brExchanges b)\<rparr>), Inr ()))"

text \<open>Each matched queue gets a clone with an identifier of its own; \<open>genID\<close> and \<open>env\<close> are those of its publish.\<close>

fun publish_clones ::
  "('a codec_scheme) \<Rightarrow> (string \<Rightarrow> env) \<Rightarrow> (string \<Rightarrow> string) \<Rightarrow> message \<Rightarrow> string list \<Rightarrow> broker \<Rightarrow>
   broker \<times> (broker_error + unit)" where
  "publish_clones js env genID msg [] b = (b, Inr ())"
| "publish_clones js env genID msg (qn # qs) b =
     (let clone = msg\<lparr>mID := genID qn, mTopic := qn\<rparr> in
      case Publish js (env qn) qn clone b of
        (b1, Inl err) \<Rightarrow> (b1, Inl (PublishToQueue qn err))
      | (b1, Inr _) \<Rightarrow> publish_clones js env genID msg qs b1)"

definition PublishExchange ::
  "('a codec_scheme) \<Rightarrow> (string \<Rightarrow> env) \<Rightarrow> (string \<Rightarrow> string) \<Rightarrow> string \<Rightarrow> string \<Rightarrow> message \<Rightarrow> broker \<Rightarrow>
   broker \<times> (broker_error + unit)" where
  "PublishExchange js env genID exchangeName routingKey msg b =
     (case map_of (brExchanges b) exchangeName of
        None \<Rightarrow> (b, Inl (ExchangeNotFound exchangeName))
      | Some ex \<Rightarrow>
          let msg = msg\<lparr>mExchange := exchangeName, mRoutingKey := routingKey\<rparr> in
          if exchangeName = [] then Publish js (env routingKey) routingKey msg b
          else
            let queues = route ex routingKey (mHeaders msg) in
            if length queues = 0 then (b, Inr ()) else publish_clones js env genID msg queues b)"

definition ReplayMetadata :: "('a meta_codec_scheme) \<Rightarrow> byte \<Rightarrow> bytes \<Rightarrow> broker \<Rightarrow> broker" where
  "ReplayMetadata js recordType data b =
     (if recordType = walRecordExchangeDeclare then
        (case mcUnExchange js data of
           None \<Rightarrow> b
         | Some es \<Rightarrow> b\<lparr>brExchanges := AList.update (exName es) es (brExchanges b)\<rparr>)
      else if recordType = walRecordExchangeDelete then
        (case mcUnName js data of
           None \<Rightarrow> b
         | Some name \<Rightarrow> b\<lparr>brExchanges := AList.delete name (brExchanges b)\<rparr>)
      else if recordType = walRecordBindQueue then
        (case mcUnBinding js data of
           None \<Rightarrow> b
         | Some bd \<Rightarrow>
             (case map_of (brExchanges b) (bExchange bd) of
                None \<Rightarrow> b
              | Some ex \<Rightarrow>
                  b\<lparr>brExchanges := AList.update (bExchange bd) (ex\<lparr>exBindings := exBindings ex @ [bd]\<rparr>) (brExchanges b)\<rparr>))
      else if recordType = walRecordUnbindQueue then
        (case mcUnUnbind js data of
           None \<Rightarrow> b
         | Some (exch, queue, key) \<Rightarrow>
             (case map_of (brExchanges b) exch of
                None \<Rightarrow> b
              | Some ex \<Rightarrow>
                  b\<lparr>brExchanges := AList.update exch
                      (ex\<lparr>exBindings := remove_first (same_binding queue key) (exBindings ex)\<rparr>) (brExchanges b)\<rparr>))
      else b)"

definition close_subs :: "topic \<Rightarrow> topic" where
  "close_subs t = t\<lparr>tpSubs := map (\<lambda>(i, sub). (i, sub\<lparr>sbCh := (sbCh sub)\<lparr>chClosed := True\<rparr>\<rparr>)) (tpSubs t)\<rparr>"

definition broker_Close :: "broker \<Rightarrow> broker" where
  "broker_Close b =
     b\<lparr>brQueues := map (\<lambda>(n, q). (n, pq_Close q)) (brQueues b),
       brDeadLetters := map (\<lambda>(n, q). (n, queue_Close q)) (brDeadLetters b),
       brTopics := map (\<lambda>(n, t). (n, close_subs t)) (brTopics b)\<rparr>"

subsection \<open>Recovery of the broker\<close>

text \<open>
  The start of the server over a disk storage: metadata records are replayed as they come, the
  messages still alive are ingested in their order, and the log is compacted when it had records.
\<close>

definition replay_all :: "('a meta_codec_scheme) \<Rightarrow> WALRecord list \<Rightarrow> broker \<Rightarrow> broker" where
  "replay_all js rs b =
     fold (\<lambda>r b. if wrType r \<noteq> RecordPublish \<and> wrType r \<noteq> RecordAck then ReplayMetadata js (wrType r) (wrMetadata r) b else b)
       rs b"

definition recover_broker :: "('a meta_codec_scheme) \<Rightarrow> env \<Rightarrow> (message \<Rightarrow> write_outcome) \<Rightarrow> broker \<Rightarrow> broker" where
  "recover_broker js e outs b =
     (case brStore b of
        None \<Rightarrow> b
      | Some w \<Rightarrow>
          (case disk_ReadAllRecords js (envIo e) w of
             Inl _ \<Rightarrow> b
           | Inr rs \<Rightarrow>
               if length rs > 0 then
                 let b1 = fold (IngestRecovered js e) (recovered rs) (replay_all js rs b) in
                 fst (Checkpoint js (envIo e) outs b1)
               else b))"

end
