(* ===== verification/Broker_Contract.thy ===== *)
theory Broker_Contract
  imports Broker
begin

section \<open>What the broker promises\<close>

text \<open>
  The well-formedness of a broker's queues, and what publishing, consuming and refusing a message
  do to the messages waiting in each queue. The queues enter only through the contract of the
  priority queue and of the ring buffer: \<open>backlog b t\<close> is the list of messages of queue \<open>t\<close> in the
  order of delivery.
\<close>

subsection \<open>Well-formed brokers\<close>

definition broker_cap :: "broker \<Rightarrow> int" where
  "broker_cap b = nextPowerOfTwo (brQueueCap b)"

definition dead_state :: "int \<Rightarrow> ring_queue \<Rightarrow> bool" where
  "dead_state cap q \<longleftrightarrow> ring_rep q (Drain q) \<and> int (length (qBuf q)) = cap"

definition brk_ok :: "broker \<Rightarrow> bool" where
  "brk_ok b \<longleftrightarrow> brQueueCap b \<le> 2 ^ 32 \<and> distinct (map fst (brQueues b)) \<and> distinct (map fst (brDeadLetters b)) \<and>
     distinct (map fst (brPending b)) \<and>
     (\<forall>(n, q) \<in> set (brQueues b). prio_state (broker_cap b) q (pq_Drain q)) \<and>
     (\<forall>(n, q) \<in> set (brDeadLetters b). dead_state (broker_cap b) q)"

text \<open>The messages waiting in a work queue and in a dead-letter queue, in the order of delivery.\<close>

definition backlog :: "broker \<Rightarrow> string \<Rightarrow> message list" where
  "backlog b t = (case map_of (brQueues b) t of None \<Rightarrow> [] | Some q \<Rightarrow> pq_Drain q)"

definition dead_backlog :: "broker \<Rightarrow> string \<Rightarrow> message list" where
  "dead_backlog b t = (case map_of (brDeadLetters b) (dead_letter_name t) of None \<Rightarrow> [] | Some q \<Rightarrow> Drain q)"

definition has_room :: "broker \<Rightarrow> message \<Rightarrow> message list \<Rightarrow> bool" where
  "has_room b m ms \<longleftrightarrow> int (length (filter (\<lambda>x. prio x = prio m) ms)) < broker_cap b"

lemma brk_ok_queue: "brk_ok b \<Longrightarrow> map_of (brQueues b) t = Some q \<Longrightarrow> prio_state (broker_cap b) q (pq_Drain q)"
  by (auto simp: brk_ok_def dest!: map_of_SomeD)

lemma brk_ok_dead: "brk_ok b \<Longrightarrow> map_of (brDeadLetters b) t = Some q \<Longrightarrow> dead_state (broker_cap b) q"
  by (auto simp: brk_ok_def dest!: map_of_SomeD)

lemma brk_ok_fields [simp]:
  "brk_ok (b\<lparr>brDelayed := d\<rparr>) = brk_ok b" "brk_ok (b\<lparr>brTopics := t\<rparr>) = brk_ok b"
  "brk_ok (b\<lparr>brExchanges := x\<rparr>) = brk_ok b" "brk_ok (b\<lparr>brDurableSubs := ds\<rparr>) = brk_ok b"
  "brk_ok (b\<lparr>brSpill := sp\<rparr>) = brk_ok b" "brk_ok (b\<lparr>brStore := st\<rparr>) = brk_ok b"
  "brk_ok (b\<lparr>brWalSize := n\<rparr>) = brk_ok b" "brk_ok (b\<lparr>brCheckpointing := c\<rparr>) = brk_ok b"
  "brk_ok (b\<lparr>brNeedsCompaction := c\<rparr>) = brk_ok b" "brk_ok (b\<lparr>brChans := k\<rparr>) = brk_ok b"
  by (simp_all add: brk_ok_def broker_cap_def)

lemma backlog_fields [simp]:
  "backlog (b\<lparr>brDelayed := d\<rparr>) = backlog b" "backlog (b\<lparr>brTopics := t\<rparr>) = backlog b"
  "backlog (b\<lparr>brExchanges := x\<rparr>) = backlog b" "backlog (b\<lparr>brDurableSubs := ds\<rparr>) = backlog b"
  "backlog (b\<lparr>brSpill := sp\<rparr>) = backlog b" "backlog (b\<lparr>brStore := st\<rparr>) = backlog b"
  "backlog (b\<lparr>brWalSize := n\<rparr>) = backlog b" "backlog (b\<lparr>brCheckpointing := c\<rparr>) = backlog b"
  "backlog (b\<lparr>brNeedsCompaction := c\<rparr>) = backlog b" "backlog (b\<lparr>brChans := k\<rparr>) = backlog b"
  "backlog (b\<lparr>brPending := p\<rparr>) = backlog b" "backlog (b\<lparr>brDeadLetters := dl\<rparr>) = backlog b"
  by (simp_all add: backlog_def fun_eq_iff)

lemma brk_ok_set_queue:
  assumes "brk_ok b" and "prio_state (broker_cap b) q ms"
  shows "brk_ok (b\<lparr>brQueues := AList.update t q (brQueues b)\<rparr>)"
    and "backlog (b\<lparr>brQueues := AList.update t q (brQueues b)\<rparr>) = (backlog b)(t := ms)"
proof -
  have d: "pq_Drain q = ms" using assms(2) prio_queue.drain_all by (auto simp: prio_state_def)
  show "backlog (b\<lparr>brQueues := AList.update t q (brQueues b)\<rparr>) = (backlog b)(t := ms)"
    by (simp add: backlog_def fun_eq_iff update_conv' d)
  show "brk_ok (b\<lparr>brQueues := AList.update t q (brQueues b)\<rparr>)"
    using assms d set_AList_update [of t q "brQueues b"]
    by (auto simp: brk_ok_def broker_cap_def distinct_update dest!: subsetD)
qed

lemma getOrCreateQueue_ok:
  assumes "brk_ok b" and "getOrCreateQueueLocked t b = (b1, q)"
  shows "brk_ok b1" and "backlog b1 = backlog b" and "prio_state (broker_cap b) q (backlog b t)"
    and "map_of (brQueues b1) t = Some q" and "b1 = b\<lparr>brQueues := brQueues b1\<rparr>" and "broker_cap b1 = broker_cap b"
proof -
  have cases: "map_of (brQueues b) t = Some q \<and> b1 = b \<or>
      map_of (brQueues b) t = None \<and> q = NewPriority t (brQueueCap b) \<and> b1 = b\<lparr>brQueues := AList.update t q (brQueues b)\<rparr>"
    using assms(2) by (auto simp: getOrCreateQueueLocked_def Let_def split: option.splits)
  have new: "prio_state (broker_cap b) (NewPriority t (brQueueCap b)) []"
    using assms(1) NewPriority_state by (simp add: brk_ok_def broker_cap_def)
  show "brk_ok b1" using cases assms(1) brk_ok_set_queue(1) [OF assms(1) new] by auto
  show "backlog b1 = backlog b" using cases brk_ok_set_queue(2) [OF assms(1) new] by (auto simp: backlog_def)
  show "prio_state (broker_cap b) q (backlog b t)"
    using cases new brk_ok_queue [OF assms(1)] by (auto simp: backlog_def)
  show "map_of (brQueues b1) t = Some q" using cases by (auto simp: update_conv')
  show "b1 = b\<lparr>brQueues := brQueues b1\<rparr>" using cases by auto
  then show "broker_cap b1 = broker_cap b" by (metis (no_types, lifting) broker.select_convs(12) broker.surjective broker.update_convs(1) broker_cap_def)
qed

lemma push_queue_ok:
  assumes "brk_ok b" and "push_queue t m b = (b', ok)"
  shows "brk_ok b'" and "ok \<longleftrightarrow> has_room b m (backlog b t)"
    and "backlog b' = (if ok then (backlog b)(t := prio_insert m (backlog b t)) else backlog b)"
    and "b' = b\<lparr>brQueues := brQueues b'\<rparr>"
proof -
  obtain b1 q where g: "getOrCreateQueueLocked t b = (b1, q)" by (cases "getOrCreateQueueLocked t b")
  note g' = getOrCreateQueue_ok [OF assms(1) g]
  obtain q' where q': "pq_Push m q = (q', ok)" "b' = b1\<lparr>brQueues := AList.update t q' (brQueues b1)\<rparr>"
    using assms(2) g by (auto simp: push_queue_def split: prod.splits)
  have step: "ok = snd (prio_push (broker_cap b) m (backlog b t))"
      "prio_state (broker_cap b1) q' (fst (prio_push (broker_cap b) m (backlog b t)))"
    using prio_step_push [OF g'(3), of m] q'(1) g'(6) by simp_all
  show "brk_ok b'" using brk_ok_set_queue(1) [OF g'(1) step(2)] q'(2) by simp
  show "ok \<longleftrightarrow> has_room b m (backlog b t)" using step(1) by (simp add: prio_push_def has_room_def)
  show "backlog b' = (if ok then (backlog b)(t := prio_insert m (backlog b t)) else backlog b)"
    using brk_ok_set_queue(2) [OF g'(1) step(2), of t] q'(2) g'(2) step(1) by (auto simp: prio_push_def)
  show "b' = b\<lparr>brQueues := brQueues b'\<rparr>" unfolding q'(2) by (subst g'(5)) simp
qed

lemma push_dead_letter_ok:
  assumes "brk_ok b" and "push_dead_letter t m b = (b', ok)"
  shows "brk_ok b'" and "ok \<longleftrightarrow> int (length (dead_backlog b t)) < broker_cap b"
    and "dead_backlog b' t = (if ok then dead_backlog b t @ [m] else dead_backlog b t)"
    and "b' = b\<lparr>brDeadLetters := brDeadLetters b'\<rparr>"
proof -
  let ?n = "dead_letter_name t"
  obtain b1 q where g: "getOrCreateDeadLetterLocked ?n b = (b1, q)" by (cases "getOrCreateDeadLetterLocked ?n b")
  have cases: "map_of (brDeadLetters b) ?n = Some q \<and> b1 = b \<or>
      map_of (brDeadLetters b) ?n = None \<and> q = New ?n (brQueueCap b) \<and>
      b1 = b\<lparr>brDeadLetters := AList.update ?n q (brDeadLetters b)\<rparr>"
    using g by (auto simp: getOrCreateDeadLetterLocked_def Let_def split: option.splits)
  have new: "ring_rep (New ?n (brQueueCap b)) []" "int (length (qBuf (New ?n (brQueueCap b)))) = broker_cap b"
    using assms(1) New_rep(1) New_capacity by (simp_all add: brk_ok_def broker_cap_def)
  have q: "ring_rep q (dead_backlog b t)" "int (length (qBuf q)) = broker_cap b"
    using cases new brk_ok_dead [OF assms(1)] by (auto simp: dead_backlog_def dead_state_def)
  obtain q' where q': "Push m q = (q', ok)" "b' = b1\<lparr>brDeadLetters := AList.update ?n q' (brDeadLetters b1)\<rparr>"
    using assms(2) g by (auto simp: push_dead_letter_def getOrCreateDeadLetter_def split: prod.splits)
  have step: "ok = snd (fifo_push (broker_cap b) m (dead_backlog b t))"
      "ring_rep q' (fst (fifo_push (broker_cap b) m (dead_backlog b t)))" "int (length (qBuf q')) = broker_cap b"
    using ring_step_push [OF q, of m] q'(1) by simp_all
  then have d: "Drain q' = fst (fifo_push (broker_cap b) m (dead_backlog b t))" by (intro ring.drain_all)
  have b': "b' = b\<lparr>brDeadLetters := AList.update ?n q' (brDeadLetters b)\<rparr>"
    using cases q'(2) by (auto simp: update_Some_unfold update_last)
  have "set (AList.update ?n q' (brDeadLetters b)) \<subseteq> insert (?n, q') (set (brDeadLetters b))" by (rule set_AList_update)
  then show "brk_ok b'" unfolding b'
    using assms(1) step d by (auto simp: brk_ok_def broker_cap_def dead_state_def distinct_update dest!: subsetD)
  show "ok \<longleftrightarrow> int (length (dead_backlog b t)) < broker_cap b" using step(1) by (simp add: fifo_push_def)
  show "dead_backlog b' t = (if ok then dead_backlog b t @ [m] else dead_backlog b t)"
    using d step(1) unfolding b' by (auto simp: dead_backlog_def update_conv' fifo_push_def)
  show "b' = b\<lparr>brDeadLetters := brDeadLetters b'\<rparr>" unfolding b' by simp
qed

lemma AutoCheckpoint_keeps [simp]:
  "brk_ok (AutoCheckpoint b) = brk_ok b" "backlog (AutoCheckpoint b) = backlog b" "brDelayed (AutoCheckpoint b) = brDelayed b"
  "brSpill (AutoCheckpoint b) = brSpill b" "broker_cap (AutoCheckpoint b) = broker_cap b" "brPending (AutoCheckpoint b) = brPending b"
  "brStore (AutoCheckpoint b) = brStore b" "brMaxRetry (AutoCheckpoint b) = brMaxRetry b"
  "brQueueCap (AutoCheckpoint b) = brQueueCap b" "brDeadLetters (AutoCheckpoint b) = brDeadLetters b" "brQueues (AutoCheckpoint b) = brQueues b"
  by (simp_all add: AutoCheckpoint_def broker_cap_def)

lemma store_message_keeps:
  assumes "store_message js e m b = (b1, r)"
  shows "brk_ok b1 = brk_ok b" "backlog b1 = backlog b" "brDelayed b1 = brDelayed b" "brSpill b1 = brSpill b"
    "broker_cap b1 = broker_cap b" "brPending b1 = brPending b" "brDeadLetters b1 = brDeadLetters b" "brQueues b1 = brQueues b"
  using assms by (auto simp: store_message_def broker_cap_def split: option.splits prod.splits sum.splits)

lemma spill_keeps:
  assumes "spillToDiskLocked js io t m b = (b1, r)"
  shows "brk_ok b1 = brk_ok b" "backlog b1 = backlog b" "brDelayed b1 = brDelayed b" "brPending b1 = brPending b"
    "brDeadLetters b1 = brDeadLetters b" "brQueues b1 = brQueues b" "brStore b1 = brStore b"
  using assms by (auto simp: spillToDiskLocked_def Let_def split: option.splits if_splits)

text \<open>When the storage takes the message: there is none, or the message encodes and the write succeeds.\<close>

definition storable_in :: "('a codec_scheme) \<Rightarrow> env \<Rightarrow> message \<Rightarrow> broker \<Rightarrow> bool" where
  "storable_in js e m b =
     (case brStore b of None \<Rightarrow> True | Some w \<Rightarrow> \<not> walErr w \<and> envOut e = WriteOk \<and> cEncode js m \<noteq> None)"

lemma store_message_ok: "storable_in js e m b \<Longrightarrow> \<exists>b1. store_message js e m b = (b1, Inr ())"
  by (auto simp: storable_in_def store_message_def wal_Write_def writeRecord_def split: option.splits)

lemma store_message_fail: "\<not> storable_in js e m b \<Longrightarrow> \<exists>b1. store_message js e m b = (b1, Inl StorageWrite)"
  by (auto simp: storable_in_def store_message_def wal_Write_def writeRecord_def split: option.splits write_outcome.splits)

definition spill_file :: "broker \<Rightarrow> string \<Rightarrow> bytes" where
  "spill_file b t = (case map_of (brSpill b) t of None \<Rightarrow> [] | Some f \<Rightarrow> f)"

abbreviation stamped :: "env \<Rightarrow> string \<Rightarrow> broker \<Rightarrow> message \<Rightarrow> message" where
  "stamped e t b m \<equiv> publish_stamp (envNow e) t b m"

lemma Publish_places_facts:
  fixes js :: "'a codec_scheme"
  assumes "brk_ok b" and "Publish js e t m b = (b', r)" and "envIo e = io_ok"
  shows "brk_ok b'"
    and "\<not> storable_in js e (stamped e t b m) b \<Longrightarrow>
      r = Inl StorageWrite \<and> backlog b' = backlog b \<and> brDelayed b' = brDelayed b \<and> brSpill b' = brSpill b"
    and "storable_in js e (stamped e t b m) b \<Longrightarrow> mDeliverAt (stamped e t b m) > envNow e \<Longrightarrow>
      r = Inr () \<and> backlog b' = backlog b \<and> brDelayed b' = brDelayed b @ [stamped e t b m] \<and> brSpill b' = brSpill b"
    and "storable_in js e (stamped e t b m) b \<Longrightarrow> \<not> mDeliverAt (stamped e t b m) > envNow e \<Longrightarrow>
      has_room b (stamped e t b m) (backlog b t) \<Longrightarrow>
      r = Inr () \<and> backlog b' = (backlog b)(t := prio_insert (stamped e t b m) (backlog b t)) \<and>
      brDelayed b' = brDelayed b \<and> brSpill b' = brSpill b"
    and "storable_in js e (stamped e t b m) b \<Longrightarrow> \<not> mDeliverAt (stamped e t b m) > envNow e \<Longrightarrow>
      \<not> has_room b (stamped e t b m) (backlog b t) \<Longrightarrow> cEncode js (stamped e t b m) = Some d \<Longrightarrow>
      r = Inr () \<and> backlog b' = backlog b \<and> brDelayed b' = brDelayed b \<and>
      spill_file b' t = spill_file b t @ put32 (of_nat (length d)) @ d"
proof -
  let ?m = "publish_stamp (envNow e) t b m"
  obtain b1 r1 where s1: "store_message js e ?m b = (b1, r1)" by (cases "store_message js e ?m b")
  note k1 = store_message_keeps [OF s1]
  obtain b2 ok where p: "push_queue t ?m b1 = (b2, ok)" by (cases "push_queue t ?m b1")
  have ok1: "brk_ok b1" using k1(1) assms(1) by simp
  note k2 = push_queue_ok [OF ok1 p]
  have keep2: "brDelayed b2 = brDelayed b" "brSpill b2 = brSpill b"
    using k1(3,4) by (subst k2(4), simp)+
  obtain b3 r3 where s3: "spillToDiskLocked js (envIo e) t ?m b2 = (b3, r3)" by (cases "spillToDiskLocked js (envIo e) t ?m b2")
  note k3 = spill_keeps [OF s3]
  have P: "Publish js e t m b =
      (case r1 of Inl err \<Rightarrow> (b1, Inl err)
       | Inr _ \<Rightarrow> if mDeliverAt ?m > envNow e then (b1\<lparr>brDelayed := brDelayed b1 @ [?m]\<rparr>, Inr ())
                 else if ok then (b2, Inr ()) else (b3, r3))"
    unfolding Publish_def Let_def s1 by (simp add: p s3 split: sum.splits)
  show "brk_ok b'" using P assms(2) ok1 k2(1) k3(1) by (auto split: sum.splits if_splits)
  show "r = Inl StorageWrite \<and> backlog b' = backlog b \<and> brDelayed b' = brDelayed b \<and> brSpill b' = brSpill b"
    if "\<not> storable_in js e (stamped e t b m) b"
    using store_message_fail [of js e ?m b] that s1 P assms(2) k1  by auto
  have r1: "r1 = Inr ()" if "storable_in js e (stamped e t b m) b"
    using store_message_ok [of js e ?m b] that s1  by simp
  show "r = Inr () \<and> backlog b' = backlog b \<and> brDelayed b' = brDelayed b @ [stamped e t b m] \<and> brSpill b' = brSpill b"
    if "storable_in js e (stamped e t b m) b" "mDeliverAt (stamped e t b m) > envNow e"
    using r1 [OF that(1)] that(2) P assms(2) k1  by auto
  show "r = Inr () \<and> backlog b' = (backlog b)(t := prio_insert (stamped e t b m) (backlog b t)) \<and>
      brDelayed b' = brDelayed b \<and> brSpill b' = brSpill b"
    if "storable_in js e (stamped e t b m) b" "\<not> mDeliverAt (stamped e t b m) > envNow e"
      "has_room b (stamped e t b m) (backlog b t)"
    using r1 [OF that(1)] that(2,3) P assms(2) k1 k2 keep2  by (auto simp: has_room_def)
  show "r = Inr () \<and> backlog b' = backlog b \<and> brDelayed b' = brDelayed b \<and>
      spill_file b' t = spill_file b t @ put32 (of_nat (length d)) @ d"
    if "storable_in js e (stamped e t b m) b" "\<not> mDeliverAt (stamped e t b m) > envNow e"
      "\<not> has_room b (stamped e t b m) (backlog b t)" "cEncode js (stamped e t b m) = Some d"
  proof -
    have "\<not> ok" using that(3) k2(2) k1(2,5)  by (simp add: has_room_def)
    moreover have "r3 = Inr () \<and> spill_file b3 t = spill_file b t @ put32 (of_nat (length d)) @ d"
      using s3 that(4) assms(3) keep2(2)
      by (auto simp: spillToDiskLocked_def spill_file_def Let_def update_conv')
    ultimately show ?thesis
      using r1 [OF that(1)] that(2) P assms(2) k1 k2(3) k3 keep2  by auto
  qed
qed


text \<open>
  C12: A published message ends in exactly one place: refused when the storage refuses it; among the
  delayed messages when its delivery time is ahead; in its queue behind every message of at least
  its priority when there is room; and otherwise at the end of the spill file of its topic.
\<close>

theorem Publish_places:
  fixes js :: "'a codec_scheme"
  assumes "brk_ok b" and "Publish js e t m b = (b', r)" and "envIo e = io_ok"
  shows "brk_ok b' \<and>
    (\<not> storable_in js e (stamped e t b m) b \<longrightarrow>
      r = Inl StorageWrite \<and> backlog b' = backlog b \<and> brDelayed b' = brDelayed b \<and> brSpill b' = brSpill b) \<and>
    (storable_in js e (stamped e t b m) b \<longrightarrow> mDeliverAt (stamped e t b m) > envNow e \<longrightarrow>
      r = Inr () \<and> backlog b' = backlog b \<and> brDelayed b' = brDelayed b @ [stamped e t b m] \<and> brSpill b' = brSpill b) \<and>
    (storable_in js e (stamped e t b m) b \<longrightarrow> \<not> mDeliverAt (stamped e t b m) > envNow e \<longrightarrow>
      has_room b (stamped e t b m) (backlog b t) \<longrightarrow>
      r = Inr () \<and> backlog b' = (backlog b)(t := prio_insert (stamped e t b m) (backlog b t)) \<and>
      brDelayed b' = brDelayed b \<and> brSpill b' = brSpill b) \<and>
    (storable_in js e (stamped e t b m) b \<longrightarrow> \<not> mDeliverAt (stamped e t b m) > envNow e \<longrightarrow>
      \<not> has_room b (stamped e t b m) (backlog b t) \<longrightarrow> cEncode js (stamped e t b m) = Some d \<longrightarrow>
      r = Inr () \<and> backlog b' = backlog b \<and> brDelayed b' = brDelayed b \<and>
      spill_file b' t = spill_file b t @ put32 (of_nat (length d)) @ d)"
  by (assumption | rule Publish_places_facts [OF assms] | rule impI | rule conjI)+

definition sample_env :: env where
  "sample_env = \<lparr>envNow = 100, envOut = WriteOk, envIo = io_ok\<rparr>"

lemma sample_env_io: "envIo sample_env = io_ok"
  by (simp add: sample_env_def)

definition sample_broker :: broker where
  "sample_broker = broker_New sample_env
     \<lparr>cfMaxRetry = 2, cfAckTimeout = 30, cfQueueCap = 1, cfStorage = None, cfThreshold = 0\<rparr>"

lemma brk_ok_New: "cfQueueCap cfg \<le> 2 ^ 32 \<Longrightarrow> brk_ok (broker_New e cfg)"
  by (simp add: brk_ok_def broker_New_def)

lemma backlog_New: "backlog (broker_New e cfg) t = []" "dead_backlog (broker_New e cfg) t = []"
  by (simp_all add: backlog_def dead_backlog_def broker_New_def)

lemma sample_broker_ok: "brk_ok sample_broker" "backlog sample_broker t = []" "dead_backlog sample_broker t = []"
    "broker_cap sample_broker = 1"
proof -
  have "nextPowerOfTwo 1 = 1" by code_simp
  then show "brk_ok sample_broker" "backlog sample_broker t = []" "dead_backlog sample_broker t = []"
      "broker_cap sample_broker = 1"
    unfolding sample_broker_def by (simp_all add: brk_ok_def backlog_def dead_backlog_def broker_cap_def broker_New_def)
qed

theorem Publish_places_witness:
  "backlog (fst (Publish sample_codec sample_env ''orders'' sample_message sample_broker)) ''orders'' =
     [sample_message\<lparr>mMaxRetry := 2\<rparr>]"
proof -
  obtain b r where p: "Publish sample_codec sample_env ''orders'' sample_message sample_broker = (b, r)"
    by (cases "Publish sample_codec sample_env ''orders'' sample_message sample_broker")
  have st: "stamped sample_env ''orders'' sample_broker sample_message = sample_message\<lparr>mMaxRetry := 2\<rparr>"
    by (simp add: publish_stamp_def Let_def sample_message_def NewMessage_def sample_broker_def broker_New_def)
  have "storable_in sample_codec sample_env (sample_message\<lparr>mMaxRetry := 2\<rparr>) sample_broker"
    by (simp add: storable_in_def sample_broker_def broker_New_def)
  moreover have "has_room sample_broker (sample_message\<lparr>mMaxRetry := 2\<rparr>) (backlog sample_broker ''orders'')"
    by (simp add: has_room_def sample_broker_ok)
  moreover have "\<not> mDeliverAt (sample_message\<lparr>mMaxRetry := 2\<rparr>) > envNow sample_env"
    by (simp add: sample_message_def NewMessage_def sample_env_def)
  ultimately have "backlog b = (backlog sample_broker)(''orders'' := prio_insert (sample_message\<lparr>mMaxRetry := 2\<rparr>) [])"
    using Publish_places [THEN conjunct2, THEN conjunct2, THEN conjunct2, THEN conjunct1, rule_format (no_asm), OF sample_broker_ok(1) p sample_env_io, unfolded st] by (simp add: sample_broker_ok)
  then show ?thesis using p by (simp add: prio_insert_def)
qed


subsection \<open>Consuming\<close>

definition is_expired :: "int \<Rightarrow> message \<Rightarrow> bool" where
  "is_expired now m \<longleftrightarrow> mExpiresAt m > 0 \<and> now > mExpiresAt m"

lemma skip_expired_ok:
  "prio_state cap q ms \<Longrightarrow> length ms < n \<Longrightarrow> skip_expired n now q = (q', r) \<Longrightarrow>
     r = (case dropWhile (is_expired now) ms of [] \<Rightarrow> None | m # _ \<Rightarrow> Some m) \<and>
     prio_state cap q' (tl (dropWhile (is_expired now) ms))"
proof (induction n arbitrary: q ms)
  case (Suc n)
  obtain q1 r1 where t: "pq_TryPop q = (q1, r1)" by (cases "pq_TryPop q")
  have step: "r1 = snd (fifo_pop ms)" "prio_state cap q1 (fst (fifo_pop ms))"
    using prio_step_pop [OF Suc.prems(1)] t by simp_all
  show ?case
  proof (cases ms)
    case Nil
    then show ?thesis using t step Suc.prems(3) by (simp add: fifo_pop_def)
  next
    case (Cons m ms')
    then have m: "r1 = Some m" "prio_state cap q1 ms'" using step by (simp_all add: fifo_pop_def)
    show ?thesis
    proof (cases "is_expired now m")
      case True
      then show ?thesis using Suc.IH [OF m(2)] Suc.prems(2,3) t m(1) Cons by (simp add: is_expired_def)
    next
      case False
      then show ?thesis using Suc.prems(3) t m Cons by (auto simp: is_expired_def)
    qed
  qed
qed simp

lemma TryConsume_ok:
  assumes "brk_ok b" and "TryConsume now t b = (b', r)"
  shows "brk_ok b'"
    and "r = (case dropWhile (is_expired now) (backlog b t) of [] \<Rightarrow> None | m # _ \<Rightarrow> Some m)"
    and "backlog b' = (backlog b)(t := tl (dropWhile (is_expired now) (backlog b t)))"
    and "r = None \<Longrightarrow> brPending b' = brPending b"
    and "r = Some m \<Longrightarrow> map_of (brPending b') = (map_of (brPending b))(mID m \<mapsto>
      \<lparr>pmMessage = m, pmQueueName = t, pmDeliverAt = now, pmAckDeadline = now + brAckTimeout b\<rparr>)"
    and "brDeadLetters b' = brDeadLetters b" and "broker_cap b' = broker_cap b"
proof -
  obtain b1 q where g: "getOrCreateQueueLocked t b = (b1, q)" by (cases "getOrCreateQueueLocked t b")
  note g' = getOrCreateQueue_ok [OF assms(1) g]
  have b1: "brPending b1 = brPending b" "brAckTimeout b1 = brAckTimeout b" by (subst g'(5), simp)+
  obtain q' r' where sk: "skip_expired (Suc (nat (pqSize q))) now q = (q', r')"
    by (cases "skip_expired (Suc (nat (pqSize q))) now q")
  have "pqSize q = int (length (backlog b t))" using g'(3) by (simp add: prio_state_def prio_rep_def)
  then have len: "length (backlog b t) < Suc (nat (pqSize q))" by simp
  let ?live = "dropWhile (is_expired now) (backlog b t)"
  have skipped: "r' = (case ?live of [] \<Rightarrow> None | m # _ \<Rightarrow> Some m) \<and> prio_state (broker_cap b1) q' (tl ?live)"
    unfolding g'(6) by (rule skip_expired_ok [OF g'(3) len sk])
  note res = conjunct1 [OF skipped] conjunct2 [OF skipped]
  let ?b2 = "b1\<lparr>brQueues := AList.update t q' (brQueues b1)\<rparr>"
  have eq: "r = r'" "b' = (case r' of None \<Rightarrow> ?b2 | Some m \<Rightarrow> track_pending now t m ?b2)"
    using assms(2) g sk by (auto simp: TryConsume_def getOrCreateQueue_def Let_def split: option.splits)
  note ok2 = brk_ok_set_queue [OF g'(1) res(2)]
  show "brk_ok b'" using ok2(1) [of t] eq(2)
    by (auto simp: track_pending_def brk_ok_def broker_cap_def distinct_update split: option.splits)
  show "r = (case ?live of [] \<Rightarrow> None | m # _ \<Rightarrow> Some m)" using eq(1) res(1) by simp
  show "backlog b' = (backlog b)(t := tl ?live)"
    using ok2(2) [of t] eq(2) g'(2) by (auto simp: track_pending_def split: option.splits)
  show "r = None \<Longrightarrow> brPending b' = brPending b" using eq b1 by simp
  show "r = Some m \<Longrightarrow> map_of (brPending b') = (map_of (brPending b))(mID m \<mapsto>
      \<lparr>pmMessage = m, pmQueueName = t, pmDeliverAt = now, pmAckDeadline = now + brAckTimeout b\<rparr>)"
    using eq b1 by (auto simp: track_pending_def update_conv')
  have "brDeadLetters b1 = brDeadLetters b" "brQueueCap b1 = brQueueCap b" by (subst g'(5), simp)+
  then show "brDeadLetters b' = brDeadLetters b" "broker_cap b' = broker_cap b"
    using eq(2) by (auto simp: track_pending_def broker_cap_def split: option.splits)
qed

lemma Nack_ok:
  assumes "brk_ok b" and "map_of (brPending b) i = Some pm" and "Nack i b = (b', r)"
  shows "brk_ok b'" and "brPending b' = AList.delete i (brPending b)"
    and "mRetry (pmMessage pm) \<ge> mMaxRetry (pmMessage pm) \<Longrightarrow>
      r = Inr () \<and> backlog b' = backlog b \<and>
      dead_backlog b' (pmQueueName pm) = dead_backlog b (pmQueueName pm) @
        (if int (length (dead_backlog b (pmQueueName pm))) < broker_cap b
         then [(pmMessage pm)\<lparr>mRetry := mRetry (pmMessage pm) + 1\<rparr>] else [])"
    and "mRetry (pmMessage pm) < mMaxRetry (pmMessage pm) \<Longrightarrow> has_room b (pmMessage pm) (backlog b (pmQueueName pm)) \<Longrightarrow>
      r = Inr () \<and> brDeadLetters b' = brDeadLetters b \<and>
      backlog b' = (backlog b)(pmQueueName pm :=
        prio_insert ((pmMessage pm)\<lparr>mRetry := mRetry (pmMessage pm) + 1\<rparr>) (backlog b (pmQueueName pm)))"
    and "mRetry (pmMessage pm) < mMaxRetry (pmMessage pm) \<Longrightarrow> \<not> has_room b (pmMessage pm) (backlog b (pmQueueName pm)) \<Longrightarrow>
      r = Inl (QueueFull (pmQueueName pm)) \<and> brDeadLetters b' = brDeadLetters b \<and> backlog b' = backlog b"
proof -
  let ?t = "pmQueueName pm" and ?m = "(pmMessage pm)\<lparr>mRetry := mRetry (pmMessage pm) + 1\<rparr>"
  let ?b = "b\<lparr>brPending := AList.delete i (brPending b)\<rparr>"
  have ok: "brk_ok ?b" using assms(1) by (simp add: brk_ok_def broker_cap_def distinct_delete)
  have same: "dead_backlog ?b = dead_backlog b" "broker_cap ?b = broker_cap b"
    by (simp_all add: fun_eq_iff dead_backlog_def broker_cap_def)
  have room: "has_room ?b ?m ms = has_room b (pmMessage pm) ms" for ms by (simp add: has_room_def same)
  obtain d okd where d: "push_dead_letter ?t ?m ?b = (d, okd)" by (cases "push_dead_letter ?t ?m ?b")
  obtain p okp where p: "push_queue ?t ?m ?b = (p, okp)" by (cases "push_queue ?t ?m ?b")
  note kd = push_dead_letter_ok [OF ok d] and kp = push_queue_ok [OF ok p]
  have kd4: "brPending d = AList.delete i (brPending b)" "backlog d = backlog b" by (subst kd(4), simp)+
  have kp4: "brPending p = AList.delete i (brPending b)" "brDeadLetters p = brDeadLetters b" by (subst kp(4), simp)+
  have N: "Nack i b = (if mRetry (pmMessage pm) + 1 > mMaxRetry (pmMessage pm) then (d, Inr ())
      else (p, if okp then Inr () else Inl (QueueFull ?t)))"
    using assms(2) d p by (simp add: Nack_def retryOrDeadLetter_def Let_def)
  show "brk_ok b'" "brPending b' = AList.delete i (brPending b)"
    using N assms(3) kd(1) kp(1) kd4 kp4 by (auto split: if_splits)
  show "r = Inr () \<and> backlog b' = backlog b \<and>
      dead_backlog b' ?t = dead_backlog b ?t @ (if int (length (dead_backlog b ?t)) < broker_cap b then [?m] else [])"
    if "mRetry (pmMessage pm) \<ge> mMaxRetry (pmMessage pm)"
    using that N assms(3) kd(2,3) kd4 same by auto
  show "r = Inr () \<and> brDeadLetters b' = brDeadLetters b \<and> backlog b' = (backlog b)(?t := prio_insert ?m (backlog b ?t))"
    if "mRetry (pmMessage pm) < mMaxRetry (pmMessage pm)" "has_room b (pmMessage pm) (backlog b ?t)"
    using that N assms(3) kp(2,3) kp4 room by auto
  show "r = Inl (QueueFull ?t) \<and> brDeadLetters b' = brDeadLetters b \<and> backlog b' = backlog b"
    if "mRetry (pmMessage pm) < mMaxRetry (pmMessage pm)" "\<not> has_room b (pmMessage pm) (backlog b ?t)"
    using that N assms(3) kp(2,3) kp4 room by auto
qed

lemma push_queue_cap: "push_queue t m b = (b', ok) \<Longrightarrow> brQueueCap b' = brQueueCap b"
  by (auto simp: push_queue_def getOrCreateQueueLocked_def Let_def split: prod.splits option.splits)

lemma push_dead_letter_cap: "push_dead_letter t m b = (b', ok) \<Longrightarrow> brQueueCap b' = brQueueCap b"
  by (auto simp: push_dead_letter_def getOrCreateDeadLetter_def getOrCreateDeadLetterLocked_def Let_def
      split: prod.splits option.splits)

lemma Nack_cap:
  assumes "Nack i b = (b', r)"
  shows "brQueueCap b' = brQueueCap b"
proof (cases "map_of (brPending b) i")
  case (Some pm)
  let ?b = "b\<lparr>brPending := AList.delete i (brPending b)\<rparr>"
    and ?m = "(pmMessage pm)\<lparr>mRetry := mRetry (pmMessage pm) + 1\<rparr>"
  obtain d okd p okp where d: "push_dead_letter (pmQueueName pm) ?m ?b = (d, okd)"
      and p: "push_queue (pmQueueName pm) ?m ?b = (p, okp)" by (meson surj_pair)
  then show ?thesis
    using assms Some push_dead_letter_cap [OF d] push_queue_cap [OF p]
    by (auto simp: Nack_def retryOrDeadLetter_def Let_def split: if_splits bool.splits)
qed (use assms in \<open>simp add: Nack_def\<close>)

lemma TryConsume_exact_facts:
  assumes "brk_ok b" and "TryConsume now t b = (b', r)"
  shows "brk_ok b'"
    and "r = (case dropWhile (is_expired now) (backlog b t) of [] \<Rightarrow> None | m # _ \<Rightarrow> Some m)"
    and "backlog b' = (backlog b)(t := tl (dropWhile (is_expired now) (backlog b t)))"
    and "r = None \<Longrightarrow> brPending b' = brPending b"
    and "r = Some m \<Longrightarrow> map_of (brPending b') = (map_of (brPending b))(mID m \<mapsto>
      \<lparr>pmMessage = m, pmQueueName = t, pmDeliverAt = now, pmAckDeadline = now + brAckTimeout b\<rparr>)"
  by (fact TryConsume_ok [OF assms])+

text \<open>
  C13: \<open>TryConsume\<close> drops the expired messages at the front of the queue and hands out the first one
  that has not expired, which is then pending until its deadline; it returns nothing exactly
  when no such message is left.
\<close>

theorem TryConsume_exact:
  assumes "brk_ok b" and "TryConsume now t b = (b', r)"
  shows "brk_ok b' \<and>
    r = (case dropWhile (is_expired now) (backlog b t) of [] \<Rightarrow> None | m # _ \<Rightarrow> Some m) \<and>
    backlog b' = (backlog b)(t := tl (dropWhile (is_expired now) (backlog b t))) \<and>
    (r = None \<longrightarrow> brPending b' = brPending b) \<and>
    (r = Some m \<longrightarrow> map_of (brPending b') = (map_of (brPending b))(mID m \<mapsto>
      \<lparr>pmMessage = m, pmQueueName = t, pmDeliverAt = now, pmAckDeadline = now + brAckTimeout b\<rparr>))"
  by (assumption | rule TryConsume_exact_facts [OF assms] | rule impI | rule conjI)+

lemma Nack_cases_facts:
  assumes "brk_ok b" and "map_of (brPending b) i = Some pm" and "Nack i b = (b', r)"
  shows "brk_ok b'" and "brPending b' = AList.delete i (brPending b)"
    and "mRetry (pmMessage pm) \<ge> mMaxRetry (pmMessage pm) \<Longrightarrow>
      r = Inr () \<and> backlog b' = backlog b \<and>
      dead_backlog b' (pmQueueName pm) = dead_backlog b (pmQueueName pm) @
        (if int (length (dead_backlog b (pmQueueName pm))) < broker_cap b
         then [(pmMessage pm)\<lparr>mRetry := mRetry (pmMessage pm) + 1\<rparr>] else [])"
    and "mRetry (pmMessage pm) < mMaxRetry (pmMessage pm) \<Longrightarrow> has_room b (pmMessage pm) (backlog b (pmQueueName pm)) \<Longrightarrow>
      r = Inr () \<and> brDeadLetters b' = brDeadLetters b \<and>
      backlog b' = (backlog b)(pmQueueName pm :=
        prio_insert ((pmMessage pm)\<lparr>mRetry := mRetry (pmMessage pm) + 1\<rparr>) (backlog b (pmQueueName pm)))"
    and "mRetry (pmMessage pm) < mMaxRetry (pmMessage pm) \<Longrightarrow> \<not> has_room b (pmMessage pm) (backlog b (pmQueueName pm)) \<Longrightarrow>
      r = Inl (QueueFull (pmQueueName pm)) \<and> brDeadLetters b' = brDeadLetters b \<and> backlog b' = backlog b"
  by (fact Nack_ok [OF assms])+

text \<open>
  C3: A message that is not acknowledged goes back: its retry counter grows by one; past the limit it
  goes to the end of the dead letters, otherwise behind the messages of at least its priority. In
  either case it leaves the pending table first, so when the target is full it is in no queue any
  more; a retry reports this, a dead letter does not.
\<close>

theorem Nack_cases:
  assumes "brk_ok b" and "map_of (brPending b) i = Some pm" and "Nack i b = (b', r)"
  shows "brk_ok b' \<and>
    brPending b' = AList.delete i (brPending b) \<and>
    (mRetry (pmMessage pm) \<ge> mMaxRetry (pmMessage pm) \<longrightarrow>
      r = Inr () \<and> backlog b' = backlog b \<and>
      dead_backlog b' (pmQueueName pm) = dead_backlog b (pmQueueName pm) @
        (if int (length (dead_backlog b (pmQueueName pm))) < broker_cap b
         then [(pmMessage pm)\<lparr>mRetry := mRetry (pmMessage pm) + 1\<rparr>] else [])) \<and>
    (mRetry (pmMessage pm) < mMaxRetry (pmMessage pm) \<longrightarrow> has_room b (pmMessage pm) (backlog b (pmQueueName pm)) \<longrightarrow>
      r = Inr () \<and> brDeadLetters b' = brDeadLetters b \<and>
      backlog b' = (backlog b)(pmQueueName pm :=
        prio_insert ((pmMessage pm)\<lparr>mRetry := mRetry (pmMessage pm) + 1\<rparr>) (backlog b (pmQueueName pm)))) \<and>
    (mRetry (pmMessage pm) < mMaxRetry (pmMessage pm) \<longrightarrow> \<not> has_room b (pmMessage pm) (backlog b (pmQueueName pm)) \<longrightarrow>
      r = Inl (QueueFull (pmQueueName pm)) \<and> brDeadLetters b' = brDeadLetters b \<and> backlog b' = backlog b)"
  by (assumption | rule Nack_cases_facts [OF assms] | rule impI | rule conjI)+

definition consumed_broker :: broker where
  "consumed_broker = sample_broker\<lparr>brPending := [(''m1'', \<lparr>pmMessage = sample_message\<lparr>mMaxRetry := 2\<rparr>,
     pmQueueName = ''orders'', pmDeliverAt = 100, pmAckDeadline = 130\<rparr>)]\<rparr>"

definition queued_broker :: broker where
  "queued_broker = fst (push_queue ''orders'' (sample_message\<lparr>mMaxRetry := 2\<rparr>) sample_broker)"

lemma queued_broker_ok: "brk_ok queued_broker" "backlog queued_broker ''orders'' = [sample_message\<lparr>mMaxRetry := 2\<rparr>]"
    "dead_backlog queued_broker ''orders'' = []" "broker_cap queued_broker = 1"
proof -
  let ?m = "sample_message\<lparr>mMaxRetry := 2\<rparr>"
  obtain b ok where p: "push_queue ''orders'' ?m sample_broker = (b, ok)" by (cases "push_queue ''orders'' ?m sample_broker")
  note k = push_queue_ok [OF sample_broker_ok(1) p]
  have "ok" using k(2) by (simp add: has_room_def sample_broker_ok)
  then show "brk_ok queued_broker" "backlog queued_broker ''orders'' = [?m]"
    using k p by (simp_all add: queued_broker_def sample_broker_ok prio_insert_def)
  have "brDeadLetters b = brDeadLetters sample_broker" "brQueueCap b = brQueueCap sample_broker" by (subst k(4), simp)+
  then show "dead_backlog queued_broker ''orders'' = []" "broker_cap queued_broker = 1"
    using p sample_broker_ok(3) [of "''orders''"] sample_broker_ok(4)
    by (simp_all add: queued_broker_def dead_backlog_def broker_cap_def)
qed

theorem TryConsume_exact_witness:
  "snd (TryConsume 110 ''orders'' queued_broker) = Some (sample_message\<lparr>mMaxRetry := 2\<rparr>) \<and>
   backlog (fst (TryConsume 110 ''orders'' queued_broker)) ''orders'' = []"
proof -
  obtain b r where t: "TryConsume 110 ''orders'' queued_broker = (b, r)" by (cases "TryConsume 110 ''orders'' queued_broker")
  have "\<not> is_expired 110 (sample_message\<lparr>mMaxRetry := 2\<rparr>)" by (simp add: is_expired_def sample_message_def NewMessage_def)
  then show ?thesis using TryConsume_exact [THEN conjunct2, THEN conjunct1, OF queued_broker_ok(1) t] TryConsume_exact [THEN conjunct2, THEN conjunct2, THEN conjunct1, OF queued_broker_ok(1) t] t by (simp add: queued_broker_ok)
qed

theorem Nack_cases_witness:
  "backlog (fst (Nack ''m1'' consumed_broker)) ''orders'' = [sample_message\<lparr>mMaxRetry := 2, mRetry := 1\<rparr>]"
proof -
  obtain b r where n: "Nack ''m1'' consumed_broker = (b, r)" by (cases "Nack ''m1'' consumed_broker")
  let ?pm = "\<lparr>pmMessage = sample_message\<lparr>mMaxRetry := 2\<rparr>, pmQueueName = ''orders'', pmDeliverAt = 100, pmAckDeadline = 130\<rparr>"
  have ok: "brk_ok consumed_broker" "backlog consumed_broker = backlog sample_broker" "broker_cap consumed_broker = 1"
    using sample_broker_ok(1,4) by (simp_all add: consumed_broker_def brk_ok_def broker_cap_def)
  have pm: "map_of (brPending consumed_broker) ''m1'' = Some ?pm" by (simp add: consumed_broker_def)
  have "has_room consumed_broker (sample_message\<lparr>mMaxRetry := 2\<rparr>) []" by (simp add: has_room_def ok(3))
  then have "backlog b = (backlog sample_broker)(''orders'' := [sample_message\<lparr>mMaxRetry := 2, mRetry := 1\<rparr>])"
    using Nack_cases [THEN conjunct2, THEN conjunct2, THEN conjunct2, THEN conjunct1, rule_format (no_asm), OF ok(1) pm n]
    by (simp add: ok(2) sample_broker_ok prio_insert_def sample_message_def NewMessage_def)
  then show ?thesis using n by simp
qed

subsection \<open>Poison messages\<close>

text \<open>Rounds of consuming a message of a queue and refusing it.\<close>

fun refuse_rounds :: "nat \<Rightarrow> int \<Rightarrow> string \<Rightarrow> broker \<Rightarrow> broker \<times> message list" where
  "refuse_rounds 0 now t b = (b, [])"
| "refuse_rounds (Suc n) now t b =
     (case TryConsume now t b of
        (b1, None) \<Rightarrow> (b1, [])
      | (b1, Some m) \<Rightarrow>
          (case refuse_rounds n now t (fst (Nack (mID m) b1)) of (b2, ms) \<Rightarrow> (b2, m # ms)))"

lemma refuse_round:
  assumes "brk_ok b" and "backlog b t = [m]" and "\<not> is_expired now m"
  obtains b1 b2 r where "TryConsume now t b = (b1, Some m)" and "Nack (mID m) b1 = (b2, r)" and "brk_ok b2"
    and "broker_cap b2 = broker_cap b" and "map_of (brPending b2) (mID m) = None"
    and "mRetry m \<ge> mMaxRetry m \<Longrightarrow> backlog b2 t = [] \<and> dead_backlog b2 t = dead_backlog b t @
        (if int (length (dead_backlog b t)) < broker_cap b then [m\<lparr>mRetry := mRetry m + 1\<rparr>] else [])"
    and "mRetry m < mMaxRetry m \<Longrightarrow> 0 < broker_cap b \<Longrightarrow>
        backlog b2 t = [m\<lparr>mRetry := mRetry m + 1\<rparr>] \<and> dead_backlog b2 t = dead_backlog b t"
proof -
  obtain b1 r1 where t: "TryConsume now t b = (b1, r1)" by (cases "TryConsume now t b")
  note c = TryConsume_ok [OF assms(1) t]
  have r1: "r1 = Some m" and bl: "backlog b1 t = []" using c(2,3) assms(2,3) by simp_all
  let ?pm = "\<lparr>pmMessage = m, pmQueueName = t, pmDeliverAt = now, pmAckDeadline = now + brAckTimeout b\<rparr>"
  have pm: "map_of (brPending b1) (mID m) = Some ?pm" using c(5) [OF r1] by simp
  have dead: "dead_backlog b1 = dead_backlog b" using c(6) by (simp add: fun_eq_iff dead_backlog_def)
  obtain b2 r where n: "Nack (mID m) b1 = (b2, r)" by (cases "Nack (mID m) b1")
  note k = Nack_ok [OF c(1) pm n]
  have none: "map_of (brPending b2) (mID m) = None" using k(2) by (simp add: delete_conv')
  show thesis
  proof (rule that [OF t [unfolded r1] n k(1) _ none])
    have "brQueueCap b2 = brQueueCap b1" by (rule Nack_cap [OF n])
    then show "broker_cap b2 = broker_cap b" using c(7) by (simp add: broker_cap_def)
    show "backlog b2 t = [] \<and> dead_backlog b2 t = dead_backlog b t @
        (if int (length (dead_backlog b t)) < broker_cap b then [m\<lparr>mRetry := mRetry m + 1\<rparr>] else [])"
      if "mRetry m \<ge> mMaxRetry m"
      using k(3) that bl dead c(7) by simp
    show "backlog b2 t = [m\<lparr>mRetry := mRetry m + 1\<rparr>] \<and> dead_backlog b2 t = dead_backlog b t"
      if "mRetry m < mMaxRetry m" "0 < broker_cap b"
    proof -
      have "backlog b2 t = [m\<lparr>mRetry := mRetry m + 1\<rparr>]" "brDeadLetters b2 = brDeadLetters b1"
        using k(4) that bl c(7) by (simp_all add: has_room_def prio_insert_def)
      moreover from this have "dead_backlog b2 = dead_backlog b1" by (simp add: fun_eq_iff dead_backlog_def)
      ultimately show ?thesis using dead by simp
    qed
  qed
qed

lemma refuse_rounds_dead:
  "brk_ok b \<Longrightarrow> backlog b t = [m] \<Longrightarrow> \<not> is_expired now m \<Longrightarrow> mMaxRetry m = mRetry m + int k \<Longrightarrow>
   int (length (dead_backlog b t)) < broker_cap b \<Longrightarrow>
   \<exists>b' ms. refuse_rounds (Suc k) now t b = (b', ms) \<and> length ms = Suc k \<and> brk_ok b' \<and> backlog b' t = [] \<and>
     dead_backlog b' t = dead_backlog b t @ [m\<lparr>mRetry := mMaxRetry m + 1\<rparr>] \<and> map_of (brPending b') (mID m) = None"
proof (induction k arbitrary: b m)
  case 0
  obtain b1 b2 r where c: "TryConsume now t b = (b1, Some m)" "Nack (mID m) b1 = (b2, r)" "brk_ok b2"
      "map_of (brPending b2) (mID m) = None" "backlog b2 t = []"
      "dead_backlog b2 t = dead_backlog b t @ [m\<lparr>mRetry := mRetry m + 1\<rparr>]"
    by (rule refuse_round [OF 0(1-3)]) (use 0(4,5) in auto)
  then show ?case using 0(4) by simp
next
  case (Suc k)
  have cap: "0 < broker_cap b" using Suc.prems(5) by linarith
  obtain b1 b2 r where c: "TryConsume now t b = (b1, Some m)" "Nack (mID m) b1 = (b2, r)" "brk_ok b2"
      "broker_cap b2 = broker_cap b" "backlog b2 t = [m\<lparr>mRetry := mRetry m + 1\<rparr>]" "dead_backlog b2 t = dead_backlog b t"
    by (rule refuse_round [OF Suc.prems(1-3)]) (use Suc.prems(4) cap in auto)
  have "\<not> is_expired now (m\<lparr>mRetry := mRetry m + 1\<rparr>)" using Suc.prems(3) by (simp add: is_expired_def)
  from Suc.IH [OF c(3,5) this] show ?case using Suc.prems(4,5) c(1,2,4,6) by auto
qed



end
