(* ===== verification/Broker_Invariant.thy ===== *)
theory Broker_Invariant
  imports Broker_Contract
begin

section \<open>The broker keeps its queues well-formed\<close>

text \<open>
  Every operation of the broker keeps the well-formedness of its queues and of the pending table;
  the broker is a state machine whose steps are the calls of its clients, the ticks of the
  scheduler and the parts of a compaction, with any failing file operations.
\<close>

subsection \<open>Every operation keeps the broker well-formed\<close>

lemma Publish_brk_ok: "brk_ok b \<Longrightarrow> brk_ok (fst (Publish js e t m b))"
proof -
  assume ok: "brk_ok b"
  let ?m = "publish_stamp (envNow e) t b m"
  obtain b1 r1 where s1: "store_message js e ?m b = (b1, r1)" by (cases "store_message js e ?m b")
  have ok1: "brk_ok b1" using store_message_keeps(1) [OF s1] ok by simp
  obtain b2 okp where p: "push_queue t ?m b1 = (b2, okp)" by (cases "push_queue t ?m b1")
  obtain b3 r3 where s3: "spillToDiskLocked js (envIo e) t ?m b2 = (b3, r3)" by (cases "spillToDiskLocked js (envIo e) t ?m b2")
  show ?thesis
    using ok1 push_queue_ok(1) [OF ok1 p] spill_keeps(1) [OF s3] unfolding Publish_def Let_def s1
    by (auto simp: p s3 split: sum.splits bool.splits)
qed

lemma push_queue_brk_ok: "brk_ok b \<Longrightarrow> brk_ok (fst (push_queue t m b))"
  using push_queue_ok(1) by (cases "push_queue t m b") auto

lemma push_dead_letter_brk_ok: "brk_ok b \<Longrightarrow> brk_ok (fst (push_dead_letter t m b))"
  using push_dead_letter_ok(1) by (cases "push_dead_letter t m b") auto

lemma spill_brk_ok: "brk_ok (fst (spillToDiskLocked js io t m b)) = brk_ok b"
  using spill_keeps(1) [of js io t m b] by (cases "spillToDiskLocked js io t m b") auto

lemma store_message_brk_ok: "brk_ok (fst (store_message js e m b)) = brk_ok b"
  using store_message_keeps(1) [of js e m b] by (cases "store_message js e m b") auto

lemma push_or_spill_brk_ok:
  "brk_ok b \<Longrightarrow> brk_ok (case push_queue t m b of (b1, True) \<Rightarrow> b1 | (b1, False) \<Rightarrow> fst (spillToDiskLocked js io t m b1))"
  using push_queue_brk_ok [of b t m] by (cases "push_queue t m b") (simp add: spill_brk_ok split: bool.splits)

lemma IngestRecovered_brk_ok: "brk_ok b \<Longrightarrow> brk_ok (IngestRecovered js e m b)"
  using push_or_spill_brk_ok [of b js "envIo e" "mTopic m" m] by (simp add: IngestRecovered_def Let_def spillToDisk_def)

lemma push_durable_brk_ok: "brk_ok b \<Longrightarrow> brk_ok (push_durable js io topic m subs b)"
proof (induction subs arbitrary: b)
  case (Cons i subs)
  then show ?case using push_or_spill_brk_ok [of b js io "durable_queue_name topic i" m] by (simp add: Let_def)
qed simp

lemma getOrCreateTopic_brk_ok: "brk_ok (fst (getOrCreateTopicLocked n b)) = brk_ok b"
  by (simp add: getOrCreateTopicLocked_def Let_def split: option.splits)

lemma PublishTopic_brk_ok:
  assumes "brk_ok b"
  shows "brk_ok (fst (PublishTopic js e topic m b))"
proof -
  let ?m = "m\<lparr>mTopic := topic\<rparr>"
  obtain b1 r1 where s1: "store_message js e ?m b = (b1, r1)" by (cases "store_message js e ?m b")
  obtain b2 t where g: "getOrCreateTopicLocked topic b1 = (b2, t)" by (cases "getOrCreateTopicLocked topic b1")
  have "brk_ok b1" using store_message_brk_ok [of js e ?m b] s1 assms by simp
  moreover from this have "brk_ok b2" using getOrCreateTopic_brk_ok [of topic b1] g by simp
  ultimately show ?thesis
    unfolding PublishTopic_def Let_def s1 by (auto simp: g push_durable_brk_ok split: sum.splits prod.splits)
qed

lemma track_pending_brk_ok: "brk_ok b \<Longrightarrow> brk_ok (track_pending now t m b)"
  by (simp add: track_pending_def brk_ok_def broker_cap_def distinct_update)

lemma Consume_brk_ok:
  assumes "brk_ok b"
  shows "brk_ok (fst (Consume now t b))"
proof -
  obtain b1 q where g: "getOrCreateQueueLocked t b = (b1, q)" by (cases "getOrCreateQueueLocked t b")
  note g' = getOrCreateQueue_ok [OF assms g]
  have "fst (pq_Pop q) = fst (pq_TryPop q)" by (auto simp: pq_Pop_def pq_TryPop_def split: prod.splits)
  then have "prio_state (broker_cap b1) (fst (pq_Pop q)) (fst (fifo_pop (backlog b t)))"
    using prio_step_pop [OF g'(3)] g'(6) by simp
  from brk_ok_set_queue(1) [OF g'(1) this, of t] show ?thesis
    using g by (auto simp: Consume_def getOrCreateQueue_def Let_def track_pending_brk_ok
        split: prod.splits pop_result.splits option.splits)
qed

lemma spill_loop_step:
  assumes "\<not> pq_IsFull q" and "4 \<le> length bs" and "unat (get32 bs) \<le> length (drop 4 bs)"
  shows "spill_loop js q bs n =
     (case cDecode js (take (unat (get32 bs)) (drop 4 bs)) of
        None \<Rightarrow> spill_loop js q (drop (unat (get32 bs)) (drop 4 bs)) n
      | Some m \<Rightarrow>
          (case pq_Push m q of
             (q', True) \<Rightarrow> spill_loop js q' (drop (unat (get32 bs)) (drop 4 bs)) (n + 1)
           | (q', False) \<Rightarrow>
               (q', put32 (of_nat (length (take (unat (get32 bs)) (drop 4 bs)))) @ take (unat (get32 bs)) (drop 4 bs) @
                  drop (unat (get32 bs)) (drop 4 bs), n)))"
  using assms by (subst spill_loop.simps) (simp add: Let_def not_less del: drop_drop)

lemma spill_loop_stop:
  "\<not> (\<not> pq_IsFull q \<and> 4 \<le> length bs \<and> unat (get32 bs) \<le> length (drop 4 bs)) \<Longrightarrow> fst (spill_loop js q bs n) = q"
  by (subst spill_loop.simps) (auto simp: Let_def not_less)

lemma spill_loop_state:
  "prio_state cap q ms \<Longrightarrow> \<exists>ms'. prio_state cap (fst (spill_loop js q bs n)) ms'"
proof (induction "length bs" arbitrary: bs q ms n rule: less_induct)
  case less
  show ?case
  proof (cases "\<not> pq_IsFull q \<and> 4 \<le> length bs \<and> unat (get32 bs) \<le> length (drop 4 bs)")
    case True
    then have go: "\<not> pq_IsFull q" "4 \<le> length bs" "unat (get32 bs) \<le> length (drop 4 bs)" by blast+
    let ?rest = "drop (unat (get32 bs)) (drop 4 bs)"
    have short: "length ?rest < length bs" using go(2) by simp
    show ?thesis
    proof (cases "cDecode js (take (unat (get32 bs)) (drop 4 bs))")
      case None
      have "spill_loop js q bs n = spill_loop js q ?rest n" unfolding spill_loop_step [OF go] None option.case ..
      then show ?thesis using less.hyps [OF short less.prems] by metis
    next
      case (Some m)
      obtain q' ok where p: "pq_Push m q = (q', ok)" by (cases "pq_Push m q")
      have st: "prio_state cap q' (fst (prio_push cap m ms))" using prio_step_push [OF less.prems, of m] p by simp
      show ?thesis
      proof (cases ok)
        case True
        then have "spill_loop js q bs n = spill_loop js q' ?rest (n + 1)"
          unfolding spill_loop_step [OF go] Some option.case p prod.case by simp
        then show ?thesis using less.hyps [OF short st] by metis
      next
        case False
        then have "fst (spill_loop js q bs n) = q'"
          unfolding spill_loop_step [OF go] Some option.case p prod.case by simp
        then show ?thesis using st by metis
      qed
    qed
  next
    case False
    then show ?thesis using less.prems spill_loop_stop [OF False] by metis
  qed
qed

lemma processSpillFile_brk_ok:
  assumes "brk_ok b"
  shows "brk_ok (processSpillFile js io t b)"
proof (cases "map_of (brQueues b) t = None \<or> map_of (brSpill b) t = None")
  case False
  then obtain q f where q: "map_of (brQueues b) t = Some q" and f: "map_of (brSpill b) t = Some f" by auto
  obtain q' f' n where l: "spill_loop js q f 0 = (q', f', n)" by (cases "spill_loop js q f 0")
  obtain ms where "prio_state (broker_cap b) q' ms"
    using spill_loop_state [OF brk_ok_queue [OF assms q], of js f 0] l by auto
  from brk_ok_set_queue(1) [OF assms this, of t] show ?thesis
    using assms by (simp add: processSpillFile_def q f l Let_def)
qed (use assms in \<open>auto simp: processSpillFile_def split: option.splits\<close>)

lemma reload_topic_brk_ok: "brk_ok b \<Longrightarrow> brk_ok (reload_topic js io t b)"
  using getOrCreateQueue_ok(1) [of b t] processSpillFile_brk_ok [of _ js io t]
  by (auto simp: reload_topic_def getOrCreateQueue_def split: prod.splits)

lemma fold_brk_ok: "(\<And>x b. brk_ok b \<Longrightarrow> brk_ok (f x b)) \<Longrightarrow> brk_ok b \<Longrightarrow> brk_ok (fold f xs b)"
  by (induction xs arbitrary: b) auto

lemma reloadFromDisk_brk_ok: "brk_ok b \<Longrightarrow> brk_ok (reloadFromDisk js io b)"
  unfolding reloadFromDisk_def by (rule fold_brk_ok) (rule reload_topic_brk_ok)

lemma filter_pending_brk_ok: "brk_ok b \<Longrightarrow> brk_ok (b\<lparr>brPending := filter P (brPending b)\<rparr>)"
  by (auto simp: brk_ok_def broker_cap_def intro: distinct_map_filter)

lemma ProcessAdvancedFeatures_brk_ok:
  assumes "brk_ok b"
  shows "brk_ok (ProcessAdvancedFeatures js e b)"
proof -
  let ?b1 = "b\<lparr>brDelayed := filter (\<lambda>m. \<not> envNow e \<ge> mDeliverAt m) (brDelayed b)\<rparr>"
  have "brk_ok (fold (\<lambda>m b. fst (push_queue (mTopic m) m b)) ready ?b1)" for ready
    using assms by (intro fold_brk_ok push_queue_brk_ok) simp_all
  then show ?thesis
    unfolding ProcessAdvancedFeatures_def Let_def by (intro reloadFromDisk_brk_ok filter_pending_brk_ok)
qed

lemma PromoteDelayed_brk_ok: "brk_ok b \<Longrightarrow> brk_ok (fst (PromoteDelayed js io i b))"
proof -
  assume "brk_ok b"
  then have "brk_ok (fst (push_queue t m (b\<lparr>brDelayed := d\<rparr>)))" for t m d by (intro push_queue_brk_ok) simp
  then show ?thesis using \<open>brk_ok b\<close> spill_brk_ok [of js io]
    by (auto simp: PromoteDelayed_def Let_def split: option.splits prod.splits bool.splits) (metis fst_conv)+
qed

lemma Subscribe_brk_ok: "brk_ok b \<Longrightarrow> brk_ok (fst (Subscribe topic i n d b))"
  using getOrCreateTopic_brk_ok [of topic b]
  by (auto simp: Subscribe_def RegisterDurableSub_def Let_def split: prod.splits)

lemma Unsubscribe_brk_ok: "brk_ok (Unsubscribe topic i b) = brk_ok b"
  by (simp add: Unsubscribe_def split: option.splits)

lemma DurableSub_brk_ok:
  "brk_ok (RegisterDurableSub topic i b) = brk_ok b" "brk_ok (UnregisterDurableSub topic i b) = brk_ok b"
  by (simp_all add: RegisterDurableSub_def UnregisterDurableSub_def Let_def split: option.splits)

lemma catchUpDurable_brk_ok:
  assumes "brk_ok b"
  shows "brk_ok (fst (catchUpDurable_step topic i ch room b))"
proof -
  let ?n = "durable_queue_name topic i"
  obtain b1 q where g: "getOrCreateQueueLocked ?n b = (b1, q)" by (cases "getOrCreateQueueLocked ?n b")
  note g' = getOrCreateQueue_ok [OF assms g]
  obtain q' r where t: "pq_TryPop q = (q', r)" by (cases "pq_TryPop q")
  have st: "prio_state (broker_cap b1) q' (fst (fifo_pop (backlog b ?n)))"
    using prio_step_pop [OF g'(3)] t g'(6) by simp
  have again: "prio_state (broker_cap b1) (fst (pq_Push m q')) (fst (prio_push (broker_cap b1) m (fst (fifo_pop (backlog b ?n)))))" for m
    using prio_step_push [OF st, of m] by simp
  show ?thesis
    using assms g'(1) brk_ok_set_queue(1) [OF g'(1) st, of ?n] brk_ok_set_queue(1) [OF g'(1) again, of ?n]
    by (simp add: catchUpDurable_step_def getOrCreateQueue_def g t Let_def split: option.splits)
qed

lemma delete_pending_brk_ok: "brk_ok b \<Longrightarrow> brk_ok (b\<lparr>brPending := AList.delete i (brPending b)\<rparr>)"
  by (simp add: brk_ok_def broker_cap_def distinct_delete)

lemma Ack_brk_ok: "brk_ok b \<Longrightarrow> brk_ok (fst (broker_Ack e i b))"
  using delete_pending_brk_ok [of b i] by (simp add: broker_Ack_def Let_def split: option.splits prod.splits)

lemma retry_brk_ok: "brk_ok b \<Longrightarrow> brk_ok (fst (retryOrDeadLetter m t b))"
  using push_dead_letter_brk_ok [of b t] push_queue_brk_ok [of b t]
  by (auto simp: retryOrDeadLetter_def Let_def split: prod.splits bool.splits) (metis fst_conv)+

lemma Nack_brk_ok: "brk_ok b \<Longrightarrow> brk_ok (fst (Nack i b))" "brk_ok b \<Longrightarrow> brk_ok (fst (RequeueTimedOut i b))"
  by (simp_all add: Nack_def RequeueTimedOut_def retry_brk_ok delete_pending_brk_ok split: option.splits)

lemma checkTimeouts_brk_ok: "brk_ok b \<Longrightarrow> brk_ok (checkTimeouts now b)"
  unfolding checkTimeouts_def by (rule fold_brk_ok) (auto simp: Nack_brk_ok split: prod.splits)

lemma checkpoint_rewrite_brk_ok: "brk_ok (fst (checkpoint_rewrite js io outs ms b)) = brk_ok b"
  by (simp add: checkpoint_rewrite_def split: option.splits prod.splits sum.splits)

lemma Checkpoint_brk_ok: "brk_ok (fst (Checkpoint js io outs b)) = brk_ok b"
  by (simp add: Checkpoint_def checkpoint_rewrite_brk_ok)

lemma store_metadata_brk_ok: "brk_ok (store_metadata e ty d b) = brk_ok b"
  by (simp add: store_metadata_def split: option.splits)

lemma Exchange_brk_ok:
  "brk_ok b \<Longrightarrow> brk_ok (fst (ExchangeDeclare js e n typ d b))" "brk_ok b \<Longrightarrow> brk_ok (fst (ExchangeDelete js e n b))"
  "brk_ok b \<Longrightarrow> brk_ok (fst (UnbindQueue js e x q k b))"
  by (simp_all add: ExchangeDeclare_def ExchangeDelete_def UnbindQueue_def Let_def store_metadata_brk_ok split: option.splits)

lemma BindQueue_brk_ok:
  assumes "brk_ok b"
  shows "brk_ok (fst (BindQueue js e x q k hs all b))"
proof -
  have "brk_ok (fst (getOrCreateQueueLocked q (b\<lparr>brExchanges := xs\<rparr>)))" for xs
    using getOrCreateQueue_ok(1) [of "b\<lparr>brExchanges := xs\<rparr>" q] assms
    by (cases "getOrCreateQueueLocked q (b\<lparr>brExchanges := xs\<rparr>)") simp
  then show ?thesis using assms by (simp add: BindQueue_def Let_def store_metadata_brk_ok split: option.splits)
qed

lemma publish_clones_brk_ok: "brk_ok b \<Longrightarrow> brk_ok (fst (publish_clones js env gen m qs b))"
proof (induction qs arbitrary: b)
  case (Cons q qs)
  have "brk_ok (fst (Publish js (env q) q (m\<lparr>mID := gen q, mTopic := q\<rparr>) b))" using Cons.prems by (rule Publish_brk_ok)
  then show ?case using Cons.IH by (auto simp: Let_def split: prod.splits sum.splits)
qed simp

lemma PublishExchange_brk_ok: "brk_ok b \<Longrightarrow> brk_ok (fst (PublishExchange js env gen x rk m b))"
  by (simp add: PublishExchange_def Let_def Publish_brk_ok publish_clones_brk_ok split: option.splits)


lemma Purge_brk_ok:
  assumes "brk_ok b"
  shows "brk_ok (fst (PurgeQueue js io outs t b))" and "brk_ok (fst (PurgeDeadLetters js io outs t b))"
proof -
  show "brk_ok (fst (PurgeQueue js io outs t b))"
  proof (cases "map_of (brQueues b) t")
    case (Some q)
    have st: "prio_state (broker_cap b) q (pq_Drain q)" by (rule brk_ok_queue [OF assms Some])
    have "prio_state (broker_cap b) (fst (pq_Purge q)) []"
      using st pq_Purge_rep [of q "pq_Drain q"]
      by (auto simp: prio_state_def pq_Purge_def Purge_def Let_def fold_clear(1))
    from brk_ok_set_queue(1) [OF assms this, of t] Some show ?thesis
      by (simp add: PurgeQueue_def Let_def Checkpoint_brk_ok case_prod_beta)
  qed (use assms in \<open>simp add: PurgeQueue_def\<close>)
  show "brk_ok (fst (PurgeDeadLetters js io outs t b))"
  proof (cases "map_of (brDeadLetters b) (dead_letter_name t)")
    case (Some q)
    have "dead_state (broker_cap b) q" by (rule brk_ok_dead [OF assms Some])
    then have "dead_state (broker_cap b) (fst (Purge q))"
      using Purge_rep(2,3) [of q "Drain q"] ring.drain_all [of "fst (Purge q)" "[]"] by (simp add: dead_state_def)
    then have "brk_ok (b\<lparr>brDeadLetters := AList.update (dead_letter_name t) (fst (Purge q)) (brDeadLetters b)\<rparr>)"
      using assms set_AList_update [of "dead_letter_name t" "fst (Purge q)" "brDeadLetters b"]
      by (auto simp: brk_ok_def broker_cap_def distinct_update dest!: subsetD)
    then show ?thesis using Some by (simp add: PurgeDeadLetters_def Let_def Checkpoint_brk_ok case_prod_beta)
  qed (use assms in \<open>simp add: PurgeDeadLetters_def Let_def\<close>)
qed

lemma prio_state_level:
  assumes "prio_state cap q ms"
  shows "int (length (filter (\<lambda>x. prio x = i) ms)) \<le> cap"
proof -
  obtain mss where mss: "prio_levels q mss" "ms = concat (rev mss)" using assms by (auto simp: prio_state_def prio_rep_def)
  have caps: "\<forall>l \<in> set (pqLevels q). int (length (qBuf l)) = cap" using assms by (simp add: prio_state_def)
  have level: "int (length (mss ! j)) \<le> cap" if "j < NumPriorityLevels" for j
  proof -
    note l = prio_levels_nth [OF mss(1) that]
    then have "pqLevels q ! j \<in> set (pqLevels q)" using that by simp
    then show ?thesis using l(1) caps by (auto simp: ring_rep_def)
  qed
  show ?thesis
  proof (cases "i < NumPriorityLevels")
    case True
    then show ?thesis using level prio_level_filter [OF mss(1) True] mss(2) by simp
  next
    case False
    then have "filter (\<lambda>x. prio x = i) ms = []" using prio_bound by (auto simp: filter_empty_conv)
    moreover have "0 \<le> cap" using level [of 0] by (simp add: NumPriorityLevels_def)
    ultimately show ?thesis by simp
  qed
qed

lemma prio_state_facts:
  assumes "prio_state cap q ms"
  shows "pq_Size q = int (length ms)" and "sorted_wrt (\<lambda>x y. prio y \<le> prio x) ms"
    and "\<forall>i. int (length (filter (\<lambda>x. prio x = i) ms)) \<le> cap"
  using assms prio_queue.size_all prio_rep_sorted prio_state_level [OF assms] by (auto simp: prio_state_def)

subsection \<open>The broker as a state machine\<close>

text \<open>The steps of a running broker: a client's call, a tick of the scheduler, or a part of a compaction.\<close>

inductive broker_step :: "('a meta_codec_scheme) \<Rightarrow> broker \<Rightarrow> broker \<Rightarrow> bool" for js where
  "broker_step js b (fst (Publish js e t m b))"
| "broker_step js b (fst (PublishTopic js e t m b))"
| "broker_step js b (fst (PublishExchange js env genID x rk m b))"
| "broker_step js b (fst (Consume now t b))"
| "broker_step js b (fst (TryConsume now t b))"
| "broker_step js b (fst (broker_Ack e i b))"
| "broker_step js b (fst (Nack i b))"
| "broker_step js b (scheduler_tick js e b)"
| "broker_step js b (fst (PromoteDelayed js io i b))"
| "broker_step js b (fst (Subscribe t i n durable b))"
| "broker_step js b (fst (catchUpDurable_step t i ch room b))"
| "broker_step js b (Unsubscribe t i b)"
| "broker_step js b (UnregisterDurableSub t i b)"
| "broker_step js b (fst (PurgeQueue js io outs t b))"
| "broker_step js b (fst (PurgeDeadLetters js io outs t b))"
| "broker_step js b (fst (checkpoint_rewrite js io outs ms b))"
| "broker_step js b (fst (ExchangeDeclare js e n ty d b))"
| "broker_step js b (fst (ExchangeDelete js e n b))"
| "broker_step js b (fst (BindQueue js e x q k hs all b))"
| "broker_step js b (fst (UnbindQueue js e x q k b))"

lemma TryConsume_brk_ok: "brk_ok b \<Longrightarrow> brk_ok (fst (TryConsume now t b))"
  using TryConsume_ok(1) [of b now t] by (cases "TryConsume now t b") simp

lemma broker_step_ok: "broker_step js b b' \<Longrightarrow> brk_ok b \<Longrightarrow> brk_ok b'"
  by (induction rule: broker_step.induct)
    (simp_all add: Publish_brk_ok PublishTopic_brk_ok PublishExchange_brk_ok Consume_brk_ok TryConsume_brk_ok Ack_brk_ok
      Nack_brk_ok scheduler_tick_def checkTimeouts_brk_ok ProcessAdvancedFeatures_brk_ok PromoteDelayed_brk_ok
      Subscribe_brk_ok catchUpDurable_brk_ok Unsubscribe_brk_ok DurableSub_brk_ok Purge_brk_ok checkpoint_rewrite_brk_ok
      Exchange_brk_ok BindQueue_brk_ok)

definition broker_init :: "broker \<Rightarrow> bool" where
  "broker_init b \<longleftrightarrow> (\<exists>e cfg. cfQueueCap cfg \<le> 2 ^ 32 \<and> b = broker_New e cfg)"

interpretation broker_machine: state_machine broker_init "broker_step js" brk_ok for js :: "'a meta_codec_scheme"
  by unfold_locales (auto simp: broker_init_def brk_ok_New intro: broker_step_ok)

lemma broker_queues_well_formed_facts:
  fixes js :: "'a meta_codec_scheme"
  assumes "reachable broker_init (broker_step js) b"
  shows "map_of (brQueues b) t = Some q \<Longrightarrow>
      pq_Size q = int (length (pq_Drain q)) \<and> sorted_wrt (\<lambda>x y. prio y \<le> prio x) (pq_Drain q) \<and>
      (\<forall>i. int (length (filter (\<lambda>x. prio x = i) (pq_Drain q))) \<le> nextPowerOfTwo (brQueueCap b))"
    and "map_of (brDeadLetters b) t = Some d \<Longrightarrow>
      queue_Size d = int (length (Drain d)) \<and> queue_Size d \<le> nextPowerOfTwo (brQueueCap b)"
    and "distinct (map fst (brPending b))"
proof -
  have ok: "brk_ok b" using assms by (rule broker_machine.reachable_inv)
  show "pq_Size q = int (length (pq_Drain q)) \<and> sorted_wrt (\<lambda>x y. prio y \<le> prio x) (pq_Drain q) \<and>
      (\<forall>i. int (length (filter (\<lambda>x. prio x = i) (pq_Drain q))) \<le> nextPowerOfTwo (brQueueCap b))"
    if "map_of (brQueues b) t = Some q"
    using prio_state_facts [OF brk_ok_queue [OF ok that]] by (simp add: broker_cap_def)
  show "queue_Size d = int (length (Drain d)) \<and> queue_Size d \<le> nextPowerOfTwo (brQueueCap b)"
    if "map_of (brDeadLetters b) t = Some d"
    using brk_ok_dead [OF ok that] by (auto simp: dead_state_def ring_rep_def queue_Size_def broker_cap_def)
  show "distinct (map fst (brPending b))" using ok by (simp add: brk_ok_def)
qed


text \<open>
  C14: In every reachable state of a broker each work queue is a well-formed priority queue whose size
  counter is the number of its messages, sorted by priority and within the capacity at every
  priority, each dead-letter queue is a well-formed ring within the capacity, and each identifier
  is pending at most once.
\<close>

theorem broker_queues_well_formed:
  fixes js :: "'a meta_codec_scheme"
  assumes "reachable broker_init (broker_step js) b"
  shows "(map_of (brQueues b) t = Some q \<longrightarrow>
      pq_Size q = int (length (pq_Drain q)) \<and> sorted_wrt (\<lambda>x y. prio y \<le> prio x) (pq_Drain q) \<and>
      (\<forall>i. int (length (filter (\<lambda>x. prio x = i) (pq_Drain q))) \<le> nextPowerOfTwo (brQueueCap b))) \<and>
    (map_of (brDeadLetters b) t = Some d \<longrightarrow>
      queue_Size d = int (length (Drain d)) \<and> queue_Size d \<le> nextPowerOfTwo (brQueueCap b)) \<and>
    distinct (map fst (brPending b))"
  by (assumption | rule broker_queues_well_formed_facts [OF assms] | rule impI | rule conjI)+

text \<open>A codec of exchanges by their name, to exercise the definitions.\<close>

definition sample_meta :: meta_codec where
  "sample_meta =
     \<lparr>cEncode = cEncode sample_codec, cDecode = cDecode sample_codec,
      mcExchange = (\<lambda>ex. str_bytes (exName ex)),
      mcUnExchange = (\<lambda>d. if d = [] then None else Some (default_exchange\<lparr>exName := bytes_str d\<rparr>)),
      mcName = str_bytes, mcUnName = (\<lambda>d. if d = [] then None else Some (bytes_str d)),
      mcBinding = (\<lambda>bd. str_bytes (bQueue bd)), mcUnBinding = (\<lambda>_. None),
      mcUnbind = (\<lambda>(x, q, k). str_bytes q), mcUnUnbind = (\<lambda>_. None)\<rparr>"

theorem broker_queues_well_formed_witness:
  "distinct (map fst (brPending (fst (Publish sample_meta sample_env ''orders'' sample_message sample_broker))))"
proof -
  have "broker_init sample_broker" unfolding broker_init_def sample_broker_def
    by (rule exI [of _ sample_env], rule exI) auto
  then have "reachable broker_init (broker_step sample_meta)
      (fst (Publish sample_meta sample_env ''orders'' sample_message sample_broker))"
    by (rule reach_step [OF reach_init]) (rule broker_step.intros(1))
  then show ?thesis by (rule broker_queues_well_formed [THEN conjunct2, THEN conjunct2])
qed

end
