(* ===== verification/Broker_Recovery.thy ===== *)
theory Broker_Recovery
  imports Broker_Invariant
begin

section \<open>Snapshots, compaction and restart of the broker\<close>

text \<open>
  The round trip of a snapshot, the recovery of the queues from the write-ahead log through the
  contract of the storage, and four behaviours of the code that lose data: a publish during a
  compaction, the exchanges at a restart, a binding made twice, and the pending entry that the
  durable subscribers of a topic share.
\<close>

subsection \<open>Snapshots\<close>

lemma prio_insert_last: "sorted_wrt (\<lambda>x y. prio y \<le> prio x) (ms @ [m]) \<Longrightarrow> prio_insert m ms = ms @ [m]"
  by (simp add: prio_insert_def sorted_wrt_append takeWhile_eq_all_conv [THEN iffD2] dropWhile_eq_Nil_conv [THEN iffD2])

lemma fold_pq_Push:
  "prio_state cap q [] \<Longrightarrow> sorted_wrt (\<lambda>x y. prio y \<le> prio x) ms \<Longrightarrow>
   \<forall>i. int (length (filter (\<lambda>x. prio x = i) ms)) \<le> cap \<Longrightarrow>
   prio_state cap (fold (\<lambda>m q. fst (pq_Push m q)) ms q) ms"
proof (induction ms rule: rev_induct)
  case (snoc m ms)
  have "int (length (filter (\<lambda>x. prio x = i) ms)) \<le> cap" for i
    using spec [OF snoc.prems(3), of i] by (cases "prio m = i") simp_all
  moreover have "sorted_wrt (\<lambda>x y. prio y \<le> prio x) ms" using snoc.prems(2) by (simp add: sorted_wrt_append)
  ultimately have "prio_state cap (fold (\<lambda>m q. fst (pq_Push m q)) ms q) ms" using snoc.IH snoc.prems(1) by blast
  from prio_step_push [OF this, of m] have st: "prio_state cap (fold (\<lambda>m q. fst (pq_Push m q)) (ms @ [m]) q) (fst (prio_push cap m ms))"
    by simp
  have "int (length (filter (\<lambda>x. prio x = prio m) ms)) < cap" using spec [OF snoc.prems(3), of "prio m"] by simp
  then have "fst (prio_push cap m ms) = ms @ [m]" using prio_insert_last [OF snoc.prems(2)] by (simp add: prio_push_def)
  then show ?case using st by simp
qed simp

lemma fold_Push:
  "ring_rep q [] \<Longrightarrow> int (length (qBuf q)) = cap \<Longrightarrow> int (length ms) \<le> cap \<Longrightarrow>
   ring_rep (fold (\<lambda>m q. fst (Push m q)) ms q) ms \<and> int (length (qBuf (fold (\<lambda>m q. fst (Push m q)) ms q))) = cap"
proof (induction ms rule: rev_induct)
  case (snoc m ms)
  then have "ring_rep (fold (\<lambda>m q. fst (Push m q)) ms q) ms" "int (length (qBuf (fold (\<lambda>m q. fst (Push m q)) ms q))) = cap"
    by simp_all
  from ring_step_push [OF this, of m] show ?case using snoc.prems(3) by (simp add: fifo_push_def)
qed simp

text \<open>What a lookup finds in the map of the contents that are not empty.\<close>

lemma map_of_nonempty:
  "distinct (map fst al) \<Longrightarrow>
   map_of (map (\<lambda>(n, ms). (n, f n ms)) (filter (\<lambda>(_, ms). ms \<noteq> []) (map (\<lambda>(n, q). (n, D q)) al))) k =
     (case map_of al k of None \<Rightarrow> None | Some q \<Rightarrow> if D q = [] then None else Some (f k (D q)))"
proof (induction al)
  case (Cons a al)
  have "map_of al (fst a) = None" using Cons.prems by (simp add: map_of_eq_None_iff)
  then show ?case using Cons by (cases a) auto
qed simp

lemma map_of_exchanges:
  "distinct (map fst xs) \<Longrightarrow> map_of (fold (\<lambda>(n, ex). AList.update n ex) xs ys) k =
     (case map_of xs k of None \<Rightarrow> map_of ys k | Some ex \<Rightarrow> Some ex)"
proof (induction xs arbitrary: ys)
  case (Cons a xs)
  have "map_of xs (fst a) = None" using Cons.prems by (simp add: map_of_eq_None_iff)
  then show ?case using Cons by (cases a) (auto simp: update_conv' split: option.splits)
qed simp

lemma snapshot_restore_facts:
  assumes "brk_ok b" and "brQueueCap b0 = brQueueCap b"
    and "distinct (map fst (brExchanges b))" and "map_of (brExchanges b) [] \<noteq> None"
  shows "backlog (RestoreFullState (SnapshotFullState b) b0) = backlog b"
    and "dead_backlog (RestoreFullState (SnapshotFullState b) b0) = dead_backlog b"
    and "brPending (RestoreFullState (SnapshotFullState b) b0) = brPending b"
    and "brDelayed (RestoreFullState (SnapshotFullState b) b0) = brDelayed b"
    and "brDurableSubs (RestoreFullState (SnapshotFullState b) b0) = brDurableSubs b"
    and "map_of (brExchanges (RestoreFullState (SnapshotFullState b) b0)) = map_of (brExchanges b)"
proof -
  have cap: "brQueueCap b \<le> 2 ^ 32" "distinct (map fst (brQueues b))" "distinct (map fst (brDeadLetters b))"
    using assms(1) by (simp_all add: brk_ok_def)
  show "backlog (RestoreFullState (SnapshotFullState b) b0) = backlog b"
  proof
    fix t
    have "pq_Drain (fold (\<lambda>m q. fst (pq_Push m q)) (pq_Drain q) (NewPriority t (brQueueCap b0))) = pq_Drain q"
      if "map_of (brQueues b) t = Some q" for q
    proof -
      note st = prio_state_facts(2,3) [OF brk_ok_queue [OF assms(1) that]]
      from fold_pq_Push [OF NewPriority_state [OF cap(1)] st [unfolded broker_cap_def], of t] show ?thesis
        using assms(2) prio_queue.drain_all by (auto simp: prio_state_def)
    qed
    then show "backlog (RestoreFullState (SnapshotFullState b) b0) t = backlog b t"
      by (auto simp: backlog_def RestoreFullState_def SnapshotFullState_def map_of_nonempty [OF cap(2)] split: option.splits)
  qed
  show "dead_backlog (RestoreFullState (SnapshotFullState b) b0) = dead_backlog b"
  proof
    fix t
    have "Drain (fold (\<lambda>m q. fst (Push m q)) (Drain q) (New (dead_letter_name t) (brQueueCap b0))) = Drain q"
      if "map_of (brDeadLetters b) (dead_letter_name t) = Some q" for q
    proof -
      have "int (length (Drain q)) \<le> nextPowerOfTwo (brQueueCap b)"
        using brk_ok_dead [OF assms(1) that] by (auto simp: dead_state_def broker_cap_def ring_rep_def)
      from fold_Push [OF New_rep(1) New_capacity this] show ?thesis using cap(1) assms(2) ring.drain_all by metis
    qed
    then show "dead_backlog (RestoreFullState (SnapshotFullState b) b0) t = dead_backlog b t"
      by (auto simp: dead_backlog_def RestoreFullState_def SnapshotFullState_def map_of_nonempty [OF cap(3)] split: option.splits)
  qed
  show "map_of (brExchanges (RestoreFullState (SnapshotFullState b) b0)) = map_of (brExchanges b)"
    using assms(4) by (auto simp: fun_eq_iff RestoreFullState_def SnapshotFullState_def map_of_exchanges [OF assms(3)] split: option.splits)
qed (simp_all add: RestoreFullState_def SnapshotFullState_def)

text \<open>
  C35: A broker rebuilt from the snapshot of another one with the same capacity holds the same
  messages in every work queue and every dead-letter queue in the same order of delivery, the
  same pending and delayed messages, the same durable subscriptions and the same exchanges.
\<close>

theorem snapshot_restore:
  assumes "brk_ok b" and "brQueueCap b0 = brQueueCap b"
    and "distinct (map fst (brExchanges b))" and "map_of (brExchanges b) [] \<noteq> None"
  shows "backlog (RestoreFullState (SnapshotFullState b) b0) = backlog b \<and>
    dead_backlog (RestoreFullState (SnapshotFullState b) b0) = dead_backlog b \<and>
    brPending (RestoreFullState (SnapshotFullState b) b0) = brPending b \<and>
    brDelayed (RestoreFullState (SnapshotFullState b) b0) = brDelayed b \<and>
    brDurableSubs (RestoreFullState (SnapshotFullState b) b0) = brDurableSubs b \<and>
    map_of (brExchanges (RestoreFullState (SnapshotFullState b) b0)) = map_of (brExchanges b)"
  by (assumption | rule snapshot_restore_facts [OF assms] | rule impI | rule conjI)+

theorem snapshot_restore_witness:
  "backlog (RestoreFullState (SnapshotFullState queued_broker) sample_broker) ''orders'' = [sample_message\<lparr>mMaxRetry := 2\<rparr>]"
proof -
  have "queued_broker = sample_broker\<lparr>brQueues := brQueues queued_broker\<rparr>"
    using push_queue_ok(4) [OF sample_broker_ok(1)] unfolding queued_broker_def by (metis fst_conv surj_pair)
  then have x: "brExchanges queued_broker = brExchanges sample_broker" "brQueueCap queued_broker = brQueueCap sample_broker"
    by (metis broker.select_convs(4,12) broker.surjective broker.update_convs(1))+
  then have "distinct (map fst (brExchanges queued_broker))" "map_of (brExchanges queued_broker) [] \<noteq> None"
    by (simp_all add: sample_broker_def broker_New_def)
  from snapshot_restore [THEN conjunct1, OF queued_broker_ok(1) x(2) [symmetric] this] show ?thesis by (simp add: queued_broker_ok)
qed

subsection \<open>Compaction and concurrent publishes\<close>

lemma checkpoint_race_loses_message_facts:
  fixes js :: "'a codec_scheme"
  assumes m'_def: "m' = publish_stamp (envNow e) t b m"
    and "brk_ok b" and "brStore b = Some w" and "disk_ok js w" and "envOut e = WriteOk" and "envIo e = io_ok"
    and "codec_faithful js m'" and "\<not> mDeliverAt m' > envNow e" and "has_room b m' (backlog b t)"
    and "\<forall>x \<in> set (checkpoint_capture b). codec_faithful js x" and "distinct (map mID (checkpoint_capture b))"
    and "mID m' \<notin> mID ` set (checkpoint_capture b)"
    and "Publish js e t m b = (b1, r1)" and "checkpoint_rewrite js io_ok (\<lambda>_. WriteOk) (checkpoint_capture b) b1 = (b2, r2)"
  shows "r1 = Inr ()" and "r2 = Inr ()" and "m' \<in> set (backlog b2 t)"
    and "\<exists>w2. brStore b2 = Some w2 \<and> recovered (read_records js (walFile w2)) = checkpoint_capture b"
    and "m' \<notin> set (checkpoint_capture b)"
proof -
  obtain w1 n where w1: "wal_Write js WriteOk m' w = (w1, Inr n)" "disk_ok js w1"
    using disk_write [OF assms(4,7)] by blast
  obtain s1 where s1: "store_message js e m' b = (s1, Inr ())" "brStore s1 = Some w1" "brk_ok s1" "backlog s1 = backlog b"
      "broker_cap s1 = broker_cap b"
    using w1(1) assms(2,3,5) by (simp add: store_message_def broker_cap_def)
  obtain s2 ok where p: "push_queue t m' s1 = (s2, ok)" by (cases "push_queue t m' s1")
  note k = push_queue_ok [OF s1(3) p]
  have ok: "ok" using k(2) assms(9) s1(4,5) by (simp add: has_room_def)
  have pub: "b1 = s2" "r1 = Inr ()"
    using assms(8,13) s1(1) p ok unfolding Publish_def m'_def [symmetric] Let_def by simp_all
  then show "r1 = Inr ()" by simp
  have st: "brStore b1 = Some w1" unfolding pub(1) using s1(2) by (subst k(4)) simp
  obtain w2 where w2: "Rewrite js io_ok (\<lambda>_. WriteOk) (checkpoint_capture b) w1 = (w2, Inr ())"
    using disk_store.rewrite_ok [OF w1(2) assms(10)] by blast
  then have rw: "b2 = b1\<lparr>brStore := Some w2, brWalSize := wal_Size io_ok w2\<rparr>" "r2 = Inr ()"
    using assms(14) st by (simp_all add: checkpoint_rewrite_def)
  then show "r2 = Inr ()" by simp
  have "backlog b2 = (backlog b)(t := prio_insert m' (backlog b t))" using rw(1) pub(1) k(3) ok s1(4) by simp
  then show "m' \<in> set (backlog b2 t)" by (simp add: prio_insert_def)
  show "\<exists>w2. brStore b2 = Some w2 \<and> recovered (read_records js (walFile w2)) = checkpoint_capture b"
    using rw(1) w2 disk_store.rewrite_recovered [OF w1(2) assms(10,11)] by simp
  show "m' \<notin> set (checkpoint_capture b)" using assms(12) by blast
qed


text \<open>
  C39: Compaction collects the messages under the broker's locks and rewrites the log after it has
  released them. A message published in between is in its queue and its publish was confirmed,
  but the log that the rewrite leaves does not have it: a restart does not recover it.
\<close>

theorem checkpoint_race_loses_message:
  fixes js :: "'a codec_scheme"
  assumes m'_def: "m' = publish_stamp (envNow e) t b m"
    and "brk_ok b" and "brStore b = Some w" and "disk_ok js w" and "envOut e = WriteOk" and "envIo e = io_ok"
    and "codec_faithful js m'" and "\<not> mDeliverAt m' > envNow e" and "has_room b m' (backlog b t)"
    and "\<forall>x \<in> set (checkpoint_capture b). codec_faithful js x" and "distinct (map mID (checkpoint_capture b))"
    and "mID m' \<notin> mID ` set (checkpoint_capture b)"
    and "Publish js e t m b = (b1, r1)" and "checkpoint_rewrite js io_ok (\<lambda>_. WriteOk) (checkpoint_capture b) b1 = (b2, r2)"
  shows "r1 = Inr () \<and>
    r2 = Inr () \<and>
    m' \<in> set (backlog b2 t) \<and>
    (\<exists>w2. brStore b2 = Some w2 \<and> recovered (read_records js (walFile w2)) = checkpoint_capture b) \<and>
    m' \<notin> set (checkpoint_capture b)"
  by (assumption | rule checkpoint_race_loses_message_facts [OF assms] | rule impI | rule conjI)+

definition disk_broker :: broker where
  "disk_broker = broker_New sample_env
     \<lparr>cfMaxRetry = 5, cfAckTimeout = 30, cfQueueCap = 1, cfStorage = Some (wal_New []), cfThreshold = 0\<rparr>"

lemma disk_broker_facts:
  "brk_ok disk_broker" "brStore disk_broker = Some (wal_New [])" "disk_ok sample_codec (wal_New [])"
  "backlog disk_broker t = []" "broker_cap disk_broker = 1" "checkpoint_capture disk_broker = []"
  "publish_stamp (envNow sample_env) ''orders'' disk_broker sample_message = sample_message"
proof -
  have "nextPowerOfTwo 1 = 1" by code_simp
  then show "broker_cap disk_broker = 1" by (simp add: disk_broker_def broker_New_def broker_cap_def)
  show "brk_ok disk_broker" unfolding disk_broker_def by (rule brk_ok_New) simp
  show "disk_ok sample_codec (wal_New [])" by (simp add: disk_ok_def wal_New_def exI [of _ "[]"])
qed (simp_all add: disk_broker_def broker_New_def backlog_def checkpoint_capture_def publish_stamp_def sample_message_def
    NewMessage_def Let_def)

theorem checkpoint_race_loses_message_witness:
  "\<exists>b2 w2. brStore b2 = Some w2 \<and> sample_message \<in> set (backlog b2 ''orders'') \<and>
     recovered (read_records sample_codec (walFile w2)) = []"
proof -
  obtain b1 r1 where p: "Publish sample_codec sample_env ''orders'' sample_message disk_broker = (b1, r1)"
    by (cases "Publish sample_codec sample_env ''orders'' sample_message disk_broker")
  obtain b2 r2 where c: "checkpoint_rewrite sample_codec io_ok (\<lambda>_. WriteOk) (checkpoint_capture disk_broker) b1 = (b2, r2)"
    by (cases "checkpoint_rewrite sample_codec io_ok (\<lambda>_. WriteOk) (checkpoint_capture disk_broker) b1")
  note race = checkpoint_race_loses_message [OF disk_broker_facts(7) [symmetric] disk_broker_facts(1,2,3) _ sample_env_io
      sample_codec_faithful(2) _ _ _ _ _ p c]
  have "sample_message \<in> set (backlog b2 ''orders'')"
    by (rule race [THEN conjunct2, THEN conjunct2, THEN conjunct1]) (simp_all add: sample_env_def sample_message_def NewMessage_def disk_broker_facts has_room_def)
  moreover have "\<exists>w2. brStore b2 = Some w2 \<and> recovered (read_records sample_codec (walFile w2)) = checkpoint_capture disk_broker"
    by (rule race [THEN conjunct2, THEN conjunct2, THEN conjunct2, THEN conjunct1]) (simp_all add: sample_env_def sample_message_def NewMessage_def disk_broker_facts has_room_def)
  ultimately show ?thesis by (auto simp: disk_broker_facts)
qed

subsection \<open>Restart\<close>

definition queued :: "broker \<Rightarrow> message multiset" where
  "queued b = mset (concat (map (\<lambda>(_, q). pq_Drain q) (brQueues b)))"

lemma mset_prio_insert: "mset (prio_insert m ms) = add_mset m (mset ms)"
proof -
  have "mset (takeWhile (\<lambda>x. prio m \<le> prio x) ms) + mset (dropWhile (\<lambda>x. prio m \<le> prio x) ms) = mset ms"
    unfolding mset_append [symmetric] takeWhile_dropWhile_id ..
  then show ?thesis by (simp add: prio_insert_def)
qed

lemma mset_concat_update:
  "distinct (map fst al) \<Longrightarrow> map_of al k = Some q \<Longrightarrow>
   mset (concat (map (\<lambda>(_, q). f q) (AList.update k q' al))) + mset (f q) = mset (concat (map (\<lambda>(_, q). f q) al)) + mset (f q')"
proof (induction al)
  case (Cons a al)
  have "AList.update (fst a) q' al = al @ [(fst a, q')]" if "fst a \<notin> fst ` set al" using that by (rule AList_update_new)
  then show ?case using Cons by (cases a) (auto simp: ac_simps)
qed simp

lemma push_queue_queued:
  assumes "brk_ok b" and "push_queue t m b = (b', True)"
  shows "queued b' = add_mset m (queued b)"
proof -
  obtain b1 q where g: "getOrCreateQueueLocked t b = (b1, q)" by (cases "getOrCreateQueueLocked t b")
  note g' = getOrCreateQueue_ok [OF assms(1) g]
  have new: "queued b1 = queued b"
    using g prio_queue.drain_all [OF NewPriority_rep, of "brQueueCap b" t] assms(1)
    by (auto simp: getOrCreateQueueLocked_def Let_def queued_def brk_ok_def AList_update_new map_of_eq_None_iff split: option.splits)
  obtain q' where q': "pq_Push m q = (q', True)" "b' = b1\<lparr>brQueues := AList.update t q' (brQueues b1)\<rparr>"
    using assms(2) g by (auto simp: push_queue_def split: prod.splits)
  have rep: "prio_rep q (backlog b t)" using g'(3) by (simp add: prio_state_def)
  then have d: "pq_Drain q = backlog b t" "pq_Drain q' = prio_insert m (backlog b t)"
    using prio_queue.drain_all pq_Push_rep [OF rep q'(1)] by blast+
  have "distinct (map fst (brQueues b1))" using g'(1) by (simp add: brk_ok_def)
  from mset_concat_update [OF this g'(4), of pq_Drain q'] show ?thesis
    using new q'(2) d by (simp add: queued_def mset_prio_insert)
qed

definition ready_at :: "int \<Rightarrow> message \<Rightarrow> bool" where
  "ready_at now m \<longleftrightarrow> \<not> (mExpiresAt m > 0 \<and> mExpiresAt m \<le> now) \<and> \<not> (mTTL m > 0 \<and> i64 (mTimestamp m + mTTL m) \<le> now) \<and>
     mDeliverAt m \<le> now"

lemma ingest_all:
  "brk_ok b \<Longrightarrow> \<forall>m \<in> set ms. ready_at (envNow e) m \<Longrightarrow> int (size (queued b) + length ms) \<le> broker_cap b \<Longrightarrow>
   (\<And>t. mset (backlog b t) \<subseteq># queued b) \<Longrightarrow>
   brk_ok (fold (IngestRecovered js e) ms b) \<and>
   (\<forall>t. backlog (fold (IngestRecovered js e) ms b) t = fold prio_insert (filter (\<lambda>m. mTopic m = t) ms) (backlog b t)) \<and>
   queued (fold (IngestRecovered js e) ms b) = queued b + mset ms \<and>
   fold (IngestRecovered js e) ms b = b\<lparr>brQueues := brQueues (fold (IngestRecovered js e) ms b)\<rparr>"
proof (induction ms arbitrary: b)
  case (Cons m ms)
  obtain b1 ok where p: "push_queue (mTopic m) m b = (b1, ok)" by (cases "push_queue (mTopic m) m b")
  note k = push_queue_ok [OF Cons.prems(1) p]
  have "length (filter (\<lambda>x. prio x = prio m) (backlog b (mTopic m))) \<le> size (mset (backlog b (mTopic m)))" by simp
  also have "\<dots> \<le> size (queued b)" using Cons.prems(4) by (rule size_mset_mono)
  finally have ok: "ok" using k(2) Cons.prems(3) by (simp add: has_room_def)
  have I: "IngestRecovered js e m b = b1" using Cons.prems(2) p ok by (auto simp: IngestRecovered_def ready_at_def Let_def)
  have q1: "queued b1 = add_mset m (queued b)" using push_queue_queued [OF Cons.prems(1)] p ok by simp
  have bl: "backlog b1 = (backlog b)(mTopic m := prio_insert m (backlog b (mTopic m)))" using k(3) ok by simp
  have cap: "broker_cap b1 = broker_cap b" using push_queue_cap [OF p] by (simp add: broker_cap_def)
  have sub: "mset (backlog b1 t) \<subseteq># queued b1" for t
    using Cons.prems(4) [of t] unfolding bl q1 by (auto simp: mset_prio_insert intro: subset_mset.le_add_same_cancel2 subset_mset.order_trans)
  have IH: "brk_ok (fold (IngestRecovered js e) ms b1)"
      "\<And>t. backlog (fold (IngestRecovered js e) ms b1) t = fold prio_insert (filter (\<lambda>m. mTopic m = t) ms) (backlog b1 t)"
      "queued (fold (IngestRecovered js e) ms b1) = queued b1 + mset ms"
      "fold (IngestRecovered js e) ms b1 = b1\<lparr>brQueues := brQueues (fold (IngestRecovered js e) ms b1)\<rparr>"
    using Cons.IH [OF k(1) _ _ sub] Cons.prems(2,3) q1 cap by auto
  have "fold (IngestRecovered js e) ms b1 = b\<lparr>brQueues := brQueues (fold (IngestRecovered js e) ms b1)\<rparr>"
    by (subst IH(4), subst k(4)) simp
  then show ?case using IH(1-3) by (simp add: I bl q1)
qed simp


text \<open>\<open>json.Unmarshal\<close> refuses an empty input.\<close>

definition rejects_empty :: "('a meta_codec_scheme) \<Rightarrow> bool" where
  "rejects_empty js \<longleftrightarrow> mcUnExchange js [] = None \<and> mcUnName js [] = None \<and> mcUnBinding js [] = None \<and> mcUnUnbind js [] = None"

lemma replay_empty: "rejects_empty js \<Longrightarrow> ReplayMetadata js ty [] b = b"
  by (simp add: rejects_empty_def ReplayMetadata_def)

lemma replay_disk_records: "rejects_empty js \<Longrightarrow> replay_all js (map disk_record rs) b = b"
  unfolding replay_all_def by (induction rs arbitrary: b) (simp_all add: replay_empty disk_record_def)

lemma queued_New: "queued (broker_New e cfg) = {#}"
  by (simp add: queued_def broker_New_def)

lemma recover_broker_ok:
  fixes js :: "'a meta_codec_scheme"
  assumes "rejects_empty js" and "cfQueueCap cfg \<le> 2 ^ 32" and "cfStorage cfg = Some w" and "disk_ok js w" and "envIo e = io_ok"
  defines "live \<equiv> recovered (map disk_record (read_records js (walFile w)))" and "b0 \<equiv> broker_New e cfg"
  assumes "\<forall>m \<in> set live. ready_at (envNow e) m \<and> codec_faithful js m" and "int (length live) \<le> broker_cap b0"
    and "distinct (map mID live)"
  shows "backlog (recover_broker js e (\<lambda>_. WriteOk) b0) t = fold prio_insert (filter (\<lambda>m. mTopic m = t) live) []"
    and "\<exists>w'. brStore (recover_broker js e (\<lambda>_. WriteOk) b0) = Some w' \<and> disk_ok js w' \<and>
      mset (recovered (read_records js (walFile w'))) = mset live"
    and "brExchanges (recover_broker js e (\<lambda>_. WriteOk) b0) = brExchanges b0"
proof -
  let ?rs = "read_records js (walFile w)"
  let ?b = "fold (IngestRecovered js e) live b0"
  have st0: "brStore b0 = Some w" using assms(3) by (simp add: b0_def broker_New_def)
  have ing: "brk_ok ?b" "\<And>t. backlog ?b t = fold prio_insert (filter (\<lambda>m. mTopic m = t) live) []"
      "queued ?b = mset live" "?b = b0\<lparr>brQueues := brQueues ?b\<rparr>"
    using ingest_all [of b0 live e js] assms(8,9) brk_ok_New [OF assms(2)] backlog_New queued_New
    unfolding b0_def by (auto simp: backlog_New)
  have fields: "brStore ?b = Some w" "brDeadLetters ?b = []" "brDelayed ?b = []" "brPending ?b = []" "brExchanges ?b = brExchanges b0"
    using st0 by (subst ing(4), simp add: b0_def broker_New_def)+
  have cap: "mset (checkpoint_capture ?b) = mset live"
    using ing(3) fields unfolding checkpoint_capture_def queued_def by simp
  have dist: "distinct (map mID (checkpoint_capture ?b))"
    using assms(10) cap by (metis mset_eq_imp_distinct_iff mset_map)
  have faith: "\<forall>m \<in> set (checkpoint_capture ?b). codec_faithful js m"
    using assms(8) cap by (metis mset_eq_setD)
  obtain w' where w': "Rewrite js io_ok (\<lambda>_. WriteOk) (checkpoint_capture ?b) w = (w', Inr ())" "disk_ok js w'"
    using disk_store.rewrite_ok [OF assms(4) faith] by blast
  have rec': "recovered (read_records js (walFile w')) = checkpoint_capture ?b"
    using disk_store.rewrite_recovered [OF assms(4) faith dist] w'(1) by simp
  have R: "recover_broker js e (\<lambda>_. WriteOk) b0 =
      (if ?rs = [] then b0 else ?b\<lparr>brStore := Some w', brWalSize := wal_Size io_ok w'\<rparr>)"
  proof -
    have "\<not> walErr w" using assms(4) by (simp add: disk_ok_def)
    then show ?thesis using st0 assms(5) w'(1) fields(1) replay_disk_records [OF assms(1), of ?rs b0]
      by (simp add: recover_broker_def disk_ReadAllRecords_def ReadAllRecords_def Let_def Checkpoint_def checkpoint_rewrite_def
          live_def [symmetric])
  qed
  have none: "?rs = [] \<Longrightarrow> live = []" by (simp add: live_def recovered_def List.map_filter_simps)
  show "backlog (recover_broker js e (\<lambda>_. WriteOk) b0) t = fold prio_insert (filter (\<lambda>m. mTopic m = t) live) []"
    using R ing(2) none by (auto simp: b0_def backlog_New)
  show "\<exists>w'. brStore (recover_broker js e (\<lambda>_. WriteOk) b0) = Some w' \<and> disk_ok js w' \<and>
      mset (recovered (read_records js (walFile w'))) = mset live"
    using R none st0 assms(4) w'(2) rec' cap
    by (cases "?rs = []") (auto simp: recovered_def List.map_filter_simps)
  show "brExchanges (recover_broker js e (\<lambda>_. WriteOk) b0) = brExchanges b0" using R fields(5) by simp
qed

lemma restart_recovers_facts:
  fixes js :: "'a meta_codec_scheme"
  assumes "rejects_empty js" and "cfQueueCap cfg \<le> 2 ^ 32" and "cfStorage cfg = Some w" and "disk_ok js w" and "envIo e = io_ok"
    and "live = recovered (map disk_record (read_records js (walFile w)))"
    and "\<forall>m \<in> set live. ready_at (envNow e) m \<and> codec_faithful js m" and "int (length live) \<le> broker_cap (broker_New e cfg)"
    and "distinct (map mID live)"
  shows "backlog (recover_broker js e (\<lambda>_. WriteOk) (broker_New e cfg)) t = fold prio_insert (filter (\<lambda>m. mTopic m = t) live) []"
    and "\<exists>w'. brStore (recover_broker js e (\<lambda>_. WriteOk) (broker_New e cfg)) = Some w' \<and> disk_ok js w' \<and>
      mset (recovered (read_records js (walFile w'))) = mset live"
  using recover_broker_ok(1,2) [OF assms(1-5)] assms(7-9) unfolding assms(6) by blast+


lemma durable_exchange_lost_facts:
  fixes js :: "'a meta_codec_scheme"
  assumes "rejects_empty js" and "brStore b = Some w" and "name \<noteq> []"
    and "ExchangeDeclare js e name ty True b = (b1, Inr ())" and "cfStorage cfg = brStore b1"
    and "recover_broker js e' outs (broker_New e' cfg) = b2"
  shows "map_of (brExchanges b1) name \<noteq> None" and "map_of (brExchanges b2) name = None"
proof -
  show "map_of (brExchanges b1) name \<noteq> None"
    using assms(4) by (auto simp: ExchangeDeclare_def store_metadata_def Let_def update_conv' split: option.splits if_splits)
  have push: "brExchanges c' = brExchanges c" if "push_queue t m c = (c', ok)" for t m c c' ok
    using that by (auto simp: push_queue_def getOrCreateQueueLocked_def Let_def split: prod.splits option.splits)
  have spill: "brExchanges (fst (spillToDiskLocked js io t m c)) = brExchanges c" for io t m c
    by (simp add: spillToDiskLocked_def Let_def split: option.splits)
  have ing: "brExchanges (IngestRecovered js e' m c) = brExchanges c" for m c
  proof -
    obtain c' ok where p: "push_queue (mTopic m) m c = (c', ok)" by (cases "push_queue (mTopic m) m c")
    then show ?thesis using push [OF p] by (simp add: IngestRecovered_def Let_def spillToDisk_def spill split: bool.splits)
  qed
  have ings: "brExchanges (fold (IngestRecovered js e') ms c) = brExchanges c" for ms c
    by (induction ms arbitrary: c) (simp_all add: ing)
  have cp: "brExchanges (fst (Checkpoint js io os c)) = brExchanges c" for io os c
    by (simp add: Checkpoint_def checkpoint_rewrite_def split: option.splits prod.splits sum.splits)
  have rp: "replay_all js rs c = c" if "disk_ReadAllRecords js io x = Inr rs" for rs c io x
    using that replay_disk_records [OF assms(1)] by (auto simp: disk_ReadAllRecords_def split: sum.splits)
  have "brExchanges b2 = brExchanges (broker_New e' cfg)"
    unfolding assms(6) [symmetric] recover_broker_def
    by (auto simp: Let_def cp ings rp split: option.splits sum.splits)
  then show "map_of (brExchanges b2) name = None" using assms(3) by (simp add: broker_New_def)
qed

text \<open>
  No restart brings back an exchange or a binding: the storage hands out its metadata records
  without their data, so a declaration that was stored durably is lost.
\<close>

theorem durable_exchange_lost:
  fixes js :: "'a meta_codec_scheme"
  assumes "rejects_empty js" and "brStore b = Some w" and "name \<noteq> []"
    and "ExchangeDeclare js e name ty True b = (b1, Inr ())" and "cfStorage cfg = brStore b1"
    and "recover_broker js e' outs (broker_New e' cfg) = b2"
  shows "map_of (brExchanges b1) name \<noteq> None \<and>
    map_of (brExchanges b2) name = None"
  by (assumption | rule durable_exchange_lost_facts [OF assms] | rule impI | rule conjI)+

lemma duplicate_binding_survives_unbind_facts:
  fixes js :: "'a meta_codec_scheme"
  assumes "map_of (brExchanges b) x = Some ex" and "exType ex = ExchangeDirect"
    and "BindQueue js e x q k hs all b = (b1, r1)" and "BindQueue js e x q k hs all b1 = (b2, r2)"
    and "UnbindQueue js e x q k b2 = (b3, r3)"
  shows "r3 = Inr ()" and "\<exists>ex'. map_of (brExchanges b3) x = Some ex' \<and> q \<in> set (route ex' k headers)"
proof -
  let ?bd = "\<lparr>bExchange = x, bQueue = q, bBindingKey = k, bHeaders = hs, bMatchAll = all\<rparr>"
  have meta: "brExchanges (store_metadata e ty d c) = brExchanges c" for ty d c by (simp add: store_metadata_def split: option.splits)
  have get: "brExchanges (fst (getOrCreateQueueLocked q c)) = brExchanges c" for c
    by (simp add: getOrCreateQueueLocked_def Let_def split: option.splits)
  have bind: "map_of (brExchanges c') x = Some (y\<lparr>exBindings := exBindings y @ [?bd]\<rparr>)"
    if "map_of (brExchanges c) x = Some y" "BindQueue js e x q k hs all c = (c', r)" for c c' y r
    using that by (auto simp: BindQueue_def Let_def meta get update_conv')
  note two = bind [OF bind [OF assms(1,3)] assms(4)]
  let ?bs = "exBindings ex @ [?bd] @ [?bd]"
  have b3: "r3 = Inr ()" "map_of (brExchanges b3) x = Some (ex\<lparr>exBindings := remove_first (same_binding q k) ?bs\<rparr>)"
    using assms(5) two by (auto simp: UnbindQueue_def Let_def meta update_conv')
  then show "r3 = Inr ()" by simp
  have "\<exists>bd \<in> set (remove_first (same_binding q k) (bs @ [?bd] @ [?bd])). bQueue bd = q \<and> bBindingKey bd = k" for bs
    by (induction bs) (auto simp: same_binding_def)
  then have "q \<in> set (matched_queues (ex\<lparr>exBindings := remove_first (same_binding q k) ?bs\<rparr>) k headers)"
    using assms(2) by (fastforce simp: matched_queues_def binding_matched_def)
  then show "\<exists>ex'. map_of (brExchanges b3) x = Some ex' \<and> q \<in> set (route ex' k headers)"
    using b3(2) by (simp add: route_def route_fold matched_queues_def)
qed

text \<open>
  Binding a queue twice with the same key and unbinding it once leaves a binding: messages with
  the key are still routed to the queue.
\<close>

theorem duplicate_binding_survives_unbind:
  fixes js :: "'a meta_codec_scheme"
  assumes "map_of (brExchanges b) x = Some ex" and "exType ex = ExchangeDirect"
    and "BindQueue js e x q k hs all b = (b1, r1)" and "BindQueue js e x q k hs all b1 = (b2, r2)"
    and "UnbindQueue js e x q k b2 = (b3, r3)"
  shows "r3 = Inr () \<and>
    (\<exists>ex'. map_of (brExchanges b3) x = Some ex' \<and> q \<in> set (route ex' k headers))"
  by (assumption | rule duplicate_binding_survives_unbind_facts [OF assms] | rule impI | rule conjI)+

lemma durable_subscribers_share_pending_facts:
  assumes "brk_ok b" and "t1 \<noteq> t2" and "backlog b t1 = [m]" and "backlog b t2 = [m]" and "\<not> is_expired now m"
    and "TryConsume now t1 b = (b1, r1)" and "TryConsume now t2 b1 = (b2, r2)" and "broker_Ack e (mID m) b2 = (b3, r3)"
  shows "r1 = Some m" and "r2 = Some m" and "r3 = Inr ()" and "map_of (brPending b3) (mID m) = None"
    and "backlog b3 t1 = []" and "backlog b3 t2 = []"
proof -
  note c1 = TryConsume_ok [OF assms(1,6)]
  note c2 = TryConsume_ok [OF c1(1) assms(7)]
  show r1: "r1 = Some m" using c1(2) assms(3,5) by simp
  have b1: "backlog b1 t1 = []" "backlog b1 t2 = [m]" using c1(3) assms(2-5) by auto
  show r2: "r2 = Some m" using c2(2) b1(2) assms(5) by simp
  have b2: "backlog b2 t1 = []" "backlog b2 t2 = []" using c2(3) b1 assms(2,5) by auto
  have "map_of (brPending b2) (mID m) \<noteq> None" using c2(5) [OF r2] by simp
  then have "r3 = Inr () \<and> map_of (brPending b3) (mID m) = None \<and> backlog b3 = backlog b2"
    using assms(8) by (auto simp: broker_Ack_def Let_def delete_conv' split: option.splits prod.splits)
  then show "r3 = Inr ()" "map_of (brPending b3) (mID m) = None" "backlog b3 t1 = []" "backlog b3 t2 = []" using b2 by simp_all
qed


text \<open>
  The durable queues of one topic hold the same message under the same identifier, and the pending
  table has one entry for an identifier: once two subscribers hold the message, the
  acknowledgement of one removes the only entry, and the other is never redelivered.
\<close>

theorem durable_subscribers_share_pending:
  assumes "brk_ok b" and "t1 \<noteq> t2" and "backlog b t1 = [m]" and "backlog b t2 = [m]" and "\<not> is_expired now m"
    and "TryConsume now t1 b = (b1, r1)" and "TryConsume now t2 b1 = (b2, r2)" and "broker_Ack e (mID m) b2 = (b3, r3)"
  shows "r1 = Some m \<and>
    r2 = Some m \<and>
    r3 = Inr () \<and>
    map_of (brPending b3) (mID m) = None \<and>
    backlog b3 t1 = [] \<and>
    backlog b3 t2 = []"
  by (assumption | rule durable_subscribers_share_pending_facts [OF assms] | rule impI | rule conjI)+

lemma sample_meta_codec: "rejects_empty sample_meta" "codec_faithful sample_meta sample_message" "disk_ok sample_meta (wal_New [])"
  using sample_codec_faithful(2)
  by (simp_all add: sample_meta_def rejects_empty_def codec_faithful_def disk_ok_def wal_New_def exI [of _ "[]"])

definition sample_config :: broker_config where
  "sample_config = \<lparr>cfMaxRetry = 5, cfAckTimeout = 30, cfQueueCap = 1,
     cfStorage = Some (fst (wal_Write sample_meta WriteOk sample_message (wal_New []))), cfThreshold = 0\<rparr>"


theorem durable_exchange_lost_witness:
  "\<exists>b1. ExchangeDeclare sample_meta sample_env ''ex'' ExchangeTopic True disk_broker = (b1, Inr ()) \<and>
     map_of (brExchanges b1) ''ex'' \<noteq> None \<and>
     map_of (brExchanges (recover_broker sample_meta sample_env (\<lambda>_. WriteOk)
       (broker_New sample_env (sample_config\<lparr>cfStorage := brStore b1\<rparr>)))) ''ex'' = None"
proof -
  obtain b1 r where d: "ExchangeDeclare sample_meta sample_env ''ex'' ExchangeTopic True disk_broker = (b1, r)"
    by (cases "ExchangeDeclare sample_meta sample_env ''ex'' ExchangeTopic True disk_broker")
  then have r: "r = Inr ()" by (auto simp: ExchangeDeclare_def disk_broker_def broker_New_def Let_def)
  let ?cfg = "sample_config\<lparr>cfStorage := brStore b1\<rparr>"
  have "map_of (brExchanges b1) ''ex'' \<noteq> None"
    by (rule durable_exchange_lost [THEN conjunct1, OF sample_meta_codec(1) disk_broker_facts(2) _ d [unfolded r], of ?cfg]) simp_all
  moreover have "map_of (brExchanges (recover_broker sample_meta sample_env (\<lambda>_. WriteOk) (broker_New sample_env ?cfg))) ''ex'' = None"
    by (rule durable_exchange_lost [THEN conjunct2, OF sample_meta_codec(1) disk_broker_facts(2) _ d [unfolded r] _ refl]) simp_all
  ultimately show ?thesis using d r by blast
qed

theorem duplicate_binding_survives_unbind_witness:
  "\<exists>ex'. map_of (brExchanges (fst (UnbindQueue sample_meta sample_env [] ''q'' ''k''
       (fst (BindQueue sample_meta sample_env [] ''q'' ''k'' [] True
          (fst (BindQueue sample_meta sample_env [] ''q'' ''k'' [] True disk_broker))))))) [] = Some ex' \<and>
     ''q'' \<in> set (route ex' ''k'' [])"
proof -
  let ?B = "BindQueue sample_meta sample_env [] ''q'' ''k'' [] True"
  obtain b1 r1 where b1: "?B disk_broker = (b1, r1)" by (cases "?B disk_broker")
  obtain b2 r2 where b2: "?B b1 = (b2, r2)" by (cases "?B b1")
  obtain b3 r3 where b3: "UnbindQueue sample_meta sample_env [] ''q'' ''k'' b2 = (b3, r3)"
    by (cases "UnbindQueue sample_meta sample_env [] ''q'' ''k'' b2")
  have "map_of (brExchanges disk_broker) [] = Some default_exchange" by (simp add: disk_broker_def broker_New_def)
  from duplicate_binding_survives_unbind [THEN conjunct2, OF this _ b1 b2 b3, of "[]"] show ?thesis
    unfolding b1 b2 b3 fst_conv by (simp add: default_exchange_def)
qed

definition durable_pair :: broker where
  "durable_pair = push_durable sample_codec io_ok ''news'' sample_message [''a'', ''b''] sample_broker"

lemma durable_pair_ok:
  "brk_ok durable_pair" "backlog durable_pair ''news:a'' = [sample_message]" "backlog durable_pair ''news:b'' = [sample_message]"
proof -
  obtain b1 ok1 where p1: "push_queue ''news:a'' sample_message sample_broker = (b1, ok1)"
    by (cases "push_queue ''news:a'' sample_message sample_broker")
  note k1 = push_queue_ok [OF sample_broker_ok(1) p1]
  have ok1: "ok1" using k1(2) by (simp add: has_room_def sample_broker_ok)
  have c1: "broker_cap b1 = 1" using push_queue_cap [OF p1] sample_broker_ok(4) by (simp add: broker_cap_def)
  have l1: "backlog b1 ''news:a'' = [sample_message]" "backlog b1 ''news:b'' = []"
    using k1(3) ok1 by (simp_all add: sample_broker_ok prio_insert_def)
  obtain b2 ok2 where p2: "push_queue ''news:b'' sample_message b1 = (b2, ok2)" by (cases "push_queue ''news:b'' sample_message b1")
  note k2 = push_queue_ok [OF k1(1) p2]
  have ok2: "ok2" using k2(2) c1 l1 by (simp add: has_room_def)
  have "durable_pair = b2" using p1 p2 ok1 ok2 by (simp add: durable_pair_def durable_queue_name_def Let_def)
  then show "brk_ok durable_pair" "backlog durable_pair ''news:a'' = [sample_message]" "backlog durable_pair ''news:b'' = [sample_message]"
    using k2(1,3) ok2 l1 by (simp_all add: prio_insert_def)
qed

theorem durable_subscribers_share_pending_witness:
  "map_of (brPending (fst (broker_Ack sample_env (mID sample_message)
     (fst (TryConsume 110 ''news:b'' (fst (TryConsume 110 ''news:a'' durable_pair))))))) (mID sample_message) = None"
proof -
  obtain b1 r1 where c1: "TryConsume 110 ''news:a'' durable_pair = (b1, r1)" by (cases "TryConsume 110 ''news:a'' durable_pair")
  obtain b2 r2 where c2: "TryConsume 110 ''news:b'' b1 = (b2, r2)" by (cases "TryConsume 110 ''news:b'' b1")
  obtain b3 r3 where a: "broker_Ack sample_env (mID sample_message) b2 = (b3, r3)"
    by (cases "broker_Ack sample_env (mID sample_message) b2")
  have "\<not> is_expired 110 sample_message" by (simp add: is_expired_def sample_message_def NewMessage_def)
  with durable_subscribers_share_pending [THEN conjunct2, THEN conjunct2, THEN conjunct2, THEN conjunct1, OF durable_pair_ok(1) _ durable_pair_ok(2,3) _ c1 c2 a] show ?thesis
    unfolding c1 c2 a fst_conv by simp
qed

end
