(* ===== verification/Access.thy ===== *)
theory Access
  imports Exchange
begin

section \<open>Authorisation\<close>

text \<open>
  The authorisation of \<open>internal/identity/acl.go\<close>, with the principals of \<open>token.go\<close>: rules, the
  group tables and their cache, policies and the recommended chat policy. The wildcard match of the
  rules is the one of the exchanges; what a policy decides is characterised rule by rule, inboxes
  are isolated whatever rules are added, and a cached membership answer is at most one lifetime old.
\<close>

subsection \<open>Principals\<close>

definition ScopePublish :: string where "ScopePublish = ''publish''"
definition ScopeSubscribe :: string where "ScopeSubscribe = ''subscribe''"
definition ScopeAdmin :: string where "ScopeAdmin = ''admin''"
definition ScopePresence :: string where "ScopePresence = ''presence''"

text \<open>The zero time of \<open>ExpiresAt\<close> is \<open>None\<close>.\<close>

record principal =
  prUserID :: string
  prDeviceID :: string
  prTenant :: string
  prScopes :: "(string \<times> bool) list"
  prExpiresAt :: "int option"
  prTokenID :: string
  prAnonymous :: bool

definition HasScope :: "principal option \<Rightarrow> string \<Rightarrow> bool" where
  "HasScope p scope =
     (case p of
        None \<Rightarrow> False
      | Some p \<Rightarrow> if prAnonymous p then True else map_of (prScopes p) scope = Some True)"

definition Expired :: "principal option \<Rightarrow> int \<Rightarrow> bool" where
  "Expired p now =
     (case p of
        None \<Rightarrow> True
      | Some p \<Rightarrow>
          if prAnonymous p then False else (case prExpiresAt p of None \<Rightarrow> False | Some t \<Rightarrow> now > t))"

subsection \<open>Rules\<close>

datatype auth_error = ErrNoPrincipal | ErrDenied | ErrDeniedExpired | ErrDeniedMembership

definition ActionRead :: string where "ActionRead = ''read''"
definition ActionWrite :: string where "ActionWrite = ''write''"
definition ActionManage :: string where "ActionManage = ''manage''"
definition Allow :: string where "Allow = ''allow''"
definition Deny :: string where "Deny = ''deny''"

record rule =
  ruPattern :: string
  ruExceptPattern :: string
  ruActions :: "string list"
  ruEffect :: string
  ruRequireScope :: "string list"
  ruRequireMembership :: bool
  ruMembershipSegment :: int

definition covers :: "rule \<Rightarrow> string \<Rightarrow> bool" where
  "covers r a = (if length (ruActions r) = 0 then True else list_ex (\<lambda>x. x = a) (ruActions r))"

definition scopeSatisfied :: "rule \<Rightarrow> principal \<Rightarrow> bool" where
  "scopeSatisfied r p =
     (if length (ruRequireScope r) = 0 then True else list_ex (\<lambda>s. HasScope (Some p) s) (ruRequireScope r))"

subsection \<open>Membership\<close>

text \<open>
  A membership checker answers for a tenant, a user and a group, or fails. \<open>DenyAllMembership\<close> is
  the default.
\<close>

type_synonym membership_checker = "string \<Rightarrow> string \<Rightarrow> string \<Rightarrow> unit + bool"

definition DenyAllMembership :: membership_checker where
  "DenyAllMembership tenant userID groupID = Inr False"

type_synonym static_membership = "(string \<times> (string \<times> bool) list) list"

definition NewStaticMembership :: static_membership where
  "NewStaticMembership = []"

definition membershipKey :: "string \<Rightarrow> string \<Rightarrow> string" where
  "membershipKey tenant groupID = tenant @ CHR 0x00 # groupID"

definition group_of :: "static_membership \<Rightarrow> string \<Rightarrow> string \<Rightarrow> (string \<times> bool) list" where
  "group_of s tenant groupID = (case map_of s (membershipKey tenant groupID) of None \<Rightarrow> [] | Some g \<Rightarrow> g)"

definition membership_Add :: "string \<Rightarrow> string \<Rightarrow> string list \<Rightarrow> static_membership \<Rightarrow> static_membership" where
  "membership_Add tenant groupID userIDs s =
     AList.update (membershipKey tenant groupID)
       (fold (\<lambda>u. AList.update u True) userIDs (group_of s tenant groupID)) s"

definition membership_Remove :: "string \<Rightarrow> string \<Rightarrow> string list \<Rightarrow> static_membership \<Rightarrow> static_membership" where
  "membership_Remove tenant groupID userIDs s =
     (let k = membershipKey tenant groupID in
      case map_of s k of
        None \<Rightarrow> s
      | Some g \<Rightarrow>
          let g' = fold AList.delete userIDs g in
          if length g' = 0 then AList.delete k s else AList.update k g' s)"

definition Members :: "static_membership \<Rightarrow> string \<Rightarrow> string \<Rightarrow> string list" where
  "Members s tenant groupID = map fst (group_of s tenant groupID)"

definition MemberCount :: "static_membership \<Rightarrow> string \<Rightarrow> string \<Rightarrow> int" where
  "MemberCount s tenant groupID = int (length (group_of s tenant groupID))"

definition static_IsMember :: "static_membership \<Rightarrow> membership_checker" where
  "static_IsMember s tenant userID groupID = Inr (map_of (group_of s tenant groupID) userID = Some True)"

text \<open>The cache in front of a slow checker; an entry is the answer and its expiry.\<close>

record cached_membership =
  cmTtl :: int
  cmEntries :: "(string \<times> (bool \<times> int)) list"
  cmMaxSize :: int

definition NewCachedMembership :: "int \<Rightarrow> int \<Rightarrow> cached_membership" where
  "NewCachedMembership ttl maxSize =
     \<lparr>cmTtl = (if ttl \<le> 0 then 30000000000 else ttl), cmEntries = [], cmMaxSize = (if maxSize \<le> 0 then 100000 else maxSize)\<rparr>"

definition cacheKey :: "string \<Rightarrow> string \<Rightarrow> string \<Rightarrow> string" where
  "cacheKey tenant userID groupID = tenant @ CHR 0x00 # userID @ CHR 0x00 # groupID"

definition cached_IsMember ::
  "membership_checker \<Rightarrow> int \<Rightarrow> string \<Rightarrow> string \<Rightarrow> string \<Rightarrow> cached_membership \<Rightarrow> cached_membership \<times> (unit + bool)" where
  "cached_IsMember inner now tenant userID groupID c =
     (let k = cacheKey tenant userID groupID;
          ask = (case inner tenant userID groupID of
                   Inl e \<Rightarrow> (c, Inl e)
                 | Inr member \<Rightarrow>
                     let entries = (if int (length (cmEntries c)) \<ge> cmMaxSize c then [] else cmEntries c) in
                     (c\<lparr>cmEntries := AList.update k (member, now + cmTtl c) entries\<rparr>, Inr member))
      in case map_of (cmEntries c) k of
           Some (member, expires) \<Rightarrow> if now < expires then (c, Inr member) else ask
         | None \<Rightarrow> ask)"

definition Invalidate :: "string \<Rightarrow> string \<Rightarrow> string \<Rightarrow> cached_membership \<Rightarrow> cached_membership" where
  "Invalidate tenant userID groupID c = c\<lparr>cmEntries := AList.delete (cacheKey tenant userID groupID) (cmEntries c)\<rparr>"

definition InvalidateGroup :: "string \<Rightarrow> string \<Rightarrow> cached_membership \<Rightarrow> cached_membership" where
  "InvalidateGroup tenant groupID c =
     (let suf = CHR 0x00 # groupID; pre = tenant @ [CHR 0x00] in
      c\<lparr>cmEntries := filter (\<lambda>(k, _). \<not> (HasPrefix k pre \<and> HasSuffix k suf)) (cmEntries c)\<rparr>)"

subsection \<open>Policies\<close>

record policy =
  poRules :: "rule list"
  poMembership :: membership_checker
  poAllowAnonymous :: bool

definition NewPolicy :: "rule list \<Rightarrow> membership_checker option \<Rightarrow> bool \<Rightarrow> policy" where
  "NewPolicy rules m anon =
     \<lparr>poRules = rules, poMembership = (case m of None \<Rightarrow> DenyAllMembership | Some m \<Rightarrow> m), poAllowAnonymous = anon\<rparr>"

definition SetRules :: "rule list \<Rightarrow> policy \<Rightarrow> policy" where
  "SetRules rules p = p\<lparr>poRules := rules\<rparr>"

definition SetMembership :: "membership_checker option \<Rightarrow> policy \<Rightarrow> policy" where
  "SetMembership m p = p\<lparr>poMembership := (case m of None \<Rightarrow> DenyAllMembership | Some m \<Rightarrow> m)\<rparr>"

text \<open>
  \<open>strings.NewReplacer\<close> with the three placeholders: the first that matches at a position is
  replaced, and the replacement is not scanned again.
\<close>

function replace_vars :: "principal \<Rightarrow> string \<Rightarrow> string" where
  "replace_vars p s =
     (if s = [] then []
      else if HasPrefix s ''${user}'' then prUserID p @ replace_vars p (drop 7 s)
      else if HasPrefix s ''${device}'' then prDeviceID p @ replace_vars p (drop 9 s)
      else if HasPrefix s ''${tenant}'' then prTenant p @ replace_vars p (drop 9 s)
      else hd s # replace_vars p (tl s))"
  by pat_completeness auto
termination
  by (relation "measure (\<lambda>(p, s). length s)") auto

declare replace_vars.simps [simp del]

fun contains_str :: "string \<Rightarrow> string \<Rightarrow> bool" where
  "contains_str [] sub = (sub = [])"
| "contains_str (c # cs) sub \<longleftrightarrow> HasPrefix (c # cs) sub \<or> contains_str cs sub"

definition expand :: "string \<Rightarrow> principal \<Rightarrow> string" where
  "expand pattern p = (if \<not> contains_str pattern ''${'' then pattern else replace_vars p pattern)"

function matchSegments :: "string list \<Rightarrow> nat \<Rightarrow> string list \<Rightarrow> nat \<Rightarrow> bool" where
  "matchSegments t ti p pi =
     (if pi < length p then
        if p ! pi = ''#'' then
          if pi = length p - 1 then True
          else list_ex (\<lambda>i. matchSegments t i p (pi + 1)) [ti..<length t + 1]
        else if ti \<ge> length t then False
        else if p ! pi \<noteq> ''*'' \<and> p ! pi \<noteq> t ! ti then False
        else matchSegments t (ti + 1) p (pi + 1)
      else ti = length t)"
  by pat_completeness auto
termination
  by (relation "measure (\<lambda>(t, ti, p, pi). length p - pi)") auto

declare matchSegments.simps [simp del]

definition acl_topicMatch :: "string \<Rightarrow> string \<Rightarrow> bool" where
  "acl_topicMatch topic pattern =
     (if pattern = ''#'' then True
      else matchSegments (split_on (CHR ''.'') topic) 0 (split_on (CHR ''.'') pattern) 0)"

text \<open>
  What the loop of \<open>Authorize\<close> finds of one rule: it does not apply, its membership question
  fails, or it applies.
\<close>

datatype rule_result = Skips | Fails | Applies

definition eval_rule :: "membership_checker \<Rightarrow> principal \<Rightarrow> string \<Rightarrow> string \<Rightarrow> rule \<Rightarrow> rule_result" where
  "eval_rule membership pr topic action r =
     (let segments = split_on (CHR ''.'') topic in
      if \<not> covers r action then Skips
      else if \<not> acl_topicMatch topic (expand (ruPattern r) pr) then Skips
      else if ruExceptPattern r \<noteq> [] \<and> acl_topicMatch topic (expand (ruExceptPattern r) pr) then Skips
      else if \<not> scopeSatisfied r pr then Skips
      else if ruRequireMembership r then
        if ruMembershipSegment r < 0 \<or> ruMembershipSegment r \<ge> int (length segments) then Skips
        else case membership (prTenant pr) (prUserID pr) (segments ! nat (ruMembershipSegment r)) of
               Inl _ \<Rightarrow> Fails
             | Inr ok \<Rightarrow> if ok then Applies else Skips
      else Applies)"

fun auth_loop :: "membership_checker \<Rightarrow> principal \<Rightarrow> string \<Rightarrow> string \<Rightarrow> rule list \<Rightarrow> bool \<Rightarrow> auth_error + unit" where
  "auth_loop membership pr topic action [] allowed = (if allowed then Inr () else Inl ErrDenied)"
| "auth_loop membership pr topic action (r # rules) allowed =
     (case eval_rule membership pr topic action r of
        Skips \<Rightarrow> auth_loop membership pr topic action rules allowed
      | Fails \<Rightarrow> Inl ErrDeniedMembership
      | Applies \<Rightarrow>
          if ruEffect r = Deny then Inl ErrDenied else auth_loop membership pr topic action rules True)"

definition Authorize :: "int \<Rightarrow> policy \<Rightarrow> principal option \<Rightarrow> string \<Rightarrow> string \<Rightarrow> auth_error + unit" where
  "Authorize now p pr topic action =
     (case pr of
        None \<Rightarrow> Inl ErrNoPrincipal
      | Some q \<Rightarrow>
          if Expired pr now then Inl ErrDeniedExpired
          else if prAnonymous q then (if poAllowAnonymous p then Inr () else Inl ErrDenied)
          else auth_loop (poMembership p) q topic action (poRules p) False)"

definition Can :: "int \<Rightarrow> policy \<Rightarrow> principal option \<Rightarrow> string \<Rightarrow> string \<Rightarrow> bool" where
  "Can now p pr topic action \<longleftrightarrow> Authorize now p pr topic action = Inr ()"

definition plain_rule :: "string \<Rightarrow> string \<Rightarrow> string list \<Rightarrow> rule" where
  "plain_rule pat effect actions =
     \<lparr>ruPattern = pat, ruExceptPattern = [], ruActions = actions, ruEffect = effect, ruRequireScope = [],
      ruRequireMembership = False, ruMembershipSegment = 0\<rparr>"

definition member_rule :: "string \<Rightarrow> int \<Rightarrow> rule" where
  "member_rule pat seg =
     (plain_rule pat Allow [ActionRead, ActionWrite])\<lparr>ruRequireMembership := True, ruMembershipSegment := seg\<rparr>"

definition ChatPolicyRules :: "rule list" where
  "ChatPolicyRules =
     [plain_rule ''chat.inbox.${user}.#'' Allow [ActionRead, ActionWrite],
      (plain_rule ''chat.inbox.#'' Deny [])\<lparr>ruExceptPattern := ''chat.inbox.${user}.#''\<rparr>,
      member_rule ''chat.direct.*.#'' 2,
      member_rule ''chat.group.*.#'' 2,
      (plain_rule ''presence.${user}.#'' Allow [ActionWrite])\<lparr>ruRequireScope := [ScopePresence]\<rparr>,
      plain_rule ''presence.#'' Allow [ActionRead],
      member_rule ''typing.*.#'' 1,
      plain_rule ''system.#'' Allow [ActionRead],
      plain_rule ''system.#'' Deny [ActionWrite, ActionManage],
      (plain_rule ''#'' Allow [ActionManage])\<lparr>ruRequireScope := [ScopeAdmin]\<rparr>]"

subsection \<open>Pattern matching\<close>

interpretation acl_topics: topic_matcher matchSegments
proof
  fix t ti p pi
  show "matchSegments t ti p pi =
       (if pi < length p then
          if p ! pi = ''#'' then
            if pi = length p - 1 then True else (\<exists>i. ti \<le> i \<and> i \<le> length t \<and> matchSegments t i p (pi + 1))
          else if ti \<ge> length t then False
          else if p ! pi \<noteq> ''*'' \<and> p ! pi \<noteq> t ! ti then False
          else matchSegments t (ti + 1) p (pi + 1)
        else ti = length t)"
    by (subst matchSegments.simps) (auto simp: list_ex_iff Bex_def less_Suc_eq_le simp del: upt_Suc)
qed

lemma acl_topicMatch_glob:
  "acl_topicMatch topic pattern \<longleftrightarrow> topic_glob (split_on (CHR ''.'') pattern) (split_on (CHR ''.'') topic)"
proof (cases "pattern = ''#''")
  case True
  then have "split_on (CHR ''.'') pattern = [''#'']" by simp
  then show ?thesis using True by (simp add: acl_topicMatch_def)
next
  case False
  then show ?thesis by (simp add: acl_topicMatch_def acl_topics.matcher_from_start)
qed

text \<open>
  The two copies of the wildcard match, of the exchanges and of the access rules, agree on every
  topic and every pattern.
\<close>

theorem matchers_agree: "acl_topicMatch topic pattern = topicMatch topic pattern"
  unfolding acl_topicMatch_glob topicMatch_def exchange_topics.matcher_from_start ..

subsection \<open>What a policy decides\<close>

definition rule_selects :: "principal \<Rightarrow> string \<Rightarrow> string \<Rightarrow> rule \<Rightarrow> bool" where
  "rule_selects pr topic action r \<longleftrightarrow>
     (ruActions r = [] \<or> action \<in> set (ruActions r)) \<and>
     topic_glob (split_on (CHR ''.'') (expand (ruPattern r) pr)) (split_on (CHR ''.'') topic) \<and>
     (ruExceptPattern r = [] \<or>
      \<not> topic_glob (split_on (CHR ''.'') (expand (ruExceptPattern r) pr)) (split_on (CHR ''.'') topic)) \<and>
     (ruRequireScope r = [] \<or> (\<exists>s \<in> set (ruRequireScope r). HasScope (Some pr) s))"

text \<open>The answer to the membership question of a rule, \<open>None\<close> when the topic has no such segment.\<close>

definition rule_member :: "membership_checker \<Rightarrow> principal \<Rightarrow> string \<Rightarrow> rule \<Rightarrow> (unit + bool) option" where
  "rule_member membership pr topic r =
     (let segments = split_on (CHR ''.'') topic in
      if 0 \<le> ruMembershipSegment r \<and> ruMembershipSegment r < int (length segments)
      then Some (membership (prTenant pr) (prUserID pr) (segments ! nat (ruMembershipSegment r))) else None)"

definition rule_applies :: "membership_checker \<Rightarrow> principal \<Rightarrow> string \<Rightarrow> string \<Rightarrow> rule \<Rightarrow> bool" where
  "rule_applies membership pr topic action r \<longleftrightarrow>
     rule_selects pr topic action r \<and> (ruRequireMembership r \<longrightarrow> rule_member membership pr topic r = Some (Inr True))"

definition rule_fails :: "membership_checker \<Rightarrow> principal \<Rightarrow> string \<Rightarrow> string \<Rightarrow> rule \<Rightarrow> bool" where
  "rule_fails membership pr topic action r \<longleftrightarrow>
     rule_selects pr topic action r \<and> ruRequireMembership r \<and> rule_member membership pr topic r = Some (Inl ())"

lemma eval_rule_cases:
  "eval_rule membership pr topic action r =
     (if rule_fails membership pr topic action r then Fails
      else if rule_applies membership pr topic action r then Applies else Skips)"
proof -
  have "covers r action \<longleftrightarrow> ruActions r = [] \<or> action \<in> set (ruActions r)" by (auto simp: covers_def list_ex_iff)
  moreover have "scopeSatisfied r pr \<longleftrightarrow> ruRequireScope r = [] \<or> (\<exists>s \<in> set (ruRequireScope r). HasScope (Some pr) s)"
    by (auto simp: scopeSatisfied_def list_ex_iff)
  ultimately show ?thesis
    unfolding eval_rule_def rule_fails_def rule_applies_def rule_selects_def rule_member_def acl_topicMatch_glob
    by (auto simp: Let_def split: sum.splits)
qed

lemma auth_loop_ok:
  "auth_loop membership pr topic action rules allowed = Inr () \<longleftrightarrow>
     (\<forall>r \<in> set rules. \<not> rule_fails membership pr topic action r) \<and>
     (\<forall>r \<in> set rules. rule_applies membership pr topic action r \<longrightarrow> ruEffect r \<noteq> Deny) \<and>
     (allowed \<or> (\<exists>r \<in> set rules. rule_applies membership pr topic action r))"
proof (induction rules arbitrary: allowed)
  case (Cons r rules)
  have "\<not> (rule_fails membership pr topic action r \<and> rule_applies membership pr topic action r)"
    by (auto simp: rule_fails_def rule_applies_def)
  then show ?case using Cons by (auto simp: eval_rule_cases)
qed simp


definition sample_user :: "string \<Rightarrow> principal" where
  "sample_user u = \<lparr>prUserID = u, prDeviceID = ''d1'', prTenant = [], prScopes = [(ScopePublish, True)],
     prExpiresAt = None, prTokenID = [], prAnonymous = False\<rparr>"


text \<open>A user identifier that is one segment of a topic and no wildcard.\<close>

definition plain_user :: "string \<Rightarrow> bool" where
  "plain_user u \<longleftrightarrow> CHR ''.'' \<notin> set u \<and> u \<noteq> ''*'' \<and> u \<noteq> ''#''"

definition inbox_deny :: rule where
  "inbox_deny = (plain_rule ''chat.inbox.#'' Deny [])\<lparr>ruExceptPattern := ''chat.inbox.${user}.#''\<rparr>"

lemma inbox_deny_in_chat_policy: "inbox_deny \<in> set ChatPolicyRules"
  by (simp add: ChatPolicyRules_def inbox_deny_def)

lemma expand_inbox: "expand ''chat.inbox.${user}.#'' q = ''chat.inbox.'' @ prUserID q @ ''.#''"
  by (simp add: expand_def replace_vars.simps HasPrefix_def)

lemma expand_plain: "expand ''chat.inbox.#'' q = ''chat.inbox.#''"
  by (simp add: expand_def HasPrefix_def)

lemma split_user: "CHR ''.'' \<notin> set u \<Longrightarrow> split_on (CHR ''.'') (u @ ''.#'') = [u, ''#'']"
  using split_on_append [of "CHR ''.''" u "''#''"] by simp

lemma inbox_deny_selects:
  assumes "split_on (CHR ''.'') topic = ''chat'' # ''inbox'' # owner # rest" and "plain_user (prUserID q)" and "owner \<noteq> prUserID q"
  shows "rule_applies membership q topic action inbox_deny"
proof -
  have "\<not> topic_glob [''chat'', ''inbox'', prUserID q, ''#''] (''chat'' # ''inbox'' # owner # rest)"
    using assms(2,3) by (auto simp: glob_word_iff plain_user_def)
  moreover have "topic_glob [''chat'', ''inbox'', ''#''] (''chat'' # ''inbox'' # owner # rest)"
    by (simp add: glob_word_iff)
  moreover have "split_on (CHR ''.'') ''chat.inbox.#'' = [''chat'', ''inbox'', ''#'']" by simp
  ultimately show ?thesis
    using assms(1,2) unfolding rule_applies_def rule_selects_def inbox_deny_def
    by (simp add: plain_rule_def expand_inbox expand_plain split_user plain_user_def)
qed

text \<open>
  C21: Under any policy that contains the deny rule of the chat policy, whatever rules were added before
  or after it and whatever the membership answers, a user with a plain identifier can do nothing
  on the inbox of another user.
\<close>

theorem inbox_isolated:
  assumes "inbox_deny \<in> set (poRules p)" and "\<not> prAnonymous q" and "plain_user (prUserID q)"
    and "split_on (CHR ''.'') topic = ''chat'' # ''inbox'' # owner # rest" and "owner \<noteq> prUserID q"
  shows "\<not> Can now p (Some q) topic action"
proof -
  have "rule_applies (poMembership p) q topic action inbox_deny" by (rule inbox_deny_selects [OF assms(4,3,5)])
  moreover have "ruEffect inbox_deny = Deny" by (simp add: inbox_deny_def plain_rule_def)
  ultimately have "auth_loop (poMembership p) q topic action (poRules p) False \<noteq> Inr ()"
    using assms(1) unfolding auth_loop_ok by blast
  then show ?thesis using assms(2) by (simp add: Can_def Authorize_def)
qed

theorem inbox_isolated_witness:
  "\<not> Can 0 (NewPolicy (plain_rule ''#'' Allow [] # ChatPolicyRules) None False) (Some (sample_user ''eve'')) ''chat.inbox.bob'' ActionRead"
  by (rule inbox_isolated [where owner = "''bob''" and rest = "[]"])
    (simp_all add: NewPolicy_def inbox_deny_in_chat_policy sample_user_def plain_user_def)

lemma rule_misses_topic:
  assumes "split_on (CHR ''.'') topic = ts" and "\<not> topic_glob (split_on (CHR ''.'') (expand (ruPattern r) q)) ts"
  shows "\<not> rule_selects q topic action r"
  using assms by (simp add: rule_selects_def)

lemma chat_rules_miss_inbox:
  assumes "split_on (CHR ''.'') topic = ''chat'' # ''inbox'' # rest"
  shows "\<not> rule_selects q topic action (member_rule ''chat.direct.*.#'' 2)"
    and "\<not> rule_selects q topic action (member_rule ''chat.group.*.#'' 2)"
    and "\<not> rule_selects q topic action (plain_rule ''presence.#'' effect actions)"
    and "\<not> rule_selects q topic action (member_rule ''typing.*.#'' 1)"
    and "\<not> rule_selects q topic action (plain_rule ''system.#'' effect actions)"
  by (rule rule_misses_topic [OF assms];
      simp add: member_rule_def plain_rule_def expand_def HasPrefix_def glob_word_iff)+

lemma chat_scope_rules_miss_read:
  "\<not> rule_selects q topic ActionRead ((plain_rule pat Allow [ActionWrite])\<lparr>ruRequireScope := sc\<rparr>)"
  "\<not> rule_selects q topic ActionRead ((plain_rule pat Allow [ActionManage])\<lparr>ruRequireScope := sc\<rparr>)"
  by (simp_all add: rule_selects_def plain_rule_def ActionRead_def ActionWrite_def ActionManage_def)

text \<open>
  The identifier of a user is put into the patterns as it is: the user named by a wildcard is
  allowed to read every inbox under the chat policy.
\<close>

theorem wildcard_user_reads_every_inbox:
  assumes "prUserID q = ''*''" and "\<not> prAnonymous q" and "\<not> Expired (Some q) now"
    and "split_on (CHR ''.'') topic = ''chat'' # ''inbox'' # owner # rest"
  shows "Can now (NewPolicy ChatPolicyRules m anon) (Some q) topic ActionRead"
proof -
  let ?m = "poMembership (NewPolicy ChatPolicyRules m anon)"
  have star: "topic_glob [''chat'', ''inbox'', ''*'', ''#''] (''chat'' # ''inbox'' # owner # rest)" by (simp add: glob_word_iff)
  have sel: "split_on (CHR ''.'') (expand ''chat.inbox.${user}.#'' q) = [''chat'', ''inbox'', ''*'', ''#'']"
    unfolding expand_inbox assms(1) by simp
  have plain: "rule_applies ?m q topic ActionRead (plain_rule ''chat.inbox.${user}.#'' Allow [ActionRead, ActionWrite])"
    using star assms(4) sel by (simp add: rule_applies_def rule_selects_def plain_rule_def)
  have deny: "\<not> rule_selects q topic ActionRead inbox_deny"
    using star assms(4) sel by (simp add: rule_selects_def inbox_deny_def plain_rule_def)
  have "\<forall>r \<in> set ChatPolicyRules. r = plain_rule ''chat.inbox.${user}.#'' Allow [ActionRead, ActionWrite] \<or>
      \<not> rule_selects q topic ActionRead r"
    unfolding ChatPolicyRules_def inbox_deny_def [symmetric] list.set ball_simps
    by (simp only: deny chat_rules_miss_inbox [OF assms(4)] chat_scope_rules_miss_read not_False_eq_True simp_thms)
  then have "\<forall>r \<in> set ChatPolicyRules. \<not> rule_fails ?m q topic ActionRead r \<and> (rule_applies ?m q topic ActionRead r \<longrightarrow> ruEffect r \<noteq> Deny)"
    by (auto simp: rule_fails_def rule_applies_def plain_rule_def Allow_def Deny_def)
  moreover have "\<exists>r \<in> set ChatPolicyRules. rule_applies ?m q topic ActionRead r"
    by (rule bexI, rule plain) (simp add: ChatPolicyRules_def)
  ultimately show ?thesis
    using assms(2,3) by (auto simp: Can_def Authorize_def auth_loop_ok NewPolicy_def)
qed

theorem wildcard_user_reads_every_inbox_witness:
  "Can 0 (NewPolicy ChatPolicyRules None False) (Some (sample_user ''*'')) ''chat.inbox.bob'' ActionRead"
  by (rule wildcard_user_reads_every_inbox [where owner = "''bob''" and rest = "[]"])
    (simp_all add: sample_user_def Expired_def)

subsection \<open>Membership\<close>

text \<open>The contract of a table of groups, and its interpretation on the table in memory.\<close>

locale membership_table =
  fixes add :: "string \<Rightarrow> string \<Rightarrow> string list \<Rightarrow> 's \<Rightarrow> 's" and remove :: "string \<Rightarrow> string \<Rightarrow> string list \<Rightarrow> 's \<Rightarrow> 's"
    and member :: "'s \<Rightarrow> string \<Rightarrow> string \<Rightarrow> string \<Rightarrow> bool" and valid :: "string \<Rightarrow> bool"
  assumes member_add: "valid t \<Longrightarrow> valid t' \<Longrightarrow>
      member (add t g us s) t' u g' \<longleftrightarrow> member s t' u g' \<or> t' = t \<and> g' = g \<and> u \<in> set us"
    and member_remove: "valid t \<Longrightarrow> valid t' \<Longrightarrow>
      member (remove t g us s) t' u g' \<longleftrightarrow> member s t' u g' \<and> \<not> (t' = t \<and> g' = g \<and> u \<in> set us)"
begin

lemma add_then_remove: "valid t \<Longrightarrow> \<not> member (remove t g us (add t g us s)) t u g \<or> u \<notin> set us"
  by (simp add: member_remove)

lemma other_groups_untouched: "valid t \<Longrightarrow> valid t' \<Longrightarrow> (t', g') \<noteq> (t, g) \<Longrightarrow>
    member (add t g us s) t' u g' = member s t' u g' \<and> member (remove t g us s) t' u g' = member s t' u g'"
  by (auto simp: member_add member_remove)

end

definition no_nul :: "string \<Rightarrow> bool" where
  "no_nul s \<longleftrightarrow> CHR 0x00 \<notin> set s"

lemma nul_split: "no_nul t \<Longrightarrow> no_nul t' \<Longrightarrow> t @ CHR 0x00 # g = t' @ CHR 0x00 # g' \<longleftrightarrow> t = t' \<and> g = g'"
proof (induction t arbitrary: t')
  case Nil
  then show ?case by (cases t') (auto simp: no_nul_def)
next
  case (Cons c t)
  then show ?case by (cases t') (auto simp: no_nul_def)
qed

lemma fold_update_True: "map_of (fold (\<lambda>u. AList.update u True) us g) v = (if v \<in> set us then Some True else map_of g v)"
  by (induction us arbitrary: g) (auto simp: update_conv')

lemma fold_delete: "map_of (fold AList.delete us g) v = (if v \<in> set us then None else map_of g v)"
  by (induction us arbitrary: g) (auto simp: delete_conv')

interpretation groups: membership_table membership_Add membership_Remove
    "\<lambda>s t u g. static_IsMember s t u g = Inr True" no_nul
proof
  fix t t' g g' u us and s :: static_membership
  assume nul: "no_nul t" "no_nul t'"
  have key: "membershipKey t' g' = membershipKey t g \<longleftrightarrow> t' = t \<and> g' = g"
    using nul_split [OF nul(2,1)] by (simp add: membershipKey_def)
  show "static_IsMember (membership_Add t g us s) t' u g' = Inr True \<longleftrightarrow>
      static_IsMember s t' u g' = Inr True \<or> t' = t \<and> g' = g \<and> u \<in> set us"
    by (auto simp: static_IsMember_def membership_Add_def group_of_def update_conv' key fold_update_True)
  show "static_IsMember (membership_Remove t g us s) t' u g' = Inr True \<longleftrightarrow>
      static_IsMember s t' u g' = Inr True \<and> \<not> (t' = t \<and> g' = g \<and> u \<in> set us)"
  proof (cases "map_of s (membershipKey t g)")
    case None
    then show ?thesis by (auto simp: static_IsMember_def membership_Remove_def group_of_def)
  next
    case (Some grp)
    have empty: "fold AList.delete us grp = [] \<Longrightarrow> u \<notin> set us \<Longrightarrow> map_of grp u = None"
      using fold_delete [of us grp u] by simp
    show ?thesis
      using Some empty
      by (auto simp: static_IsMember_def membership_Remove_def group_of_def update_conv' delete_conv' key fold_delete Let_def)
  qed
qed

text \<open>
  The cache over a checker whose answers change with time: every entry holds an answer the checker
  gave less than the lifetime before the entry expires.
\<close>

definition cache_ok :: "(int \<Rightarrow> membership_checker) \<Rightarrow> int \<Rightarrow> cached_membership \<Rightarrow> bool" where
  "cache_ok inner now c \<longleftrightarrow> cmTtl c > 0 \<and>
     (\<forall>k m x. map_of (cmEntries c) k = Some (m, x) \<longrightarrow>
        (\<exists>tenant user grp. k = cacheKey tenant user grp \<and> no_nul tenant \<and> no_nul user \<and>
           x - cmTtl c \<le> now \<and> inner (x - cmTtl c) tenant user grp = Inr m))"

inductive cache_step :: "(int \<Rightarrow> membership_checker) \<Rightarrow> int \<times> cached_membership \<Rightarrow> int \<times> cached_membership \<Rightarrow> bool"
  for inner :: "int \<Rightarrow> membership_checker" where
  tick: "now \<le> later \<Longrightarrow> cache_step inner (now, c) (later, c)"
| ask: "no_nul tenant \<Longrightarrow> no_nul user \<Longrightarrow> cached_IsMember (inner now) now tenant user grp c = (c', r) \<Longrightarrow>
    cache_step inner (now, c) (now, c')"
| drop_one: "cache_step inner (now, c) (now, Invalidate tenant user grp c)"
| drop_group: "cache_step inner (now, c) (now, InvalidateGroup tenant grp c)"

lemma cacheKey_inject:
  "no_nul t \<Longrightarrow> no_nul u \<Longrightarrow> no_nul t' \<Longrightarrow> no_nul u' \<Longrightarrow> cacheKey t u g = cacheKey t' u' g' \<longleftrightarrow> t = t' \<and> u = u' \<and> g = g'"
  by (auto simp: cacheKey_def nul_split)

lemma map_of_filter_key: "map_of (filter (\<lambda>(k, _). Q k) al) k = (if Q k then map_of al k else None)"
  by (induction al) auto

lemma cache_ok_sub:
  "cache_ok inner now c \<Longrightarrow> now \<le> later \<Longrightarrow> (\<And>k v. map_of es k = Some v \<Longrightarrow> map_of (cmEntries c) k = Some v) \<Longrightarrow>
     cache_ok inner later (c\<lparr>cmEntries := es\<rparr>)"
  unfolding cache_ok_def by (simp, meson order.trans)

lemma cached_IsMember_cases:
  assumes "cached_IsMember inner now tenant user grp c = (c', r)"
  obtains (hit) mb x where "map_of (cmEntries c) (cacheKey tenant user grp) = Some (mb, x)" "now < x" "c' = c" "r = Inr mb"
  | (failed) e where "inner tenant user grp = Inl e" "c' = c" "r = Inl e"
  | (miss) mb es where "inner tenant user grp = Inr mb" "r = Inr mb" "es = [] \<or> es = cmEntries c"
      "c' = c\<lparr>cmEntries := AList.update (cacheKey tenant user grp) (mb, now + cmTtl c) es\<rparr>"
proof (cases "\<exists>mb x. map_of (cmEntries c) (cacheKey tenant user grp) = Some (mb, x) \<and> now < x")
  case True
  then obtain mb x where e: "map_of (cmEntries c) (cacheKey tenant user grp) = Some (mb, x)" "now < x" by blast
  then have "c' = c" "r = Inr mb" using assms by (simp_all add: cached_IsMember_def Let_def)
  then show ?thesis by (rule hit [OF e])
next
  case False
  have ask: "(case inner tenant user grp of
      Inl e \<Rightarrow> (c, Inl e)
    | Inr m \<Rightarrow> (c\<lparr>cmEntries := AList.update (cacheKey tenant user grp) (m, now + cmTtl c)
        (if int (length (cmEntries c)) \<ge> cmMaxSize c then [] else cmEntries c)\<rparr>, Inr m)) = (c', r)"
    using assms False unfolding cached_IsMember_def Let_def by (cases "map_of (cmEntries c) (cacheKey tenant user grp)")
      (auto split: if_splits)
  show ?thesis
  proof (cases "inner tenant user grp")
    case (Inl e)
    then have "c' = c" "r = Inl e" using ask by simp_all
    then show ?thesis by (rule failed [OF Inl])
  next
    case (Inr m)
    then have m: "r = Inr m" "c' = c\<lparr>cmEntries := AList.update (cacheKey tenant user grp) (m, now + cmTtl c)
        (if int (length (cmEntries c)) \<ge> cmMaxSize c then [] else cmEntries c)\<rparr>" using ask by simp_all
    show ?thesis by (rule miss [OF Inr m(1) _ m(2)]) simp
  qed
qed

lemma cache_ok_store:
  assumes "cache_ok inner now c" and "no_nul tenant" and "no_nul user" and "inner now tenant user grp = Inr mb"
    and "es = [] \<or> es = cmEntries c"
  shows "cache_ok inner now (c\<lparr>cmEntries := AList.update (cacheKey tenant user grp) (mb, now + cmTtl c) es\<rparr>)"
  unfolding cache_ok_def
proof (intro conjI allI impI)
  show "cmTtl (c\<lparr>cmEntries := AList.update (cacheKey tenant user grp) (mb, now + cmTtl c) es\<rparr>) > 0"
    using assms(1) by (simp add: cache_ok_def)
next
  fix k m x
  assume "map_of (cmEntries (c\<lparr>cmEntries := AList.update (cacheKey tenant user grp) (mb, now + cmTtl c) es\<rparr>)) k = Some (m, x)"
  then have e: "if k = cacheKey tenant user grp then m = mb \<and> x = now + cmTtl c else map_of (cmEntries c) k = Some (m, x)"
    using assms(5) by (auto simp: update_conv' split: if_splits)
  show "\<exists>t u g. k = cacheKey t u g \<and> no_nul t \<and> no_nul u \<and>
      x - cmTtl (c\<lparr>cmEntries := AList.update (cacheKey tenant user grp) (mb, now + cmTtl c) es\<rparr>) \<le> now \<and>
      inner (x - cmTtl (c\<lparr>cmEntries := AList.update (cacheKey tenant user grp) (mb, now + cmTtl c) es\<rparr>)) t u g = Inr m"
  proof (cases "k = cacheKey tenant user grp")
    case True
    then show ?thesis using e assms(2-4) by (intro exI [of _ tenant] exI [of _ user] exI [of _ grp]) simp
  next
    case False
    then have "map_of (cmEntries c) k = Some (m, x)" using e by simp
    then show ?thesis using assms(1) unfolding cache_ok_def by simp
  qed
qed

lemma cache_ok_ask:
  assumes "cache_ok inner now c" and "no_nul tenant" and "no_nul user"
    and "cached_IsMember (inner now) now tenant user grp c = (c', r)"
  shows "cache_ok inner now c' \<and> (r = Inr m \<longrightarrow> (\<exists>t. now - cmTtl c < t \<and> t \<le> now \<and> inner t tenant user grp = Inr m))"
  using assms(4)
proof (cases rule: cached_IsMember_cases)
  case (hit mb x)
  have "\<exists>t' u' g'. cacheKey tenant user grp = cacheKey t' u' g' \<and> no_nul t' \<and> no_nul u' \<and>
      x - cmTtl c \<le> now \<and> inner (x - cmTtl c) t' u' g' = Inr mb"
    using assms(1) hit(1) unfolding cache_ok_def by blast
  then have "x - cmTtl c \<le> now" "inner (x - cmTtl c) tenant user grp = Inr mb"
    using cacheKey_inject [OF assms(2,3)] by auto
  then show ?thesis using hit assms(1) by (auto intro!: exI [of _ "x - cmTtl c"])
next
  case (failed e)
  then show ?thesis using assms(1) by simp
next
  case (miss mb es)
  have "cmTtl c > 0" using assms(1) by (simp add: cache_ok_def)
  then show ?thesis
    using cache_ok_store [OF assms(1-3) miss(1,3)] miss by (auto intro!: exI [of _ now])
qed

lemma cache_step_ok: "cache_step inner s s' \<Longrightarrow> cache_ok inner (fst s) (snd s) \<Longrightarrow> cache_ok inner (fst s') (snd s')"
proof (induction rule: cache_step.induct)
  case (tick now later c)
  then show ?case using cache_ok_sub [of inner now c later "cmEntries c"] by simp
next
  case (ask tenant user now grp c c' r)
  then show ?case using cache_ok_ask [of inner now c tenant user grp c' r] by simp
next
  case (drop_one now c tenant user grp)
  then show ?case unfolding Invalidate_def fst_conv snd_conv
    by (rule cache_ok_sub [OF _ order.refl]) (simp add: delete_conv' split: if_splits)
next
  case (drop_group now c tenant grp)
  then show ?case unfolding InvalidateGroup_def Let_def fst_conv snd_conv
    by (rule cache_ok_sub [OF _ order.refl]) (simp add: map_of_filter_key split: if_splits)
qed

definition cache_init :: "int \<times> cached_membership \<Rightarrow> bool" where
  "cache_init s \<longleftrightarrow> (\<exists>ttl n. snd s = NewCachedMembership ttl n)"

interpretation membership_cache: state_machine cache_init "cache_step inner" "\<lambda>s. cache_ok inner (fst s) (snd s)"
  for inner :: "int \<Rightarrow> membership_checker"
proof
  fix s assume "cache_init s"
  then show "cache_ok inner (fst s) (snd s)" by (auto simp: cache_init_def NewCachedMembership_def cache_ok_def)
qed (rule cache_step_ok)



end
