(* ===== verification/Token.thy ===== *)
theory Token
  imports Access
begin

section \<open>Tokens\<close>

text \<open>
  The tokens of \<open>internal/identity/token.go\<close>: the URL form of base64, the verifier with its keys and
  revocations, verification and minting. The message authentication code and the JSON codecs are
  parameters. A minted token verifies, an accepted token was signed under a key the verifier holds,
  and retiring the first key leaves it in use for tokens that name no key.
\<close>

subsection \<open>Base64\<close>

text \<open>
  \<open>base64.RawURLEncoding\<close>: the URL alphabet without padding. The decoder skips line breaks, refuses
  any other foreign character and a single left-over character, and does not look at left-over bits.
\<close>

definition b64_char :: "nat \<Rightarrow> char" where
  "b64_char i =
     (if i < 26 then char_of (65 + i) else if i < 52 then char_of (71 + i) else if i < 62 then char_of (i - 4)
      else if i = 62 then CHR ''-'' else CHR ''_'')"

definition b64_val :: "char \<Rightarrow> nat option" where
  "b64_val c =
     (let n = of_char c in
      if 65 \<le> n \<and> n \<le> 90 then Some (n - 65) else if 97 \<le> n \<and> n \<le> 122 then Some (n - 71)
      else if 48 \<le> n \<and> n \<le> 57 then Some (n + 4) else if n = 45 then Some 62 else if n = 95 then Some 63 else None)"

fun b64_encode :: "nat list \<Rightarrow> nat list" where
  "b64_encode [] = []"
| "b64_encode [a] = [a div 4, (a mod 4) * 16]"
| "b64_encode [a, b] = [a div 4, (a mod 4) * 16 + b div 16, (b mod 16) * 4]"
| "b64_encode (a # b # c # xs) =
     [a div 4, (a mod 4) * 16 + b div 16, (b mod 16) * 4 + c div 64, c mod 64] @ b64_encode xs"

fun b64_decode :: "nat list \<Rightarrow> nat list option" where
  "b64_decode [] = Some []"
| "b64_decode [p] = None"
| "b64_decode [p, q] = Some [p * 4 + q div 16]"
| "b64_decode [p, q, r] = Some [p * 4 + q div 16, (q mod 16) * 16 + r div 4]"
| "b64_decode (p # q # r # s # xs) =
     map_option (\<lambda>ys. [p * 4 + q div 16, (q mod 16) * 16 + r div 4, (r mod 4) * 64 + s] @ ys) (b64_decode xs)"

definition EncodeToString :: "bytes \<Rightarrow> string" where
  "EncodeToString bs = map b64_char (b64_encode (map unat bs))"

definition DecodeString :: "string \<Rightarrow> bytes option" where
  "DecodeString s =
     (let vs = map b64_val (filter (\<lambda>c. c \<noteq> CHR 0x0A \<and> c \<noteq> CHR 0x0D) s) in
      if list_ex (\<lambda>v. v = None) vs then None else map_option (map of_nat) (b64_decode (map the vs)))"

subsection \<open>Claims and keys\<close>

record Claims =
  clSubject :: string
  clDeviceID :: string
  clTenant :: string
  clScopes :: "string list"
  clIssuedAt :: int
  clNotBefore :: int
  clExpiresAt :: int
  clIssuer :: string
  clTokenID :: string

record SigningKey =
  skID :: string
  skSecret :: bytes

record jwtHeader =
  jhAlg :: string
  jhTyp :: string
  jhKid :: string

text \<open>What a verifier keeps; a revocation holds until its time.\<close>

record verifier =
  vKeys :: "(string \<times> SigningKey) list"
  vFallback :: SigningKey
  vIssuer :: string
  vLeeway :: int
  vRevoked :: "(string \<times> int) list"

datatype token_error =
    NoSigningKey | ShortSigningKey string | ErrMalformedToken | ErrBadSignature | ErrTokenExpired
  | ErrTokenNotYetValid | ErrUnknownKeyID string | ErrNoSubject | MarshalFailed

text \<open>
  The message authentication code and the JSON codecs of the two parts of a token are parameters:
  every statement holds for each choice of them.
\<close>

record jwt_lib =
  libHmac :: "bytes \<Rightarrow> bytes \<Rightarrow> bytes"
  libMarshalHeader :: "jwtHeader \<Rightarrow> bytes option"
  libUnmarshalHeader :: "bytes \<Rightarrow> jwtHeader option"
  libMarshalClaims :: "Claims \<Rightarrow> bytes option"
  libUnmarshalClaims :: "bytes \<Rightarrow> Claims option"

text \<open>
  \<open>time.Unix(s, 0)\<close> in nanoseconds since 1970: the seconds are kept relative to the year 1 in 64
  bits, so a second count near the largest one wraps. The zero time is the year 1.
\<close>

definition unixToInternal :: int where "unixToInternal = 62135596800"

definition Unix :: "int \<Rightarrow> int" where
  "Unix s = (i64 (s + unixToInternal) - unixToInternal) * 1000000000"

definition zeroTime :: int where "zeroTime = - unixToInternal * 1000000000"

subsection \<open>Verification\<close>

fun add_keys :: "SigningKey list \<Rightarrow> (string \<times> SigningKey) list \<Rightarrow> token_error + (string \<times> SigningKey) list" where
  "add_keys [] al = Inr al"
| "add_keys (k # ks) al =
     (if length (skSecret k) < 32 then Inl (ShortSigningKey (skID k)) else add_keys ks (AList.update (skID k) k al))"

definition NewVerifier :: "SigningKey list \<Rightarrow> string \<Rightarrow> int \<Rightarrow> token_error + verifier" where
  "NewVerifier ks issuer leeway =
     (if length ks = 0 then Inl NoSigningKey
      else case add_keys ks [] of
             Inl e \<Rightarrow> Inl e
           | Inr al \<Rightarrow> Inr \<lparr>vKeys = al, vFallback = ks ! 0, vIssuer = issuer,
               vLeeway = (if leeway \<le> 0 then 60000000000 else leeway), vRevoked = []\<rparr>)"

definition AddKey :: "SigningKey \<Rightarrow> verifier \<Rightarrow> verifier \<times> (token_error + unit)" where
  "AddKey k v =
     (if length (skSecret k) < 32 then (v, Inl (ShortSigningKey (skID k)))
      else (v\<lparr>vKeys := AList.update (skID k) k (vKeys v)\<rparr>, Inr ()))"

definition RemoveKey :: "string \<Rightarrow> verifier \<Rightarrow> verifier" where
  "RemoveKey i v = v\<lparr>vKeys := AList.delete i (vKeys v)\<rparr>"

definition Revoke :: "int \<Rightarrow> string \<Rightarrow> int \<Rightarrow> verifier \<Rightarrow> verifier" where
  "Revoke now tokenID until v =
     v\<lparr>vRevoked := filter (\<lambda>(_, exp). \<not> now > exp) (AList.update tokenID until (vRevoked v))\<rparr>"

definition select_key :: "jwtHeader \<Rightarrow> verifier \<Rightarrow> token_error + SigningKey" where
  "select_key hdr v =
     (if jhKid hdr \<noteq> [] then
        (case map_of (vKeys v) (jhKid hdr) of None \<Rightarrow> Inl (ErrUnknownKeyID (jhKid hdr)) | Some k \<Rightarrow> Inr k)
      else Inr (vFallback v))"

definition principal_of :: "Claims \<Rightarrow> principal" where
  "principal_of claims =
     (let scopes = fold (\<lambda>s. AList.update s True) (clScopes claims) [];
          scopes = (if length scopes = 0
                    then AList.update ScopePresence True (AList.update ScopeSubscribe True (AList.update ScopePublish True scopes))
                    else scopes);
          expires = Unix (clExpiresAt claims)
      in \<lparr>prUserID = clSubject claims, prDeviceID = clDeviceID claims, prTenant = clTenant claims, prScopes = scopes,
          prExpiresAt = (if clExpiresAt claims \<noteq> 0 \<and> expires \<noteq> zeroTime then Some expires else None),
          prTokenID = clTokenID claims, prAnonymous = False\<rparr>)"

definition check_claims :: "Claims \<Rightarrow> int \<Rightarrow> verifier \<Rightarrow> token_error + principal" where
  "check_claims claims now v =
     (if clSubject claims = [] then Inl ErrNoSubject
      else if vIssuer v \<noteq> [] \<and> clIssuer claims \<noteq> vIssuer v then Inl ErrBadSignature
      else if clExpiresAt claims \<noteq> 0 \<and> now > Unix (clExpiresAt claims) + vLeeway v then Inl ErrTokenExpired
      else if clNotBefore claims \<noteq> 0 \<and> now < Unix (clNotBefore claims) - vLeeway v then Inl ErrTokenNotYetValid
      else if clTokenID claims \<noteq> [] \<and>
              (case map_of (vRevoked v) (clTokenID claims) of None \<Rightarrow> False | Some until \<Rightarrow> now < until)
      then Inl ErrBadSignature
      else Inr (principal_of claims))"

definition VerifyAt :: "jwt_lib \<Rightarrow> string \<Rightarrow> int \<Rightarrow> verifier \<Rightarrow> token_error + principal" where
  "VerifyAt lib token now v =
     (let parts = split_on (CHR ''.'') token in
      if length parts \<noteq> 3 then Inl ErrMalformedToken
      else case DecodeString (parts ! 0) of
        None \<Rightarrow> Inl ErrMalformedToken
      | Some headerJSON \<Rightarrow>
          (case libUnmarshalHeader lib headerJSON of
             None \<Rightarrow> Inl ErrMalformedToken
           | Some hdr \<Rightarrow>
               if jhAlg hdr \<noteq> ''HS256'' then Inl ErrBadSignature
               else case select_key hdr v of
                 Inl e \<Rightarrow> Inl e
               | Inr key \<Rightarrow>
                   (case DecodeString (parts ! 2) of
                      None \<Rightarrow> Inl ErrMalformedToken
                    | Some signature \<Rightarrow>
                        let expected = libHmac lib (skSecret key) (str_bytes (parts ! 0 @ ''.'' @ parts ! 1)) in
                        if signature \<noteq> expected then Inl ErrBadSignature
                        else case DecodeString (parts ! 1) of
                          None \<Rightarrow> Inl ErrMalformedToken
                        | Some claimsJSON \<Rightarrow>
                            (case libUnmarshalClaims lib claimsJSON of
                               None \<Rightarrow> Inl ErrMalformedToken
                             | Some claims \<Rightarrow> check_claims claims now v))))"

definition Sign :: "jwt_lib \<Rightarrow> SigningKey \<Rightarrow> Claims \<Rightarrow> token_error + string" where
  "Sign lib key claims =
     (if length (skSecret key) < 32 then Inl (ShortSigningKey (skID key))
      else if clSubject claims = [] then Inl ErrNoSubject
      else case libMarshalHeader lib \<lparr>jhAlg = ''HS256'', jhTyp = ''JWT'', jhKid = skID key\<rparr> of
        None \<Rightarrow> Inl MarshalFailed
      | Some hdrJSON \<Rightarrow>
          (case libMarshalClaims lib claims of
             None \<Rightarrow> Inl MarshalFailed
           | Some claimsJSON \<Rightarrow>
               let signingInput = EncodeToString hdrJSON @ ''.'' @ EncodeToString claimsJSON;
                   sig = libHmac lib (skSecret key) (str_bytes signingInput)
               in Inr (signingInput @ ''.'' @ EncodeToString sig)))"

definition principal_String :: "principal option \<Rightarrow> string" where
  "principal_String p =
     (case p of
        None \<Rightarrow> ''<nil>''
      | Some p \<Rightarrow>
          if prAnonymous p then ''shared-key''
          else if prDeviceID p \<noteq> [] then prUserID p @ ''/'' @ prDeviceID p else prUserID p)"

subsection \<open>Round trip of the encoding\<close>

lemma of_char_b64: "i < 64 \<Longrightarrow> of_char (b64_char i) =
    (if i < 26 then 65 + i else if i < 52 then 71 + i else if i < 62 then i - 4 else if i = 62 then 45 else 95)"
  by (auto simp: b64_char_def)

lemma b64_val_char [simp]: "i < 64 \<Longrightarrow> b64_val (b64_char i) = Some i"
  by (auto simp: b64_val_def Let_def of_char_b64)

lemma b64_char_plain:
  assumes "i < 64"
  shows "b64_char i \<noteq> CHR ''.''" and "b64_char i \<noteq> CHR 0x0A" and "b64_char i \<noteq> CHR 0x0D"
proof -
  have "(of_char (b64_char i) :: nat) \<notin> {46, 10, 13}" using assms by (auto simp: of_char_b64)
  then show "b64_char i \<noteq> CHR ''.''" "b64_char i \<noteq> CHR 0x0A" "b64_char i \<noteq> CHR 0x0D" by auto
qed

lemma b64_encode_bound: "\<forall>a \<in> set xs. a < 256 \<Longrightarrow> \<forall>i \<in> set (b64_encode xs). i < 64"
  by (induction xs rule: b64_encode.induct) auto

lemma b64_decode_encode: "\<forall>a \<in> set xs. a < 256 \<Longrightarrow> b64_decode (b64_encode xs) = Some xs"
proof (induction xs rule: b64_encode.induct)
  case (4 a b c xs)
  have "b div 16 < 16" "c div 64 < 4" using 4(2) by auto
  then have "(a mod 4 * 16 + b div 16) div 16 = a mod 4" "(a mod 4 * 16 + b div 16) mod 16 = b div 16"
    by simp_all
  moreover from \<open>c div 64 < 4\<close> have "(b mod 16 * 4 + c div 64) div 4 = b mod 16" "(b mod 16 * 4 + c div 64) mod 4 = c div 64"
    by simp_all
  ultimately show ?case using 4 by simp
qed auto

lemma unat_bytes: "\<forall>a \<in> set (map unat bs). a < 256" for bs :: bytes
proof -
  have "unat b < 256" for b :: byte using unsigned_less [of b] by simp
  then show ?thesis by simp
qed

lemma plain_EncodeToString: "CHR ''.'' \<notin> set (EncodeToString bs)"
  using b64_encode_bound [OF unat_bytes, of bs] b64_char_plain(1) by (force simp: EncodeToString_def)

lemma Decode_EncodeToString [simp]: "DecodeString (EncodeToString bs) = Some bs"
proof -
  have b: "\<forall>i \<in> set (b64_encode (map unat bs)). i < 64" by (rule b64_encode_bound [OF unat_bytes])
  then have "filter (\<lambda>c. c \<noteq> CHR 0x0A \<and> c \<noteq> CHR 0x0D) (EncodeToString bs) = EncodeToString bs"
    by (auto simp: EncodeToString_def b64_char_plain)
  moreover have "map b64_val (EncodeToString bs) = map Some (b64_encode (map unat bs))"
    using b by (simp add: EncodeToString_def)
  ultimately show ?thesis
    using b64_decode_encode [OF unat_bytes, of bs] by (simp add: DecodeString_def list_ex_iff comp_def map_idI)
qed

subsection \<open>What a verifier accepts\<close>

text \<open>Every key a verifier may use is long enough.\<close>

definition verifier_ok :: "verifier \<Rightarrow> bool" where
  "verifier_ok v \<longleftrightarrow> length (skSecret (vFallback v)) \<ge> 32 \<and> (\<forall>(i, k) \<in> set (vKeys v). length (skSecret k) \<ge> 32)"

inductive verifier_step :: "verifier \<Rightarrow> verifier \<Rightarrow> bool" where
  add_key: "verifier_step v (fst (AddKey k v))"
| remove_key: "verifier_step v (RemoveKey i v)"
| revoke: "verifier_step v (Revoke now i until v)"

definition verifier_init :: "verifier \<Rightarrow> bool" where
  "verifier_init v \<longleftrightarrow> (\<exists>ks issuer leeway. NewVerifier ks issuer leeway = Inr v)"

lemma add_keys_ok:
  "add_keys ks al = Inr al' \<Longrightarrow> \<forall>(i, k) \<in> set al. length (skSecret k) \<ge> 32 \<Longrightarrow>
     (\<forall>k \<in> set ks. length (skSecret k) \<ge> 32) \<and> (\<forall>(i, k) \<in> set al'. length (skSecret k) \<ge> 32)"
proof (induction ks arbitrary: al)
  case (Cons k ks)
  from Cons.prems(1) have k: "length (skSecret k) \<ge> 32" "add_keys ks (AList.update (skID k) k al) = Inr al'" by (auto split: if_splits)
  have "\<forall>(i, x) \<in> set (AList.update (skID k) k al). length (skSecret x) \<ge> 32"
    by (rule update_all [OF Cons.prems(2)]) (simp add: k(1))
  from Cons.IH [OF k(2) this] k(1) show ?case by simp
qed auto

interpretation verifier_machine: state_machine verifier_init verifier_step verifier_ok
proof
  fix v assume "verifier_init v"
  then obtain ks issuer leeway where n: "NewVerifier ks issuer leeway = Inr v" by (auto simp: verifier_init_def)
  then obtain al where al: "add_keys ks [] = Inr al" "vKeys v = al" "ks \<noteq> []" "vFallback v = ks ! 0"
    by (auto simp: NewVerifier_def split: if_splits sum.splits)
  with add_keys_ok [OF al(1)] show "verifier_ok v" by (auto simp: verifier_ok_def)
next
  fix v v' assume "verifier_step v v'" "verifier_ok v"
  then show "verifier_ok v'"
  proof cases
    case (add_key k)
    then show ?thesis
      using \<open>verifier_ok v\<close> update_all [of "vKeys v" "\<lambda>(i, k). length (skSecret k) \<ge> 32" "skID k" k]
      by (simp add: AddKey_def verifier_ok_def)
  next
    case (remove_key i)
    then show ?thesis
      using \<open>verifier_ok v\<close> by (auto simp: RemoveKey_def verifier_ok_def AList.delete_eq)
  qed (auto simp: Revoke_def verifier_ok_def)
qed

text \<open>The checks on the claims that lead to a principal.\<close>

definition claims_current :: "Claims \<Rightarrow> int \<Rightarrow> verifier \<Rightarrow> bool" where
  "claims_current claims now v \<longleftrightarrow>
     clSubject claims \<noteq> [] \<and> (vIssuer v \<noteq> [] \<longrightarrow> clIssuer claims = vIssuer v) \<and>
     (clExpiresAt claims \<noteq> 0 \<longrightarrow> now \<le> Unix (clExpiresAt claims) + vLeeway v) \<and>
     (clNotBefore claims \<noteq> 0 \<longrightarrow> Unix (clNotBefore claims) - vLeeway v \<le> now) \<and>
     (clTokenID claims \<noteq> [] \<longrightarrow> (\<forall>until. map_of (vRevoked v) (clTokenID claims) = Some until \<longrightarrow> until \<le> now))"

lemma check_claims_iff: "check_claims claims now v = Inr p \<longleftrightarrow> claims_current claims now v \<and> p = principal_of claims"
  by (auto simp: check_claims_def claims_current_def not_less split: option.splits)

lemma VerifyAt_iff:
  "VerifyAt lib token now v = Inr p \<longleftrightarrow>
     (\<exists>h c s hj cj hdr key claims. split_on (CHR ''.'') token = [h, c, s] \<and>
        DecodeString h = Some hj \<and> libUnmarshalHeader lib hj = Some hdr \<and> jhAlg hdr = ''HS256'' \<and>
        select_key hdr v = Inr key \<and> DecodeString s = Some (libHmac lib (skSecret key) (str_bytes (h @ ''.'' @ c))) \<and>
        DecodeString c = Some cj \<and> libUnmarshalClaims lib cj = Some claims \<and>
        claims_current claims now v \<and> p = principal_of claims)"
proof (cases "length (split_on (CHR ''.'') token) = 3")
  case True
  then obtain h c s where parts: "split_on (CHR ''.'') token = [h, c, s]"
    by (auto simp: numeral_3_eq_3 length_Suc_conv)
  show ?thesis
    unfolding VerifyAt_def Let_def parts
    by (auto simp: check_claims_iff split: option.splits sum.splits if_splits)
next
  case False
  then show ?thesis by (auto simp: VerifyAt_def Let_def)
qed

lemma select_key_ok:
  assumes "verifier_ok v" and "select_key hdr v = Inr key"
  shows "length (skSecret key) \<ge> 32 \<and> (key = vFallback v \<or> (\<exists>i. map_of (vKeys v) i = Some key))"
proof (cases "jhKid hdr = []")
  case True
  then show ?thesis using assms by (simp add: select_key_def verifier_ok_def)
next
  case False
  then have k: "map_of (vKeys v) (jhKid hdr) = Some key" using assms(2) by (simp add: select_key_def split: option.splits)
  then show ?thesis using assms(1) map_of_SomeD [OF k] by (auto simp: verifier_ok_def)
qed

lemma principal_of_admin: "HasScope (Some (principal_of claims)) ScopeAdmin \<longleftrightarrow> ScopeAdmin \<in> set (clScopes claims)"
proof (cases "clScopes claims")
  case Nil
  then show ?thesis
    by (simp add: HasScope_def principal_of_def Let_def ScopeAdmin_def ScopePublish_def ScopeSubscribe_def ScopePresence_def update_conv')
next
  case (Cons s ss)
  have "map_of (fold (\<lambda>s. AList.update s True) (clScopes claims) []) s = Some True" by (simp add: fold_update_True Cons)
  then have "length (fold (\<lambda>s. AList.update s True) (clScopes claims) []) \<noteq> 0" by auto
  then show ?thesis by (simp add: HasScope_def principal_of_def Let_def fold_update_True)
qed

text \<open>
  C22: A token is accepted only when its signature is the code of its first two parts under a key the
  verifier holds, of at least 32 bytes, whatever algorithm and key the token asks for; and only
  while its claims are current and it is not revoked. The principal is the user of the claims,
  never a shared key, and is an administrator only when the claims say so.
\<close>

theorem VerifyAt_sound:
  assumes "reachable verifier_init verifier_step v" and "VerifyAt lib token now v = Inr p"
  shows "\<exists>h c s key claims. split_on (CHR ''.'') token = [h, c, s] \<and>
      (key = vFallback v \<or> (\<exists>i. map_of (vKeys v) i = Some key)) \<and> length (skSecret key) \<ge> 32 \<and>
      DecodeString s = Some (libHmac lib (skSecret key) (str_bytes (h @ ''.'' @ c))) \<and>
      (\<exists>cj. DecodeString c = Some cj \<and> libUnmarshalClaims lib cj = Some claims) \<and> claims_current claims now v \<and>
      prUserID p = clSubject claims \<and> prUserID p \<noteq> [] \<and> \<not> prAnonymous p \<and>
      (HasScope (Some p) ScopeAdmin \<longleftrightarrow> ScopeAdmin \<in> set (clScopes claims))"
proof -
  have ok: "verifier_ok v" by (rule verifier_machine.reachable_inv [OF assms(1)])
  obtain h c s hj cj hdr key claims where a: "split_on (CHR ''.'') token = [h, c, s]" "select_key hdr v = Inr key"
      "DecodeString s = Some (libHmac lib (skSecret key) (str_bytes (h @ ''.'' @ c)))"
      "DecodeString c = Some cj" "libUnmarshalClaims lib cj = Some claims" "claims_current claims now v" "p = principal_of claims"
    using assms(2) unfolding VerifyAt_iff by blast
  have p: "prUserID p = clSubject claims" "\<not> prAnonymous p" "clSubject claims \<noteq> []"
    using a(6,7) by (simp_all add: principal_of_def Let_def claims_current_def)
  show ?thesis
    using a select_key_ok [OF ok a(2)] p principal_of_admin [of claims]
    by (intro exI [of _ h] exI [of _ c] exI [of _ s] exI [of _ key] exI [of _ claims]) auto
qed

text \<open>What minting relies on of the JSON codecs.\<close>

definition json_faithful :: "jwt_lib \<Rightarrow> jwtHeader \<Rightarrow> Claims \<Rightarrow> bool" where
  "json_faithful lib hdr claims \<longleftrightarrow>
     (\<exists>hj cj. libMarshalHeader lib hdr = Some hj \<and> libUnmarshalHeader lib hj = Some hdr \<and>
        libMarshalClaims lib claims = Some cj \<and> libUnmarshalClaims lib cj = Some claims)"

lemma Sign_parts:
  assumes "Sign lib key claims = Inr token"
    and "json_faithful lib \<lparr>jhAlg = ''HS256'', jhTyp = ''JWT'', jhKid = skID key\<rparr> claims"
  shows "\<exists>h c s hj cj. split_on (CHR ''.'') token = [h, c, s] \<and> DecodeString h = Some hj \<and> DecodeString c = Some cj \<and>
      libUnmarshalHeader lib hj = Some \<lparr>jhAlg = ''HS256'', jhTyp = ''JWT'', jhKid = skID key\<rparr> \<and>
      libUnmarshalClaims lib cj = Some claims \<and>
      DecodeString s = Some (libHmac lib (skSecret key) (str_bytes (h @ ''.'' @ c)))"
proof -
  obtain hj cj where j: "libMarshalHeader lib \<lparr>jhAlg = ''HS256'', jhTyp = ''JWT'', jhKid = skID key\<rparr> = Some hj"
      "libUnmarshalHeader lib hj = Some \<lparr>jhAlg = ''HS256'', jhTyp = ''JWT'', jhKid = skID key\<rparr>"
      "libMarshalClaims lib claims = Some cj" "libUnmarshalClaims lib cj = Some claims"
    using assms(2) by (auto simp: json_faithful_def)
  let ?h = "EncodeToString hj" and ?c = "EncodeToString cj"
  let ?s = "EncodeToString (libHmac lib (skSecret key) (str_bytes (?h @ ''.'' @ ?c)))"
  have "token = ?h @ CHR ''.'' # ?c @ CHR ''.'' # ?s"
    using assms(1) j by (simp add: Sign_def Let_def split: if_splits)
  then have "split_on (CHR ''.'') token = [?h, ?c, ?s]"
    by (simp only: split_on_append [OF plain_EncodeToString] split_on_plain [OF plain_EncodeToString])
  then show ?thesis using j(2,4) by (intro exI [of _ ?h] exI [of _ ?c] exI [of _ ?s] exI [of _ hj] exI [of _ cj]) simp
qed

text \<open>
  C23: A minted token is accepted by a verifier that holds the key under the identifier of the header,
  as long as the claims are current, and the principal carries the claims.
\<close>

theorem Sign_VerifyAt:
  assumes "Sign lib key claims = Inr token"
    and "json_faithful lib \<lparr>jhAlg = ''HS256'', jhTyp = ''JWT'', jhKid = skID key\<rparr> claims"
    and "if skID key = [] then vFallback v = key else map_of (vKeys v) (skID key) = Some key"
    and "claims_current claims now v"
  shows "VerifyAt lib token now v = Inr (principal_of claims)"
proof -
  have "select_key \<lparr>jhAlg = ''HS256'', jhTyp = ''JWT'', jhKid = skID key\<rparr> v = Inr key"
    using assms(3) by (auto simp: select_key_def split: if_splits)
  then show ?thesis
    using Sign_parts [OF assms(1,2)] assms(4) unfolding VerifyAt_iff
    by (metis jwtHeader.select_convs(1))
qed

lemma retired_key_still_verifies_facts:
  assumes "NewVerifier (key # ks) issuer leeway = Inr v" and "skID key = i"
    and "Sign lib (key\<lparr>skID := []\<rparr>) claims = Inr token"
    and "json_faithful lib \<lparr>jhAlg = ''HS256'', jhTyp = ''JWT'', jhKid = []\<rparr> claims" and "claims_current claims now (RemoveKey i v)"
  shows "map_of (vKeys (RemoveKey i v)) i = None" and "VerifyAt lib token now (RemoveKey i v) = Inr (principal_of claims)"
proof -
  show "map_of (vKeys (RemoveKey i v)) i = None" by (simp add: RemoveKey_def delete_conv')
  have "vFallback (RemoveKey i v) = key"
    using assms(1) by (auto simp: NewVerifier_def RemoveKey_def split: sum.splits if_splits)
  then have "select_key \<lparr>jhAlg = ''HS256'', jhTyp = ''JWT'', jhKid = []\<rparr> (RemoveKey i v) = Inr key" by (simp add: select_key_def)
  then show "VerifyAt lib token now (RemoveKey i v) = Inr (principal_of claims)"
    using Sign_parts [OF assms(3)] assms(4,5) unfolding VerifyAt_iff by simp (metis jwtHeader.select_convs(1))
qed

text \<open>
  Retiring the first key of the configuration does not retire it as the key of tokens that name
  none: such a token, signed with the retired key, is still accepted.
\<close>

theorem retired_key_still_verifies:
  assumes "NewVerifier (key # ks) issuer leeway = Inr v" and "skID key = i"
    and "Sign lib (key\<lparr>skID := []\<rparr>) claims = Inr token"
    and "json_faithful lib \<lparr>jhAlg = ''HS256'', jhTyp = ''JWT'', jhKid = []\<rparr> claims" and "claims_current claims now (RemoveKey i v)"
  shows "map_of (vKeys (RemoveKey i v)) i = None \<and>
    VerifyAt lib token now (RemoveKey i v) = Inr (principal_of claims)"
  by (assumption | rule retired_key_still_verifies_facts [OF assms] | rule impI | rule conjI)+

text \<open>
  The clock tolerance of the verifier is not one of the policy: a token that is past its expiry but
  within the tolerance is accepted, and every request made with it is refused.
\<close>

theorem leeway_token_unusable:
  assumes "VerifyAt lib token now v = Inr p" and "prExpiresAt p = Some t" and "t < now"
  shows "Authorize now pol (Some p) topic action = Inl ErrDeniedExpired"
proof -
  have "\<not> prAnonymous p" using assms(1) by (auto simp: VerifyAt_iff principal_of_def Let_def)
  then show ?thesis using assms(2,3) by (simp add: Authorize_def Expired_def)
qed

text \<open>A library in which a header is its key identifier and the claims are their subject.\<close>

definition sample_claims :: "string \<Rightarrow> Claims" where
  "sample_claims u = \<lparr>clSubject = u, clDeviceID = [], clTenant = [], clScopes = [], clIssuedAt = 0, clNotBefore = 0,
     clExpiresAt = 0, clIssuer = [], clTokenID = []\<rparr>"

definition sample_lib :: jwt_lib where
  "sample_lib = \<lparr>libHmac = (\<lambda>k d. take 4 k @ d), libMarshalHeader = (\<lambda>h. Some (str_bytes (jhKid h))),
     libUnmarshalHeader = (\<lambda>bs. Some \<lparr>jhAlg = ''HS256'', jhTyp = ''JWT'', jhKid = bytes_str bs\<rparr>),
     libMarshalClaims = (\<lambda>c. Some (str_bytes (clSubject c))),
     libUnmarshalClaims = (\<lambda>bs. Some (sample_claims (bytes_str bs)))\<rparr>"

definition sample_key :: "string \<Rightarrow> SigningKey" where
  "sample_key i = \<lparr>skID = i, skSecret = replicate 32 7\<rparr>"

definition sample_verifier :: verifier where
  "sample_verifier = \<lparr>vKeys = [(''k1'', sample_key ''k1'')], vFallback = sample_key ''k1'', vIssuer = [],
     vLeeway = 60000000000, vRevoked = []\<rparr>"

lemma sample_verifier_new: "NewVerifier [sample_key ''k1''] [] 0 = Inr sample_verifier"
  by (simp add: NewVerifier_def sample_verifier_def sample_key_def)

lemma sample_lib_faithful: "json_faithful sample_lib \<lparr>jhAlg = ''HS256'', jhTyp = ''JWT'', jhKid = i\<rparr> (sample_claims u)"
  by (auto simp: json_faithful_def sample_lib_def sample_claims_def)

lemma sample_claims_current: "vIssuer v = [] \<Longrightarrow> claims_current (sample_claims ''ann'') now v"
  by (simp add: claims_current_def sample_claims_def)

lemma sample_Sign: "\<exists>token. Sign sample_lib (sample_key i) (sample_claims ''ann'') = Inr token"
  by (simp add: Sign_def sample_key_def sample_claims_def sample_lib_def Let_def)

theorem Sign_VerifyAt_witness:
  "\<exists>token. Sign sample_lib (sample_key ''k1'') (sample_claims ''ann'') = Inr token \<and>
     VerifyAt sample_lib token 5 sample_verifier = Inr (principal_of (sample_claims ''ann''))"
proof -
  obtain token where t: "Sign sample_lib (sample_key ''k1'') (sample_claims ''ann'') = Inr token" using sample_Sign by blast
  have "VerifyAt sample_lib token 5 sample_verifier = Inr (principal_of (sample_claims ''ann''))"
    by (rule Sign_VerifyAt [OF t sample_lib_faithful])
      (simp_all add: sample_verifier_def sample_key_def sample_claims_current)
  with t show ?thesis by blast
qed

theorem VerifyAt_sound_witness:
  "\<exists>token h c s (key :: SigningKey) claims. split_on (CHR ''.'') token = [h, c, s] \<and> length (skSecret key) \<ge> 32 \<and>
     DecodeString s = Some (libHmac sample_lib (skSecret key) (str_bytes (h @ ''.'' @ c))) \<and>
     claims_current claims 5 sample_verifier"
proof -
  obtain token where t: "Sign sample_lib (sample_key ''k1'') (sample_claims ''ann'') = Inr token" using sample_Sign by blast
  obtain h c s hj cj where j: "split_on (CHR ''.'') token = [h, c, s]" "DecodeString h = Some hj" "DecodeString c = Some cj"
      "libUnmarshalHeader sample_lib hj = Some \<lparr>jhAlg = ''HS256'', jhTyp = ''JWT'', jhKid = ''k1''\<rparr>"
      "libUnmarshalClaims sample_lib cj = Some (sample_claims ''ann'')"
      "DecodeString s = Some (libHmac sample_lib (skSecret (sample_key ''k1'')) (str_bytes (h @ ''.'' @ c)))"
    using Sign_parts [OF t sample_lib_faithful] by (auto simp: sample_key_def)
  have k: "select_key \<lparr>jhAlg = ''HS256'', jhTyp = ''JWT'', jhKid = ''k1''\<rparr> sample_verifier = Inr (sample_key ''k1'')"
    by (simp add: select_key_def sample_verifier_def)
  have ok: "VerifyAt sample_lib token 5 sample_verifier = Inr (principal_of (sample_claims ''ann''))"
    unfolding VerifyAt_iff using j k sample_claims_current [of sample_verifier 5]
    by (intro exI [of _ h] exI [of _ c] exI [of _ s] exI [of _ hj] exI [of _ cj]
        exI [of _ "\<lparr>jhAlg = ''HS256'', jhTyp = ''JWT'', jhKid = ''k1''\<rparr>"] exI [of _ "sample_key ''k1''"] exI [of _ "sample_claims ''ann''"])
      (simp add: sample_verifier_def)
  have "reachable verifier_init verifier_step sample_verifier"
    by (rule reach_init) (use sample_verifier_new in \<open>auto simp: verifier_init_def\<close>)
  from VerifyAt_sound [OF this ok] show ?thesis by (elim exE conjE) (intro exI conjI)
qed

theorem retired_key_still_verifies_witness:
  "\<exists>token. VerifyAt sample_lib token 5 (RemoveKey ''k1'' sample_verifier) = Inr (principal_of (sample_claims ''ann''))"
proof -
  obtain token where t: "Sign sample_lib (sample_key []) (sample_claims ''ann'') = Inr token" using sample_Sign by blast
  have "VerifyAt sample_lib token 5 (RemoveKey ''k1'' sample_verifier) = Inr (principal_of (sample_claims ''ann''))"
    by (rule retired_key_still_verifies [THEN conjunct2, OF sample_verifier_new _ _ sample_lib_faithful])
      (use t in \<open>simp_all add: sample_key_def sample_claims_current RemoveKey_def sample_verifier_def\<close>)
  then show ?thesis by blast
qed

end
