(* ===== verification/Stream_Record.thy ===== *)
theory Stream_Record
  imports Checksum
begin

unbundle bit_operations_syntax

section \<open>The on-disk record format\<close>

text \<open>
  Model of \<open>internal/stream/record.go\<close> and of the transport functions of
  \<open>internal/stream/replicate.go\<close>: the record, its framing with length and checksum, and the
  optional leader epoch that a flag announces.

  The lemmas show that the codec is a round trip on records whose headers fit their 16-bit
  length fields, that a frame is read back from the front of a byte stream and leaves the
  rest, and that a one-byte change of a body never decodes.
\<close>

text \<open>The errors of package \<open>stream\<close>, one constructor per sentinel or formatted error.\<close>

datatype stream_error =
    ErrCorruptRecord
  | ErrRecordTooLarge nat
  | ErrKeyTooLong nat
  | ErrEOF
  | ErrUnexpectedEOF
  | ErrIO string
  | ErrReadOnlySegment u64
  | ErrSeqTruncated u64 u64
  | ErrClosed
  | ErrReplicationGap u64 u64
  | ErrNotPartitionLeader
  | ErrEphemeral
  | ErrNoSequence
  | ErrUndefinedEpoch
  | ErrStaleEpoch u32 u32
  | ErrEpochOrder u32 u64 u32 u64
  | ErrRefuseTruncate u64 u64

text \<open>Headers are a Go map; the list order is the order in which the runtime iterates it.\<close>

record stream_record =
  rSeq :: u64
  rTimestamp :: s64
  rKey :: bytes
  rHeaders :: "(bytes \<times> bytes) list"
  rPayload :: bytes
  rFlags :: byte
  rEpoch :: u32

definition FlagTombstone :: byte where "FlagTombstone = 1"
definition FlagEphemeral :: byte where "FlagEphemeral = 2"
definition FlagHasEpoch :: byte where "FlagHasEpoch = 4"

lemmas flag_defs = FlagTombstone_def FlagEphemeral_def FlagHasEpoch_def

definition recordFrameHeaderSize :: nat where "recordFrameHeaderSize = 8"
definition recordBodyHeaderSize :: nat where "recordBodyHeaderSize = 27"
definition recordEpochSize :: nat where "recordEpochSize = 4"
definition MaxRecordSize :: nat where "MaxRecordSize = 8388608"

lemmas record_sizes =
  recordFrameHeaderSize_def recordBodyHeaderSize_def recordEpochSize_def MaxRecordSize_def

subsection \<open>Headers\<close>

definition encodeHeader :: "bytes \<times> bytes \<Rightarrow> bytes" where
  "encodeHeader kv = put16 (of_nat (length (fst kv))) @ fst kv @ put16 (of_nat (length (snd kv))) @ snd kv"

definition encodeHeaders :: "(bytes \<times> bytes) list \<Rightarrow> bytes" where
  "encodeHeaders h = concat (map encodeHeader h)"

function decodeHeaders_loop ::
  "bytes \<Rightarrow> (bytes \<times> bytes) list \<Rightarrow> stream_error + (bytes \<times> bytes) list" where
  "decodeHeaders_loop buf h =
     (if buf = [] then Inr h
      else if length buf < 2 then Inl ErrCorruptRecord
      else
        let kl = unat (get16 buf); buf1 = drop 2 buf in
        if length buf1 < kl + 2 then Inl ErrCorruptRecord
        else
          let k = take kl buf1; buf2 = drop kl buf1; vl = unat (get16 buf2); buf3 = drop 2 buf2 in
          if length buf3 < vl then Inl ErrCorruptRecord
          else decodeHeaders_loop (drop vl buf3) (AList.update k (take vl buf3) h))"
  by pat_completeness auto
termination
  by (relation "measure (\<lambda>(buf, h). length buf)") (auto simp: Let_def)

declare decodeHeaders_loop.simps [simp del]

definition decodeHeaders :: "bytes \<Rightarrow> stream_error + (bytes \<times> bytes) list" where
  "decodeHeaders buf = (if length buf = 0 then Inr [] else decodeHeaders_loop buf [])"

subsection \<open>Records\<close>

definition bodyHeaderSize :: "stream_record \<Rightarrow> nat" where
  "bodyHeaderSize r =
     (if rEpoch r > 0 then recordBodyHeaderSize + recordEpochSize else recordBodyHeaderSize)"

definition encodedSize :: "stream_record \<Rightarrow> nat" where
  "encodedSize r =
     recordFrameHeaderSize + bodyHeaderSize r + length (rKey r) + length (encodeHeaders (rHeaders r)) +
     length (rPayload r)"

definition encodeFlags :: "stream_record \<Rightarrow> byte" where
  "encodeFlags r =
     (if rEpoch r > 0 then rFlags r OR FlagHasEpoch else rFlags r AND NOT FlagHasEpoch)"

text \<open>The body as the offsets of the source lay it out.\<close>

definition encodeBody :: "stream_record \<Rightarrow> bytes" where
  "encodeBody r =
     (let hdr = encodeHeaders (rHeaders r) in
      put64 (rSeq r) @ put64 (rTimestamp r) @ [encodeFlags r] @
      put16 (of_nat (length (rKey r))) @ put32 (of_nat (length hdr)) @ put32 (of_nat (length (rPayload r))) @
      (if rEpoch r > 0 then put32 (rEpoch r) else []) @
      rKey r @ hdr @ rPayload r)"

definition frame_of :: "bytes \<Rightarrow> bytes" where
  "frame_of body = put32 (crc32 body) @ put32 (of_nat (length body)) @ body"

definition encode :: "stream_record \<Rightarrow> stream_error + bytes" where
  "encode r =
     (let bodyLen = bodyHeaderSize r + length (rKey r) + length (encodeHeaders (rHeaders r)) + length (rPayload r) in
      if bodyLen > MaxRecordSize then Inl (ErrRecordTooLarge bodyLen)
      else if length (rKey r) > 0xFFFF then Inl (ErrKeyTooLong (length (rKey r)))
      else Inr (frame_of (encodeBody r)))"

definition decodeRecordBody :: "bytes \<Rightarrow> stream_error + stream_record" where
  "decodeRecordBody body =
     (if length body < recordBodyHeaderSize then Inl ErrCorruptRecord
      else
        let flags = body ! 16;
            keyLen = unat (get16 (drop 17 body));
            hdrLen = unat (get32 (drop 19 body));
            payLen = unat (get32 (drop 23 body));
            hasEpoch = flags AND FlagHasEpoch \<noteq> 0;
            bodyHdr = (if hasEpoch then recordBodyHeaderSize + recordEpochSize else recordBodyHeaderSize)
        in
        if hasEpoch \<and> length body < bodyHdr then Inl ErrCorruptRecord
        else
          let epoch = (if hasEpoch then get32 (drop 27 body) else 0) in
          if bodyHdr + keyLen + hdrLen + payLen \<noteq> length body then Inl ErrCorruptRecord
          else
            case decodeHeaders (go_slice (bodyHdr + keyLen) (bodyHdr + keyLen + hdrLen) body) of
              Inl e \<Rightarrow> Inl e
            | Inr headers \<Rightarrow>
                Inr \<lparr>rSeq = get64 body, rTimestamp = get64 (drop 8 body),
                     rKey = go_slice bodyHdr (bodyHdr + keyLen) body, rHeaders = headers,
                     rPayload = go_slice (bodyHdr + keyLen + hdrLen) (bodyHdr + keyLen + hdrLen + payLen) body,
                     rFlags = flags AND NOT FlagHasEpoch, rEpoch = epoch\<rparr>)"

subsection \<open>Frames on a transport\<close>

definition EncodeRecord :: "stream_record \<Rightarrow> stream_error + bytes" where
  "EncodeRecord r = encode r"

definition DecodeRecord :: "bytes \<Rightarrow> stream_error + stream_record" where
  "DecodeRecord frame =
     (if length frame < recordFrameHeaderSize then Inl ErrCorruptRecord
      else
        let checksum = get32 frame; bodyLen = unat (get32 (drop 4 frame)) in
        if bodyLen < recordBodyHeaderSize \<or> bodyLen > MaxRecordSize then Inl ErrCorruptRecord
        else if length frame < recordFrameHeaderSize + bodyLen then Inl ErrCorruptRecord
        else
          let body = go_slice recordFrameHeaderSize (recordFrameHeaderSize + bodyLen) frame in
          if crc32 body \<noteq> checksum then Inl ErrCorruptRecord else decodeRecordBody body)"

text \<open>\<open>io.ReadFull\<close> on a byte stream: the first \<open>n\<close> bytes and the rest, or an error.\<close>

definition ReadFull :: "nat \<Rightarrow> bytes \<Rightarrow> stream_error + (bytes \<times> bytes)" where
  "ReadFull n r =
     (if n \<le> length r then Inr (take n r, drop n r)
      else if r = [] then Inl ErrEOF else Inl ErrUnexpectedEOF)"

definition ReadRecordFrame :: "bytes \<Rightarrow> stream_error + (bytes \<times> bytes)" where
  "ReadRecordFrame r =
     (case ReadFull recordFrameHeaderSize r of
        Inl e \<Rightarrow> Inl e
      | Inr (header, r1) \<Rightarrow>
          let bodyLen = unat (get32 (drop 4 header)) in
          if bodyLen < recordBodyHeaderSize \<or> bodyLen > MaxRecordSize then Inl ErrCorruptRecord
          else
            case ReadFull bodyLen r1 of
              Inl e \<Rightarrow> Inl e
            | Inr (body, r2) \<Rightarrow> Inr (header @ body, r2))"

subsection \<open>Round trips\<close>

text \<open>A header fits when its key and value have lengths a \<open>uint16\<close> can hold.\<close>

definition header_fits :: "bytes \<times> bytes \<Rightarrow> bool" where
  "header_fits kv \<longleftrightarrow> length (fst kv) < 65536 \<and> length (snd kv) < 65536"

definition headers_fit :: "(bytes \<times> bytes) list \<Rightarrow> bool" where
  "headers_fit h \<longleftrightarrow> distinct (map fst h) \<and> list_all header_fits h"

lemma decodeHeaders_loop_encodeHeader:
  assumes "header_fits kv"
  shows "decodeHeaders_loop (encodeHeader kv @ rest) h =
         decodeHeaders_loop rest (AList.update (fst kv) (snd kv) h)"
  using assms
  by (subst decodeHeaders_loop.simps)
     (simp add: encodeHeader_def header_fits_def unat_of_nat_16 Let_def)

lemma decodeHeaders_loop_encodeHeaders:
  "distinct (map fst (h @ h')) \<Longrightarrow> list_all header_fits h' \<Longrightarrow>
     decodeHeaders_loop (encodeHeaders h') h = Inr (h @ h')"
proof (induction h' arbitrary: h)
  case Nil
  then show ?case by (subst decodeHeaders_loop.simps) (simp add: encodeHeaders_def)
next
  case (Cons kv h')
  then have "fst kv \<notin> fst ` set h" by auto
  then have "AList.update (fst kv) (snd kv) h = h @ [kv]" by (simp add: AList_update_new)
  then have "decodeHeaders_loop (encodeHeaders (kv # h')) h = decodeHeaders_loop (encodeHeaders h') (h @ [kv])"
    using Cons.prems decodeHeaders_loop_encodeHeader [of kv "encodeHeaders h'" h]
    by (simp add: encodeHeaders_def)
  also have "\<dots> = Inr (h @ kv # h')"
    using Cons.IH [of "h @ [kv]"] Cons.prems by simp
  finally show ?case .
qed

lemma decodeHeaders_encodeHeaders: "headers_fit h \<Longrightarrow> decodeHeaders (encodeHeaders h) = Inr h"
  using decodeHeaders_loop_encodeHeaders [of "[]" h]
  by (cases h) (auto simp: decodeHeaders_def headers_fit_def encodeHeaders_def encodeHeader_def)

lemma length_encodeBody [codec]:
  "length (encodeBody r) =
     bodyHeaderSize r + length (rKey r) + length (encodeHeaders (rHeaders r)) + length (rPayload r)"
  by (simp add: encodeBody_def bodyHeaderSize_def record_sizes Let_def)

lemma length_frame_of [codec]: "length (frame_of body) = recordFrameHeaderSize + length body"
  by (simp add: frame_of_def record_sizes)

lemma frame_of_fields:
  "get32 (frame_of body @ rest) = crc32 body"
  "get32 (drop 4 (frame_of body @ rest)) = of_nat (length body)"
  "go_slice 8 (8 + length body) (frame_of body @ rest) = body"
  by (simp_all add: frame_of_def)

lemma encode_Inr_iff:
  "encode r = Inr f \<longleftrightarrow>
     length (encodeBody r) \<le> MaxRecordSize \<and> length (rKey r) \<le> 0xFFFF \<and> f = frame_of (encodeBody r)"
  by (auto simp: encode_def Let_def length_encodeBody)

lemma encode_length: "encode r = Inr f \<Longrightarrow> length f = encodedSize r"
  by (auto simp: encode_Inr_iff length_frame_of length_encodeBody encodedSize_def)

lemma flags_masked:
  "(f OR 4 :: byte) AND NOT 4 = f AND NOT 4" "(f AND NOT 4) AND NOT 4 = (f AND NOT 4 :: byte)"
  "(f OR 4 :: byte) AND 4 \<noteq> 0" "(f AND NOT 4) AND 4 = (0 :: byte)"
proof -
  show "(f OR 4) AND NOT 4 = f AND NOT 4" 
    by (simp only: bit.conj_disj_distrib2 bit.conj_cancel_right or.right_neutral)
  show "(f AND NOT 4) AND NOT 4 = (f AND NOT 4 :: byte)" by (simp add: and.assoc)
  show "(f AND NOT 4) AND 4 = (0 :: byte)" by (simp add: and.assoc)
  have "bit ((f OR 4 :: byte) AND 4) 2" by (simp add: bit_and_iff bit_or_iff)
  then show "(f OR 4 :: byte) AND 4 \<noteq> 0" by auto
qed


lemma encodeBody_fields:
  "get64 (encodeBody r) = rSeq r"
  "get64 (drop 8 (encodeBody r)) = rTimestamp r"
  "encodeBody r ! 16 = encodeFlags r"
  "get16 (drop 17 (encodeBody r)) = of_nat (length (rKey r))"
  "get32 (drop 19 (encodeBody r)) = of_nat (length (encodeHeaders (rHeaders r)))"
  "get32 (drop 23 (encodeBody r)) = of_nat (length (rPayload r))"
  "rEpoch r > 0 \<Longrightarrow> get32 (drop 27 (encodeBody r)) = rEpoch r"
  by (simp_all add: encodeBody_def Let_def nth_append)

lemma encodeBody_split:
  "\<exists>pre. encodeBody r = pre @ rKey r @ encodeHeaders (rHeaders r) @ rPayload r \<and> length pre = bodyHeaderSize r"
  by (rule exI [where x = "take (bodyHeaderSize r) (encodeBody r)"])
     (simp add: encodeBody_def Let_def bodyHeaderSize_def record_sizes)

lemma encodeBody_slices:
  "go_slice (bodyHeaderSize r) (bodyHeaderSize r + length (rKey r)) (encodeBody r) = rKey r"
  "go_slice (bodyHeaderSize r + length (rKey r))
     (bodyHeaderSize r + length (rKey r) + length (encodeHeaders (rHeaders r))) (encodeBody r) =
   encodeHeaders (rHeaders r)"
  "go_slice (bodyHeaderSize r + length (rKey r) + length (encodeHeaders (rHeaders r)))
     (bodyHeaderSize r + length (rKey r) + length (encodeHeaders (rHeaders r)) + length (rPayload r)) (encodeBody r) =
   rPayload r"
proof -
  obtain pre where pre: "encodeBody r = pre @ rKey r @ encodeHeaders (rHeaders r) @ rPayload r"
    and len: "length pre = bodyHeaderSize r"
    using encodeBody_split by blast
  show "go_slice (bodyHeaderSize r) (bodyHeaderSize r + length (rKey r)) (encodeBody r) = rKey r"
    by (simp add: pre flip: len)
  show "go_slice (bodyHeaderSize r + length (rKey r))
     (bodyHeaderSize r + length (rKey r) + length (encodeHeaders (rHeaders r))) (encodeBody r) =
   encodeHeaders (rHeaders r)"
    by (simp add: pre flip: len)
  show "go_slice (bodyHeaderSize r + length (rKey r) + length (encodeHeaders (rHeaders r)))
     (bodyHeaderSize r + length (rKey r) + length (encodeHeaders (rHeaders r)) + length (rPayload r)) (encodeBody r) =
   rPayload r"
    by (simp add: pre go_slice_all flip: len)
qed

lemma encodeFlags_hasEpoch: "encodeFlags r AND FlagHasEpoch \<noteq> 0 \<longleftrightarrow> rEpoch r > 0"
  using flags_masked(3,4) [of "rFlags r"] by (simp add: encodeFlags_def FlagHasEpoch_def)

lemma encodeFlags_masked: "encodeFlags r AND NOT FlagHasEpoch = rFlags r AND NOT FlagHasEpoch"
  using flags_masked(1,2) [of "rFlags r"] by (simp add: encodeFlags_def FlagHasEpoch_def)

definition normalised :: "stream_record \<Rightarrow> stream_record" where
  "normalised r = r\<lparr>rFlags := rFlags r AND NOT FlagHasEpoch\<rparr>"

lemma decodeRecordBody_encodeBody:
  assumes "length (encodeBody r) \<le> MaxRecordSize" and "length (rKey r) \<le> 0xFFFF"
    and "headers_fit (rHeaders r)"
  shows "decodeRecordBody (encodeBody r) = Inr (normalised r)"
proof -
  let ?hdr = "encodeHeaders (rHeaders r)"
  have lens: "unat (of_nat (length (rKey r)) :: u16) = length (rKey r)"
    "unat (of_nat (length ?hdr) :: u32) = length ?hdr"
    "unat (of_nat (length (rPayload r)) :: u32) = length (rPayload r)"
    using assms(1,2) by (auto intro!: unat_of_nat_16 unat_of_nat_32 simp: length_encodeBody MaxRecordSize_def)
  have hdr: "(if encodeFlags r AND FlagHasEpoch \<noteq> 0 then recordBodyHeaderSize + recordEpochSize
              else recordBodyHeaderSize) = bodyHeaderSize r"
    by (simp add: encodeFlags_hasEpoch bodyHeaderSize_def)
  have big: "\<not> length (encodeBody r) < recordBodyHeaderSize" "bodyHeaderSize r \<le> length (encodeBody r)"
    by (simp_all add: length_encodeBody bodyHeaderSize_def)
  have epoch: "(if encodeFlags r AND FlagHasEpoch \<noteq> 0 then get32 (drop 27 (encodeBody r)) else 0) = rEpoch r"
    using encodeBody_fields(7) [of r] by (auto simp: encodeFlags_hasEpoch word_greater_zero_iff)
  show ?thesis
    unfolding decodeRecordBody_def Let_def encodeBody_fields(1-6) lens hdr epoch
    using big
    by (simp add: length_encodeBody encodeBody_slices decodeHeaders_encodeHeaders assms(3)
        encodeFlags_masked normalised_def)
qed

lemma DecodeRecord_frame:
  assumes "recordBodyHeaderSize \<le> length body" and "length body \<le> MaxRecordSize"
  shows "DecodeRecord (frame_of body @ rest) = decodeRecordBody body"
proof -
  have "unat (of_nat (length body) :: u32) = length body"
    using assms(2) by (simp add: unat_of_nat_32 MaxRecordSize_def)
  then show ?thesis
    using assms frame_of_fields [of body rest] length_frame_of [of body]
    by (simp add: DecodeRecord_def Let_def recordFrameHeaderSize_def)
qed

subsection \<open>Properties of the codec\<close>

lemma encodeBody_bounds:
  "encode r = Inr f \<Longrightarrow> recordBodyHeaderSize \<le> length (encodeBody r) \<and> length (encodeBody r) \<le> MaxRecordSize"
  by (auto simp: encode_Inr_iff length_encodeBody bodyHeaderSize_def)

text \<open>
  C32: a record that \<open>encode\<close> accepts and whose headers fit their 16-bit length fields is read
  back by \<open>DecodeRecord\<close> from the front of any longer buffer, with every field intact; only the
  internal flag that announces an epoch is cleared.
\<close>

theorem encode_decode_roundtrip:
  assumes "encode r = Inr f" and "headers_fit (rHeaders r)"
  shows "DecodeRecord (f @ rest) = Inr (normalised r)"
  using assms encodeBody_bounds [OF assms(1)]
  by (simp add: encode_Inr_iff DecodeRecord_frame decodeRecordBody_encodeBody)

definition sample_record :: stream_record where
  "sample_record =
     \<lparr>rSeq = 7, rTimestamp = 1000, rKey = [0x63, 0x31], rHeaders = [([0x61], [0x62]), ([0x63], [])],
      rPayload = [1, 2, 3], rFlags = 5, rEpoch = 3\<rparr>"

lemma sample_headers_fit: "headers_fit (rHeaders sample_record)"
  by (simp add: headers_fit_def header_fits_def sample_record_def)

lemma sample_encode: "encode sample_record = Inr (frame_of (encodeBody sample_record))"
  by (simp add: encode_def bodyHeaderSize_def record_sizes sample_record_def encodeHeaders_def encodeHeader_def)

theorem encode_decode_roundtrip_witness:
  "DecodeRecord (frame_of (encodeBody sample_record) @ [9]) = Inr (sample_record\<lparr>rFlags := 1\<rparr>)"
  using encode_decode_roundtrip [OF sample_encode sample_headers_fit, of "[9]"]
  by (simp add: normalised_def sample_record_def FlagHasEpoch_def)

lemma frame_update:
  assumes "8 \<le> i" and "i < length (frame_of body)"
  shows "(frame_of body)[i := b] =
     put32 (crc32 body) @ put32 (of_nat (length body)) @ body[i - 8 := b]"
  using assms by (auto simp: frame_of_def list_update_append)

text \<open>
  C33: changing any single byte of an encoded record's body is detected: the frame no longer
  decodes.
\<close>

theorem one_byte_corruption_detected:
  assumes enc: "encode r = Inr f" and i: "8 \<le> i" "i < length f" and b: "b \<noteq> f ! i"
  shows "DecodeRecord (f[i := b]) = Inl ErrCorruptRecord"
proof -
  let ?body = "encodeBody r" and ?j = "i - 8"
  let ?g = "put32 (crc32 ?body) @ put32 (of_nat (length ?body)) @ ?body[?j := b]"
  have f: "f = frame_of ?body" and len: "recordBodyHeaderSize \<le> length ?body" "length ?body \<le> MaxRecordSize"
    using enc encodeBody_bounds [OF enc] by (auto simp: encode_Inr_iff)
  have j: "?j < length ?body" using i by (simp add: f length_frame_of recordFrameHeaderSize_def)
  have "f ! i = ?body ! ?j" using i by (auto simp: f frame_of_def nth_append)
  with b j have "crc32 (?body[?j := b]) \<noteq> crc32 ?body"
    using crc32_detects_one_byte [of b "?body ! ?j" "take ?j ?body" "drop (Suc ?j) ?body"]
    by (simp add: upd_conv_take_nth_drop id_take_nth_drop [symmetric])
  moreover have "go_slice 8 (8 + length ?body) ?g = ?body[?j := b]"
    using go_slice_all [of "?body[?j := b]" "length ?body"] by simp
  moreover have "unat (of_nat (length ?body) :: u32) = length ?body"
    using len by (simp add: unat_of_nat_32 MaxRecordSize_def)
  moreover have "f[i := b] = ?g" using i frame_update [of i ?body b] by (simp add: f)
  ultimately show ?thesis
    using len by (simp add: DecodeRecord_def Let_def recordFrameHeaderSize_def)
qed

theorem one_byte_corruption_detected_witness:
  "DecodeRecord ((frame_of (encodeBody sample_record))[8 := 0]) = Inl ErrCorruptRecord"
proof -
  have "0 \<noteq> frame_of (encodeBody sample_record) ! 8"
    by (simp add: frame_of_def nth_append encodeBody_def sample_record_def Let_def) (simp add: le_bytes_def)
  then show ?thesis
    by (intro one_byte_corruption_detected [OF sample_encode])
       (simp_all add: length_frame_of recordFrameHeaderSize_def length_encodeBody bodyHeaderSize_def record_sizes)
qed

text \<open>
  a reader takes exactly one frame off a transport and leaves the bytes that follow it, so
  a concatenation of frames is cut where the writer joined it.
\<close>

theorem ReadRecordFrame_encode:
  assumes "encode r = Inr f"
  shows "ReadRecordFrame (f @ rest) = Inr (f, rest)"
proof -
  let ?body = "encodeBody r"
  have f: "f = frame_of ?body" and len: "recordBodyHeaderSize \<le> length ?body" "length ?body \<le> MaxRecordSize"
    using assms encodeBody_bounds [OF assms] by (auto simp: encode_Inr_iff)
  have "unat (of_nat (length ?body) :: u32) = length ?body"
    using len by (simp add: unat_of_nat_32 MaxRecordSize_def)
  then show ?thesis
    using len by (simp add: f ReadRecordFrame_def ReadFull_def frame_of_def recordFrameHeaderSize_def Let_def)
qed

theorem ReadRecordFrame_encode_witness:
  "ReadRecordFrame (frame_of (encodeBody sample_record) @ [1, 2]) = Inr (frame_of (encodeBody sample_record), [1, 2])"
  by (rule ReadRecordFrame_encode [OF sample_encode])

lemma decodeHeaders_loop_fits:
  "decodeHeaders_loop buf h = Inr h' \<Longrightarrow> list_all header_fits h \<Longrightarrow> list_all header_fits h'"
proof (induction buf h rule: decodeHeaders_loop.induct)
  case (1 buf h)
  have u: "unat (w :: u16) < 65536" for w using unsigned_less [of w, where 'a = nat] by simp
  have upd: "list_all header_fits (AList.update k v h)" if "length k < 65536" "length v < 65536" for k v
    using that "1.prems"(2) set_AList_update [of k v h]
    by (auto simp: list_all_iff header_fits_def)
  show ?case
    using 1 upd u
    by (subst (asm) decodeHeaders_loop.simps) (auto simp: Let_def split: if_splits)
qed

text \<open>
  \<open>encodeHeaders\<close> truncates a header length to 16 bits without an error. A record with a
  longer header is accepted by \<open>encode\<close>, yet no decoding of its frame gives the headers back.
\<close>

theorem oversized_header_lost:
  assumes "encode r = Inr f" and "\<not> list_all header_fits (rHeaders r)"
  shows "\<nexists>r'. DecodeRecord (f @ rest) = Inr r' \<and> rHeaders r' = rHeaders r"
proof
  assume "\<exists>r'. DecodeRecord (f @ rest) = Inr r' \<and> rHeaders r' = rHeaders r"
  then obtain r' where r': "decodeRecordBody (encodeBody r) = Inr r'" "rHeaders r' = rHeaders r"
    using assms(1) encodeBody_bounds [OF assms(1)] by (auto simp: encode_Inr_iff DecodeRecord_frame)
  then have "list_all header_fits (rHeaders r')"
    by (auto simp: decodeRecordBody_def Let_def decodeHeaders_def split: if_splits sum.splits
        dest: decodeHeaders_loop_fits)
  with r'(2) assms(2) show False by simp
qed

theorem oversized_header_lost_witness:
  "\<nexists>r'. DecodeRecord (frame_of (encodeBody (sample_record\<lparr>rHeaders := [(replicate 65536 0, [])]\<rparr>)) @ []) = Inr r' \<and>
     rHeaders r' = [(replicate 65536 0, [])]"
proof -
  let ?r = "sample_record\<lparr>rHeaders := [(replicate 65536 0, [])]\<rparr>"
  have "encode ?r = Inr (frame_of (encodeBody ?r))"
    by (simp add: encode_def bodyHeaderSize_def record_sizes sample_record_def encodeHeaders_def encodeHeader_def)
  moreover have "\<not> list_all header_fits (rHeaders ?r)" by (simp add: header_fits_def)
  ultimately show ?thesis using oversized_header_lost [of ?r _ "[]"] by simp
qed

end
