(* ===== verification/Buffered_Writer.thy ===== *)
theory Buffered_Writer
  imports BoltQ_Prelude
begin

section \<open>Buffered writers\<close>

text \<open>
  \<open>bufio.Writer\<close> as the segment files and the cursor log use it: the bytes of the file, the
  buffered bytes and the sticky error. \<open>n\<close> is the size of the buffer and \<open>ok\<close> says whether a write
  of the file succeeds; a failing one writes nothing.
\<close>

text \<open>
  \<open>bufio.Writer.Write\<close>: a write that fits the buffer is copied; a longer one fills the buffer,
  flushes it and goes on, or goes straight to the file when the buffer is empty. The first
  failing file write makes every later call fail.
\<close>

definition bufio_write_empty :: "nat \<Rightarrow> bool \<Rightarrow> bytes \<Rightarrow> bytes \<Rightarrow> bytes \<times> (bytes \<times> bool)" where
  "bufio_write_empty n ok p file =
     (if length p \<le> n then (file, (p, False))
      else if ok then (file @ p, ([], False))
      else (file, ([], True)))"

definition bufio_write :: "nat \<Rightarrow> bool \<Rightarrow> bytes \<Rightarrow> bytes \<Rightarrow> bytes \<times> bool \<Rightarrow> bytes \<times> (bytes \<times> bool)" where
  "bufio_write n ok p file w =
     (let (buf, err) = w; avail = n - length buf in
      if err then (file, w)
      else if length p \<le> avail then (file, (buf @ p, False))
      else if buf = [] then bufio_write_empty n ok p file
      else if ok then bufio_write_empty n ok (drop avail p) (file @ buf @ take avail p)
      else (file, (buf @ take avail p, True)))"

definition bufio_flush :: "bool \<Rightarrow> bytes \<Rightarrow> bytes \<times> bool \<Rightarrow> bytes \<times> (bytes \<times> bool)" where
  "bufio_flush ok file w =
     (let (buf, err) = w in
      if err then (file, w)
      else if buf = [] then (file, w)
      else if ok then (file @ buf, ([], False))
      else (file, (buf, True)))"

lemma bufio_write_ok:
  assumes "ok" and "length buf \<le> n"
  obtains g' buf' where "bufio_write n ok p g (buf, False) = (g', (buf', False))"
    and "g' @ buf' = g @ buf @ p" and "length buf' \<le> n"
proof -
  have emp: "\<exists>g' buf'. bufio_write_empty n ok q g = (g', (buf', False)) \<and> g' @ buf' = g @ q \<and> length buf' \<le> n"
    for q g using assms(1) by (auto simp: bufio_write_empty_def)
  show thesis
  proof (cases "length p \<le> n - length buf")
    case True
    then show thesis using that [of g "buf @ p"] assms(2) by (simp add: bufio_write_def)
  next
    case False
    let ?a = "n - length buf"
    show thesis
    proof (cases "buf = []")
      case True
      then show thesis using that emp [of p g] False by (force simp: bufio_write_def)
    next
      case neq: False
      obtain g' buf' where *: "bufio_write_empty n ok (drop ?a p) (g @ buf @ take ?a p) = (g', (buf', False))"
        "g' @ buf' = (g @ buf @ take ?a p) @ drop ?a p" "length buf' \<le> n"
        using emp by blast
      show thesis
        by (rule that [of g' buf']) (use * neq False assms(1) in \<open>simp_all add: bufio_write_def Let_def\<close>)
    qed
  qed
qed

end
