(* ===== verification/Segment.thy ===== *)
theory Segment
  imports Stream_Record Buffered_Writer
begin

section \<open>Segments of a partition log (internal/stream/segment.go)\<close>

text \<open>
  A segment is an append-only log file with a sparse index beside it. The state has both files'
  bytes, the \<open>bufio.Writer\<close> in front of the log file (its buffered bytes and its sticky error;
  \<open>None\<close> for a nil writer), the index held in memory and the counters. A failing system call is a
  branch of every operation; a failing write of the log file writes nothing. \<open>createSegment\<close> and
  \<open>openSegment\<close> take the bytes found at their paths.

  The lemmas relate a segment to the list of its records (\<open>seg_rep\<close>): a read is a filter of that
  list, an append extends it, a truncation cuts it, and recovery after a crash finds every
  record whose frame survived whole.
\<close>

subsection \<open>File names\<close>

text \<open>
  \<open>fmt.Sprintf("%0*d", segmentNameWidth, baseSeq)\<close> and \<open>strconv.ParseUint(s, 10, 64)\<close>: decimal
  digits, most significant first, padded with zeros to the width.
\<close>

definition segmentNameWidth :: nat where "segmentNameWidth = 20"
definition logSuffix :: string where "logSuffix = ''.log''"

definition char_digit :: "char \<Rightarrow> nat option" where
  "char_digit c = (let n = of_char c :: nat in if 48 \<le> n \<and> n \<le> 57 then Some (n - 48) else None)"

definition pad_zeros :: "nat \<Rightarrow> string \<Rightarrow> string" where
  "pad_zeros w s = replicate (w - length s) (digit_char 0) @ s"

fun parse_digits :: "nat \<Rightarrow> string \<Rightarrow> nat option" where
  "parse_digits acc [] = Some acc"
| "parse_digits acc (c # cs) =
     (case char_digit c of
        None \<Rightarrow> None
      | Some d \<Rightarrow> let v = 10 * acc + d in if v < 2 ^ 64 then parse_digits v cs else None)"

definition ParseUint :: "string \<Rightarrow> u64 option" where
  "ParseUint s = (if s = [] then None else map_option of_nat (parse_digits 0 s))"

definition segmentLogName :: "u64 \<Rightarrow> string" where
  "segmentLogName baseSeq = pad_zeros segmentNameWidth (decimal (unat baseSeq)) @ logSuffix"

definition parseSegmentBase :: "string \<Rightarrow> u64 option" where
  "parseSegmentBase name =
     (if \<not> HasSuffix name logSuffix then None
      else ParseUint (take (length name - length logSuffix) name))"

definition listSegmentBases :: "(string \<times> bool) list \<Rightarrow> u64 list" where
  "listSegmentBases entries =
     sort (List.map_filter (\<lambda>(name, isDir). if isDir then None else parseSegmentBase name) entries)"

lemma char_digit_digit_char [simp]: "d < 10 \<Longrightarrow> char_digit (digit_char d) = Some d"
  by (simp add: char_digit_def digit_char_def Let_def of_char_of)

lemma parse_digits_snoc:
  "parse_digits acc (cs @ [c]) =
     (case parse_digits acc cs of None \<Rightarrow> None | Some v \<Rightarrow> parse_digits v [c])"
  by (induction cs arbitrary: acc) (auto simp: Let_def split: option.splits)

lemma parse_digits_zeros: "parse_digits 0 (replicate k (digit_char 0) @ s) = parse_digits 0 s"
  by (induction k) (simp_all add: Let_def)

lemma parse_digits_decimal: "n < 2 ^ 64 \<Longrightarrow> parse_digits 0 (decimal n) = Some n"
proof (induction n rule: decimal.induct)
  case (1 n)
  show ?case
  proof (cases "n < 10")
    case True
    then show ?thesis by (subst decimal.simps) (simp add: Let_def)
  next
    case False
    then have "parse_digits 0 (decimal (n div 10)) = Some (n div 10)" using 1 by simp
    moreover have "10 * (n div 10) + n mod 10 = n" by simp
    ultimately show ?thesis
      using "1.prems" False by (subst decimal.simps) (simp add: parse_digits_snoc Let_def)
  qed
qed

lemma parseSegmentBase_name: "parseSegmentBase (segmentLogName b) = Some b"
proof -
  have "parse_digits 0 (pad_zeros segmentNameWidth (decimal (unat b))) = Some (unat b)"
    using unsigned_less [of b, where 'a = nat] by (simp add: pad_zeros_def parse_digits_zeros parse_digits_decimal)
  then show ?thesis
    by (simp add: parseSegmentBase_def segmentLogName_def HasSuffix_def ParseUint_def) (simp add: pad_zeros_def)
qed
subsection \<open>State\<close>

record indexEntry =
  ieSeq :: u64
  iePos :: int

record segment =
  sgBase :: u64
  sgReadOnly :: bool
  sgFile :: bytes
  sgWriter :: "(bytes \<times> bool) option"
  sgIdxFile :: "bytes option"
  sgIdxOpen :: bool
  sgIndex :: "indexEntry list"
  sgSize :: int
  sgLastSeq :: u64
  sgSinceIdx :: int
  sgInterval :: int

definition indexEntrySize :: nat where "indexEntrySize = 16"
definition writerSize :: nat where "writerSize = 262144"

text \<open>\<open>io.NewSectionReader(file, pos, n)\<close>, read to its end; a negative offset reads nothing.\<close>

definition section_reader :: "bytes \<Rightarrow> int \<Rightarrow> int \<Rightarrow> bytes" where
  "section_reader file pos n = (if pos < 0 then [] else take (nat n) (drop (nat pos) file))"

text \<open>
  The steps the three scanning loops share: read a frame header, check the length it announces,
  read the body.
\<close>

datatype frame_step =
    FrameEnd
  | FrameBadLength
  | FrameBody u32 bytes bytes

definition next_frame :: "bytes \<Rightarrow> frame_step" where
  "next_frame r =
     (case ReadFull recordFrameHeaderSize r of
        Inl _ \<Rightarrow> FrameEnd
      | Inr (frame, r1) \<Rightarrow>
          let checksum = get32 frame; bodyLen = unat (get32 (drop 4 frame)) in
          if bodyLen < recordBodyHeaderSize \<or> bodyLen > MaxRecordSize then FrameBadLength
          else
            case ReadFull bodyLen r1 of
              Inl _ \<Rightarrow> FrameEnd
            | Inr (body, r2) \<Rightarrow> FrameBody checksum body r2)"

lemma next_frame_shorter: "next_frame r = FrameBody c b r2 \<Longrightarrow> length r2 < length r"
  by (auto simp: next_frame_def ReadFull_def Let_def record_sizes split: if_splits)

subsection \<open>Opening and recovery\<close>

definition createSegment :: "io \<Rightarrow> u64 \<Rightarrow> int \<Rightarrow> bytes \<times> bytes \<Rightarrow> stream_error + segment" where
  "createSegment io base interval old =
     (if \<not> io ''create segment log'' then Inl (ErrIO ''create segment log'')
      else if \<not> io ''create segment index'' then Inl (ErrIO ''create segment index'')
      else Inr \<lparr>sgBase = base, sgReadOnly = False, sgFile = fst old, sgWriter = Some ([], False),
                sgIdxFile = Some (snd old), sgIdxOpen = True, sgIndex = [], sgSize = 0,
                sgLastSeq = base - 1, sgSinceIdx = 0, sgInterval = interval\<rparr>)"

fun decodeIndex :: "nat \<Rightarrow> bytes \<Rightarrow> indexEntry list" where
  "decodeIndex 0 data = []"
| "decodeIndex (Suc n) data =
     \<lparr>ieSeq = get64 data, iePos = sint (get64 (drop 8 data))\<rparr> # decodeIndex n (drop indexEntrySize data)"

definition loadIndex :: "io \<Rightarrow> segment \<Rightarrow> stream_error + segment" where
  "loadIndex io s =
     (case sgIdxFile s of
        None \<Rightarrow> Inr s
      | Some data \<Rightarrow>
          if \<not> io ''read segment index'' then Inl (ErrIO ''read segment index'')
          else Inr (s\<lparr>sgIndex := decodeIndex (length data div indexEntrySize) data\<rparr>))"

text \<open>
  The backwards loop of \<open>recover\<close>, on the reversed index: entries past the end of the file are
  dropped until one inside it is found.
\<close>

fun recover_start :: "int \<Rightarrow> indexEntry list \<Rightarrow> u64 \<Rightarrow> indexEntry list \<times> int \<times> u64" where
  "recover_start fileSize [] lastSeq = ([], 0, lastSeq)"
| "recover_start fileSize (e # es) lastSeq =
     (if iePos e < fileSize then (rev (e # es), iePos e, ieSeq e - 1)
      else recover_start fileSize es lastSeq)"

function recover_loop :: "bytes \<Rightarrow> u64 \<Rightarrow> int \<Rightarrow> u64 \<times> int" where
  "recover_loop reader lastSeq pos =
     (case next_frame reader of
        FrameEnd \<Rightarrow> (lastSeq, pos)
      | FrameBadLength \<Rightarrow> (lastSeq, pos)
      | FrameBody checksum body reader' \<Rightarrow>
          if crc32 body \<noteq> checksum then (lastSeq, pos)
          else recover_loop reader' (get64 body) (pos + int recordFrameHeaderSize + int (length body)))"
  by pat_completeness auto
termination
  by (relation "measure (\<lambda>(r, l, p). length r)") (auto dest: next_frame_shorter)

declare recover_loop.simps [simp del]

definition recover_segment :: "io \<Rightarrow> segment \<Rightarrow> stream_error + segment" where
  "recover_segment io s =
     (if \<not> io ''stat segment'' then Inl (ErrIO ''stat segment'')
      else
        let fileSize = int (length (sgFile s));
            (index, pos0, last0) = recover_start fileSize (rev (sgIndex s)) (sgLastSeq s);
            (lastSeq, pos) = recover_loop (section_reader (sgFile s) pos0 (fileSize - pos0)) last0 pos0;
            s' = s\<lparr>sgIndex := index, sgLastSeq := lastSeq, sgSize := pos\<rparr>
        in
        if pos \<noteq> fileSize \<and> \<not> sgReadOnly s then
          (if pos < 0 \<or> \<not> io ''truncate torn segment'' then Inl (ErrIO ''truncate torn segment'')
           else if \<not> io ''seek after truncate'' then Inl (ErrIO ''seek after truncate'')
           else Inr (s'\<lparr>sgFile := take (nat pos) (sgFile s)\<rparr>))
        else Inr s')"

definition openSegment ::
  "io \<Rightarrow> u64 \<Rightarrow> int \<Rightarrow> bool \<Rightarrow> bytes \<Rightarrow> bytes option \<Rightarrow> stream_error + segment" where
  "openSegment io base interval readOnly file idx =
     (if \<not> io ''open segment log'' then Inl (ErrIO ''open segment log'')
      else
        let s = \<lparr>sgBase = base, sgReadOnly = readOnly, sgFile = file, sgWriter = None, sgIdxFile = idx,
                 sgIdxOpen = False, sgIndex = [], sgSize = 0, sgLastSeq = base - 1, sgSinceIdx = 0,
                 sgInterval = interval\<rparr>
        in
        case loadIndex io s of
          Inl e \<Rightarrow> Inl e
        | Inr s1 \<Rightarrow>
            (case recover_segment io s1 of
               Inl e \<Rightarrow> Inl e
             | Inr s2 \<Rightarrow>
                 if readOnly then Inr s2
                 else if \<not> io ''open segment index'' then Inl (ErrIO ''open segment index'')
                 else Inr (s2\<lparr>sgWriter := Some ([], False), sgIdxOpen := True,
                              sgIdxFile := Some (case idx of None \<Rightarrow> [] | Some d \<Rightarrow> d)\<rparr>)))"

subsection \<open>Writing\<close>

definition encodeIndexEntry :: "indexEntry \<Rightarrow> bytes" where
  "encodeIndexEntry e = put64 (ieSeq e) @ put64 (word_of_int (iePos e))"

text \<open>\<open>append\<close>: the index entry goes straight to its file, the record into the write buffer.\<close>

definition append_index :: "io \<Rightarrow> u64 \<Rightarrow> segment \<Rightarrow> segment \<times> (stream_error + unit)" where
  "append_index io seq s =
     (if sgSinceIdx s \<ge> sgInterval s \<or> sgIndex s = [] then
        let e = \<lparr>ieSeq = seq, iePos = sgSize s\<rparr> in
        (if \<not> sgIdxOpen s \<or> \<not> io ''write index entry'' then (s, Inl (ErrIO ''write index entry''))
         else (s\<lparr>sgIdxFile := Some ((case sgIdxFile s of None \<Rightarrow> [] | Some d \<Rightarrow> d) @ encodeIndexEntry e),
                 sgIndex := sgIndex s @ [e], sgSinceIdx := 0\<rparr>, Inr ()))
      else (s, Inr ()))"

definition segment_append :: "io \<Rightarrow> bytes \<Rightarrow> u64 \<Rightarrow> segment \<Rightarrow> segment \<times> (stream_error + unit)" where
  "segment_append io encoded seq s =
     (if sgReadOnly s then (s, Inl (ErrReadOnlySegment (sgBase s)))
      else
        case append_index io seq s of
          (s1, Inl e) \<Rightarrow> (s1, Inl e)
        | (s1, Inr _) \<Rightarrow>
            (case sgWriter s1 of
               None \<Rightarrow> (s1, Inl (ErrIO ''write record''))
             | Some w \<Rightarrow>
                 let (file, w') = bufio_write writerSize (io ''write segment log'') encoded (sgFile s1) w;
                     s2 = s1\<lparr>sgFile := file, sgWriter := Some w'\<rparr>
                 in
                 if snd w' then (s2, Inl (ErrIO ''write record''))
                 else (s2\<lparr>sgSize := sgSize s2 + int (length encoded),
                          sgSinceIdx := sgSinceIdx s2 + int (length encoded), sgLastSeq := seq\<rparr>, Inr ())))"

definition segment_flush :: "io \<Rightarrow> segment \<Rightarrow> segment \<times> (stream_error + unit)" where
  "segment_flush io s =
     (case sgWriter s of
        None \<Rightarrow> (s, Inr ())
      | Some w \<Rightarrow>
          let (file, w') = bufio_flush (io ''write segment log'') (sgFile s) w in
          (s\<lparr>sgFile := file, sgWriter := Some w'\<rparr>,
           if snd w' then Inl (ErrIO ''write segment log'') else Inr ()))"

definition segment_sync :: "io \<Rightarrow> segment \<Rightarrow> segment \<times> (stream_error + unit)" where
  "segment_sync io s =
     (case segment_flush io s of
        (s1, Inl e) \<Rightarrow> (s1, Inl e)
      | (s1, Inr _) \<Rightarrow>
          if sgIdxOpen s1 \<and> \<not> io ''sync segment index'' then (s1, Inl (ErrIO ''sync segment index''))
          else if \<not> io ''sync segment log'' then (s1, Inl (ErrIO ''sync segment log''))
          else (s1, Inr ()))"

subsection \<open>Reading\<close>

definition seekPos :: "u64 \<Rightarrow> segment \<Rightarrow> int" where
  "seekPos seq s =
     (let i = sort_search (length (sgIndex s)) (\<lambda>i. ieSeq (sgIndex s ! i) > seq) in
      if i = 0 then 0 else iePos (sgIndex s ! (i - 1)))"

function read_loop ::
  "u64 \<Rightarrow> int \<Rightarrow> int \<Rightarrow> bytes \<Rightarrow> stream_record list \<Rightarrow> int \<Rightarrow> stream_record list \<times> stream_error option" where
  "read_loop fromSeq maxRecords maxBytes reader out bytesRead =
     (if int (length out) < maxRecords then
        case next_frame reader of
          FrameEnd \<Rightarrow> (out, None)
        | FrameBadLength \<Rightarrow> (out, Some ErrCorruptRecord)
        | FrameBody checksum body reader' \<Rightarrow>
            if crc32 body \<noteq> checksum then (out, Some ErrCorruptRecord)
            else if get64 body < fromSeq then read_loop fromSeq maxRecords maxBytes reader' out bytesRead
            else
              (case decodeRecordBody body of
                 Inl e \<Rightarrow> (out, Some e)
               | Inr rec \<Rightarrow>
                   let bytesRead' = bytesRead + int (length body) in
                   if maxBytes > 0 \<and> bytesRead' \<ge> maxBytes then (out @ [rec], None)
                   else read_loop fromSeq maxRecords maxBytes reader' (out @ [rec]) bytesRead')
      else (out, None))"
  by pat_completeness auto
termination
  by (relation "measure (\<lambda>(f, m, b, r, out, n). length r)") (auto dest: next_frame_shorter)

declare read_loop.simps [simp del]

definition segment_read ::
  "io \<Rightarrow> u64 \<Rightarrow> int \<Rightarrow> int \<Rightarrow> segment \<Rightarrow> segment \<times> stream_record list \<times> stream_error option" where
  "segment_read io fromSeq maxRecords maxBytes s =
     (case segment_flush io s of
        (s1, Inl e) \<Rightarrow> (s1, [], Some e)
      | (s1, Inr _) \<Rightarrow>
          let limit = sgSize s1; start = seekPos fromSeq s1 in
          if start \<ge> limit then (s1, [], None)
          else (s1, read_loop fromSeq maxRecords maxBytes (section_reader (sgFile s1) start (limit - start)) [] 0))"

subsection \<open>Truncation\<close>

function scan_loop :: "u64 \<Rightarrow> int \<Rightarrow> bytes \<Rightarrow> int \<Rightarrow> stream_error + int" where
  "scan_loop seq limit reader pos =
     (if pos < limit then
        case next_frame reader of
          FrameEnd \<Rightarrow> Inr limit
        | FrameBadLength \<Rightarrow> Inl ErrCorruptRecord
        | FrameBody _ body reader' \<Rightarrow>
            if get64 body \<ge> seq then Inr pos
            else scan_loop seq limit reader' (pos + int recordFrameHeaderSize + int (length body))
      else Inr limit)"
  by pat_completeness auto
termination
  by (relation "measure (\<lambda>(q, z, r, p). length r)") (auto dest: next_frame_shorter)

declare scan_loop.simps [simp del]

definition scanForOffsetLocked :: "u64 \<Rightarrow> segment \<Rightarrow> stream_error + int" where
  "scanForOffsetLocked seq s =
     (let pos = seekPos seq s in
      scan_loop seq (sgSize s) (section_reader (sgFile s) pos (sgSize s - pos)) pos)"

definition encodeIndex :: "indexEntry list \<Rightarrow> bytes" where
  "encodeIndex es = concat (map encodeIndexEntry es)"

definition rewriteIndexLocked :: "io \<Rightarrow> segment \<Rightarrow> segment \<times> (stream_error + unit)" where
  "rewriteIndexLocked io s =
     (let s1 = s\<lparr>sgIdxOpen := False\<rparr> in
      if \<not> io ''rewrite segment index'' then (s1, Inl (ErrIO ''rewrite segment index''))
      else
        let s2 = s1\<lparr>sgIdxFile := Some (encodeIndex (sgIndex s))\<rparr> in
        if \<not> io ''reopen segment index'' then (s2, Inl (ErrIO ''reopen segment index''))
        else (s2\<lparr>sgIdxOpen := True\<rparr>, Inr ()))"

definition segment_truncateTo :: "io \<Rightarrow> u64 \<Rightarrow> segment \<Rightarrow> segment \<times> (stream_error + bool)" where
  "segment_truncateTo io seq s =
     (if sgReadOnly s then (s, Inl (ErrReadOnlySegment (sgBase s)))
      else
        case segment_flush io s of
          (s1, Inl e) \<Rightarrow> (s1, Inl e)
        | (s1, Inr _) \<Rightarrow>
            if seq > sgLastSeq s1 then (s1, Inr False)
            else
              (case scanForOffsetLocked seq s1 of
                 Inl e \<Rightarrow> (s1, Inl e)
               | Inr pos \<Rightarrow>
                   if pos \<ge> sgSize s1 then (s1, Inr False)
                   else if pos < 0 \<or> \<not> io ''truncate segment log'' then (s1, Inl (ErrIO ''truncate segment log''))
                   else
                     let s2 = s1\<lparr>sgFile := take (nat pos) (sgFile s1)\<rparr> in
                     if \<not> io ''seek after truncate'' then (s2, Inl (ErrIO ''seek after truncate''))
                     else
                       let keep = sort_search (length (sgIndex s2)) (\<lambda>i. ieSeq (sgIndex s2 ! i) \<ge> seq);
                           s3 = s2\<lparr>sgIndex := take keep (sgIndex s2)\<rparr>
                       in
                       case rewriteIndexLocked io s3 of
                         (s4, Inl e) \<Rightarrow> (s4, Inl e)
                       | (s4, Inr _) \<Rightarrow>
                           (s4\<lparr>sgSize := pos, sgLastSeq := seq - 1, sgSinceIdx := 0,
                               sgWriter := Some ([], False)\<rparr>, Inr True)))"

definition reopenWritable :: "io \<Rightarrow> segment \<Rightarrow> segment \<times> (stream_error + unit)" where
  "reopenWritable io s =
     (if \<not> sgReadOnly s then (s, Inr ())
      else if \<not> io ''reopen segment log for write'' then (s, Inl (ErrIO ''reopen segment log for write''))
      else if \<not> io ''reopen segment index for write'' then (s, Inl (ErrIO ''reopen segment index for write''))
      else (s\<lparr>sgIdxFile := Some (case sgIdxFile s of None \<Rightarrow> [] | Some d \<Rightarrow> d), sgIdxOpen := True,
              sgWriter := Some ([], False), sgReadOnly := False\<rparr>, Inr ()))"

subsection \<open>Queries\<close>

definition contains :: "u64 \<Rightarrow> segment \<Rightarrow> bool" where
  "contains seq s \<longleftrightarrow> sgBase s \<le> seq \<and> seq \<le> sgLastSeq s"

definition lastSequence :: "segment \<Rightarrow> u64" where
  "lastSequence s = sgLastSeq s"

definition segment_bytes :: "segment \<Rightarrow> int" where
  "segment_bytes s = sgSize s"

definition isEmpty :: "segment \<Rightarrow> bool" where
  "isEmpty s \<longleftrightarrow> sgLastSeq s < sgBase s"

definition firstTimestamp :: "io \<Rightarrow> segment \<Rightarrow> segment \<times> s64" where
  "firstTimestamp io s =
     (case segment_read io (sgBase s) 1 0 s of
        (s1, recs, err) \<Rightarrow> (s1, if err \<noteq> None \<or> recs = [] then 0 else rTimestamp (hd recs)))"


subsection \<open>What a segment holds\<close>

text \<open>
  The abstract content of a segment is the list of its records, with consecutive sequences
  from the base on. \<open>seg_rep s rs\<close> says that the bytes of the file and of the write buffer are
  the frames of \<open>rs\<close>, and that the counters and the sparse index agree with them.
\<close>

definition storable :: "stream_record \<Rightarrow> bool" where
  "storable r \<longleftrightarrow> length (encodeBody r) \<le> MaxRecordSize \<and> length (rKey r) \<le> 0xFFFF \<and>
     headers_fit (rHeaders r) \<and> normalised r = r"

definition frames :: "stream_record list \<Rightarrow> bytes" where
  "frames rs = concat (map (\<lambda>r. frame_of (encodeBody r)) rs)"

definition numbered :: "u64 \<Rightarrow> stream_record list \<Rightarrow> bool" where
  "numbered base rs \<longleftrightarrow> base \<noteq> 0 \<and> unat base + length rs < 2 ^ 64 \<and>
     (\<forall>k < length rs. rSeq (rs ! k) = base + of_nat k)"

definition entry_for :: "u64 \<Rightarrow> stream_record list \<Rightarrow> nat \<Rightarrow> indexEntry" where
  "entry_for base rs k = \<lparr>ieSeq = base + of_nat k, iePos = int (length (frames (take k rs)))\<rparr>"

definition index_ok :: "u64 \<Rightarrow> stream_record list \<Rightarrow> indexEntry list \<Rightarrow> bool" where
  "index_ok base rs idx \<longleftrightarrow>
     (\<exists>ks. sorted ks \<and> (\<forall>k \<in> set ks. k \<le> length rs) \<and> idx = map (entry_for base rs) ks)"

definition seg_content :: "segment \<Rightarrow> bytes" where
  "seg_content s = sgFile s @ (case sgWriter s of None \<Rightarrow> [] | Some w \<Rightarrow> fst w)"

definition seg_rep :: "segment \<Rightarrow> stream_record list \<Rightarrow> bool" where
  "seg_rep s rs \<longleftrightarrow>
     list_all storable rs \<and> numbered (sgBase s) rs \<and> seg_content s = frames rs \<and>
     sgSize s = int (length (frames rs)) \<and> sgLastSeq s = sgBase s + of_nat (length rs) - 1 \<and>
     index_ok (sgBase s) rs (sgIndex s) \<and>
     (case sgWriter s of None \<Rightarrow> True | Some w \<Rightarrow> \<not> snd w \<and> length (fst w) \<le> writerSize)"

lemma frames_simps [simp]:
  "frames [] = []" "frames (r # rs) = frame_of (encodeBody r) @ frames rs"
  "frames (xs @ ys) = frames xs @ frames ys"
  by (simp_all add: frames_def)

lemma encodeBody_normalised [simp]: "encodeBody (normalised r) = encodeBody r"
proof -
  have "(f AND NOT 4) OR 4 = (f OR 4 :: byte)" for f
    by (simp only: bit.disj_conj_distrib2 bit.disj_cancel_left and.right_neutral)
  moreover have "(f AND NOT 4) AND NOT 4 = (f AND NOT 4 :: byte)" for f by (rule flags_masked)
  ultimately show ?thesis
    by (simp add: encodeBody_def normalised_def encodeFlags_def FlagHasEpoch_def)
qed

lemma normalised_idem [simp]: "normalised (normalised r) = normalised r"
  by (simp add: normalised_def FlagHasEpoch_def flags_masked)

lemma normalised_fields [simp]:
  "rSeq (normalised r) = rSeq r" "rKey (normalised r) = rKey r" "rHeaders (normalised r) = rHeaders r"
  "rEpoch (normalised r) = rEpoch r" "rPayload (normalised r) = rPayload r" "rTimestamp (normalised r) = rTimestamp r"
  by (simp_all add: normalised_def)

lemma storable_normalised: "encode r = Inr f \<Longrightarrow> headers_fit (rHeaders r) \<Longrightarrow> storable (normalised r)"
  by (auto simp: storable_def encode_Inr_iff)

lemma next_frame_frame:
  assumes "recordBodyHeaderSize \<le> length b" and "length b \<le> MaxRecordSize"
  shows "next_frame (frame_of b @ rest) = FrameBody (crc32 b) b rest"
proof -
  have "unat (of_nat (length b) :: u32) = length b"
    using assms(2) by (simp add: unat_of_nat_32 MaxRecordSize_def)
  then show ?thesis
    using assms by (simp add: next_frame_def ReadFull_def frame_of_def recordFrameHeaderSize_def Let_def)
qed

lemma storable_bounds:
  "storable r \<Longrightarrow> recordBodyHeaderSize \<le> length (encodeBody r) \<and> length (encodeBody r) \<le> MaxRecordSize"
  by (simp add: storable_def length_encodeBody bodyHeaderSize_def)

lemma next_frame_storable [simp]:
  "storable r \<Longrightarrow> next_frame (frame_of (encodeBody r) @ rest) = FrameBody (crc32 (encodeBody r)) (encodeBody r) rest"
  by (simp add: next_frame_frame storable_bounds)

lemma decodeRecordBody_storable [simp]: "storable r \<Longrightarrow> decodeRecordBody (encodeBody r) = Inr r"
  by (simp add: storable_def decodeRecordBody_encodeBody)

lemma get64_encodeBody [simp]: "get64 (encodeBody r) = rSeq r"
  by (rule encodeBody_fields)

subsection \<open>Sequence numbers of a segment\<close>

lemma numbered_less:
  assumes "numbered base rs" and "i < j" and "j \<le> length rs"
  shows "base + of_nat i < base + of_nat j"
proof -
  have "unat (base + of_nat k) = unat base + k" if "k \<le> length rs" for k
    using that assms(1) by (simp add: numbered_def unat_word_ariths unat_of_nat take_bit_nat_def)
  then show ?thesis using assms by (simp add: word_less_nat_alt)
qed


lemma numbered_unat:
  "numbered base rs \<Longrightarrow> k \<le> length rs \<Longrightarrow> unat (base + of_nat k) = unat base + k"
  by (simp add: numbered_def unat_word_ariths unat_of_nat take_bit_nat_def)

lemma numbered_le_iff:
  "numbered base rs \<Longrightarrow> i \<le> length rs \<Longrightarrow> j \<le> length rs \<Longrightarrow> base + of_nat i \<le> base + of_nat j \<longleftrightarrow> i \<le> j"
  using numbered_unat [of base rs i] numbered_unat [of base rs j] by (simp add: word_le_nat_alt)

lemma numbered_less_iff:
  "numbered base rs \<Longrightarrow> i \<le> length rs \<Longrightarrow> j \<le> length rs \<Longrightarrow> base + of_nat i < base + of_nat j \<longleftrightarrow> i < j"
  using numbered_unat [of base rs i] numbered_unat [of base rs j] by (simp add: word_less_nat_alt)

lemma numbered_take: "numbered base rs \<Longrightarrow> numbered base (take n rs)"
  by (auto simp: numbered_def)

lemma numbered_append1:
  "numbered base rs \<Longrightarrow> unat base + Suc (length rs) < 2 ^ 64 \<Longrightarrow> rSeq r = base + of_nat (length rs) \<Longrightarrow>
     numbered base (rs @ [r])"
  by (auto simp: numbered_def nth_append less_Suc_eq)

lemma frames_take_mono: "j \<le> k \<Longrightarrow> length (frames (take j rs)) \<le> length (frames (take k rs))"
  by (metis frames_simps(3) le_add1 le_add_diff_inverse length_append take_add)

lemma frames_take_less:
  assumes "j < k" and "k \<le> length rs"
  shows "length (frames (take j rs)) < length (frames (take k rs))"
proof -
  have "length (frames (take (Suc j) rs)) = length (frames (take j rs)) + length (frame_of (encodeBody (rs ! j)))"
    using assms by (simp add: take_Suc_conv_app_nth)
  moreover have "length (frames (take (Suc j) rs)) \<le> length (frames (take k rs))"
    using assms by (intro frames_take_mono) simp
  ultimately show ?thesis by (simp add: length_frame_of recordFrameHeaderSize_def)
qed

lemma drop_frames: "drop (length (frames (take k rs))) (frames rs) = frames (drop k rs)"
  by (metis append_eq_conv_conj append_take_drop_id frames_simps(3))

lemma take_frames: "take (length (frames (take k rs))) (frames rs) = frames (take k rs)"
  by (metis append_eq_conv_conj append_take_drop_id frames_simps(3))

lemma section_reader_rest: "section_reader xs (int p) (int (length xs) - int p) = drop p xs"
  by (simp add: section_reader_def nat_minus_as_int [symmetric])

lemma section_frames:
  "section_reader (frames rs) (int (length (frames (take k rs))))
     (int (length (frames rs)) - int (length (frames (take k rs)))) = frames (drop k rs)"
  by (simp only: section_reader_rest drop_frames)

subsection \<open>The sparse index\<close>

lemma index_ok_upward:
  assumes "index_ok base rs idx" and "numbered base rs"
  shows "upward (\<lambda>e. ieSeq e > x) idx" and "upward (\<lambda>e. ieSeq e \<ge> x) idx"
proof -
  obtain ks where ks: "sorted ks" "\<forall>k \<in> set ks. k \<le> length rs" "idx = map (entry_for base rs) ks"
    using assms(1) by (auto simp: index_ok_def)
  have srt: "sorted_wrt (\<lambda>a b. ieSeq a \<le> ieSeq b) idx"
    unfolding ks(3) sorted_wrt_map
    by (rule sorted_wrt_mono_rel [OF _ ks(1)]) (use ks(2) numbered_le_iff [OF assms(2)] in \<open>auto simp: entry_for_def\<close>)
  show "upward (\<lambda>e. ieSeq e > x) idx" by (rule upward_sorted_wrt [OF srt]) simp
  show "upward (\<lambda>e. ieSeq e \<ge> x) idx" by (rule upward_sorted_wrt [OF srt]) simp
qed

lemma seekPos_index:
  assumes "index_ok (sgBase s) rs (sgIndex s)" and "numbered (sgBase s) rs"
  obtains k where "k \<le> length rs" and "seekPos x s = int (length (frames (take k rs)))"
    and "\<forall>i < k. rSeq (rs ! i) < x"
proof -
  let ?idx = "sgIndex s" and ?n = "length (takeWhile (\<lambda>e. \<not> ieSeq e > x) (sgIndex s))"
  obtain ks where ks: "sorted ks" "\<forall>k \<in> set ks. k \<le> length rs" "?idx = map (entry_for (sgBase s) rs) ks"
    using assms(1) by (auto simp: index_ok_def)
  have n: "sort_search (length ?idx) (\<lambda>i. ieSeq (?idx ! i) > x) = ?n"
    by (rule sort_search_takeWhile [OF index_ok_upward(1) [OF assms]])
  show thesis
  proof (cases "?n = 0")
    case True
    then show thesis using that [of 0] n by (simp add: seekPos_def)
  next
    case False
    let ?k = "ks ! (?n - 1)"
    have lt: "?n - 1 < length ks"
      using False length_takeWhile_le [of "\<lambda>e. \<not> ieSeq e > x" ?idx] arg_cong [OF ks(3), of length]
      by (simp only: length_map)
    have e: "?idx ! (?n - 1) = entry_for (sgBase s) rs ?k" using lt by (simp add: ks(3))
    have k: "?k \<le> length rs" using ks(2) lt by simp
    have "ieSeq (?idx ! (?n - 1)) \<le> x"
      using takeWhile_nth_sat [of "?n - 1" "\<lambda>e. \<not> ieSeq e > x" ?idx] False by (simp add: not_less)
    then have x: "sgBase s + of_nat ?k \<le> x" unfolding e by (simp add: entry_for_def)
    have "rSeq (rs ! i) < x" if "i < ?k" for i
    proof -
      have "rSeq (rs ! i) = sgBase s + of_nat i" using that k assms(2) by (simp add: numbered_def)
      also have "\<dots> < sgBase s + of_nat ?k" using that k by (intro numbered_less [OF assms(2)])
      also note x
      finally show ?thesis .
    qed
    then show thesis
      using that [OF k] n False e by (simp add: seekPos_def Let_def entry_for_def)
  qed
qed


subsection \<open>Reading is reading the records\<close>

text \<open>
  The reference reader: at most \<open>n\<close> records, stopping after the one that brings the bodies read
  to the byte budget (no budget when it is not positive).
\<close>

fun within_budget :: "int \<Rightarrow> int \<Rightarrow> int \<Rightarrow> stream_record list \<Rightarrow> stream_record list" where
  "within_budget n b used [] = []"
| "within_budget n b used (r # rs) =
     (if n \<le> 0 then []
      else
        let used' = used + int (length (encodeBody r)) in
        r # (if b > 0 \<and> used' \<ge> b then [] else within_budget (n - 1) b used' rs))"

lemma within_budget_none [simp]: "n \<le> 0 \<Longrightarrow> within_budget n b used rs = []"
  by (cases rs) simp_all

lemma next_frame_Nil [simp]: "next_frame [] = FrameEnd"
  by (simp add: next_frame_def ReadFull_def recordFrameHeaderSize_def)

lemma read_loop_frames:
  assumes "list_all storable rs"
  shows "read_loop x n b (frames rs) out used =
    (out @ within_budget (n - int (length out)) b used (filter (\<lambda>r. x \<le> rSeq r) rs), None)"
  using assms
proof (induction rs arbitrary: out used)
  case Nil
  then show ?case by (subst read_loop.simps) simp
next
  case (Cons r rs)
  have IH: "read_loop x n b (frames rs) out used =
    (out @ within_budget (n - int (length out)) b used (filter (\<lambda>r. x \<le> rSeq r) rs), None)" for out used
    using Cons by simp
  show ?case
    using Cons.prems by (subst read_loop.simps) (auto simp: IH Let_def not_le not_less algebra_simps)
qed

lemma filter_drop_low:
  assumes "\<forall>i < k. \<not> P (xs ! i)"
  shows "filter P (drop k xs) = filter P xs"
proof -
  have "filter P (take k xs) = []" using assms by (auto simp: filter_empty_conv in_set_conv_nth)
  then show ?thesis by (metis append_Nil append_take_drop_id filter_append)
qed

lemma segment_flush_rep:
  assumes "seg_rep s rs" and "io ''write segment log''"
  shows "\<exists>s'. segment_flush io s = (s', Inr ()) \<and> seg_rep s' rs \<and> sgFile s' = frames rs \<and>
    sgBase s' = sgBase s \<and> sgReadOnly s' = sgReadOnly s \<and> sgIndex s' = sgIndex s \<and> sgSize s' = sgSize s \<and>
    sgLastSeq s' = sgLastSeq s \<and> sgIdxOpen s' = sgIdxOpen s \<and> sgIdxFile s' = sgIdxFile s \<and>
    (sgWriter s' = None \<longleftrightarrow> sgWriter s = None)"
  using assms
  by (auto simp: segment_flush_def bufio_flush_def seg_rep_def seg_content_def Let_def split: option.splits prod.splits)

lemma segment_read_rep:
  assumes rep: "seg_rep s rs" and io: "io ''write segment log''"
  shows "\<exists>s'. segment_read io x n b s = (s', within_budget n b 0 (filter (\<lambda>r. x \<le> rSeq r) rs), None) \<and> seg_rep s' rs"
proof -
  obtain s' where s': "segment_flush io s = (s', Inr ())" "seg_rep s' rs" "sgFile s' = frames rs"
    using segment_flush_rep [of s rs io, OF rep io] by blast
  have facts: "list_all storable rs" "numbered (sgBase s') rs" "index_ok (sgBase s') rs (sgIndex s')"
    "sgSize s' = int (length (frames rs))"
    using s'(2) by (simp_all add: seg_rep_def)
  obtain k where k: "k \<le> length rs" "seekPos x s' = int (length (frames (take k rs)))" "\<forall>i < k. rSeq (rs ! i) < x"
    by (rule seekPos_index [OF facts(3,2)])
  have filt: "filter (\<lambda>r. x \<le> rSeq r) (drop k rs) = filter (\<lambda>r. x \<le> rSeq r) rs"
    using k(1,3) by (intro filter_drop_low) (auto simp: not_le)
  show ?thesis
  proof (cases "k = length rs")
    case True
    then have "filter (\<lambda>r. x \<le> rSeq r) rs = []" using filt by simp
    with True s' k facts show ?thesis by (simp add: segment_read_def Let_def)
  next
    case False
    then have "length (frames (take k rs)) < length (frames rs)"
      using frames_take_less [of k "length rs" rs] k(1) by simp
    moreover have "read_loop x n b (frames (drop k rs)) [] 0 = (within_budget n b 0 (filter (\<lambda>r. x \<le> rSeq r) rs), None)"
      using read_loop_frames [of "drop k rs" x n b "[]" 0] facts(1) filt
      by (auto simp: list_all_iff dest: in_set_dropD)
    ultimately show ?thesis
      using s' k facts section_frames [of rs k] by (simp add: segment_read_def Let_def)
  qed
qed


subsection \<open>Appending\<close>

lemma entry_for_append: "k \<le> length rs \<Longrightarrow> entry_for base (rs @ ys) k = entry_for base rs k"
  by (simp add: entry_for_def)

lemma index_ok_append: "index_ok base rs idx \<Longrightarrow> index_ok base (rs @ ys) idx"
  unfolding index_ok_def by (force simp: entry_for_append intro!: map_cong)

lemma index_ok_snoc:
  "index_ok base rs idx \<Longrightarrow> index_ok base rs (idx @ [entry_for base rs (length rs)])"
  unfolding index_ok_def
proof (elim exE conjE)
  fix ks assume "sorted ks" "\<forall>k \<in> set ks. k \<le> length rs" "idx = map (entry_for base rs) ks"
  then show "\<exists>ks. sorted ks \<and> (\<forall>k \<in> set ks. k \<le> length rs) \<and>
      idx @ [entry_for base rs (length rs)] = map (entry_for base rs) ks"
    by (intro exI [of _ "ks @ [length rs]"]) (auto simp: sorted_append)
qed

lemma append_index_rep:
  assumes "seg_rep s rs" and "io ''write index entry''" and "sgIdxOpen s"
  shows "\<exists>s'. append_index io (sgBase s + of_nat (length rs)) s = (s', Inr ()) \<and> seg_rep s' rs \<and>
    sgBase s' = sgBase s \<and> sgReadOnly s' = sgReadOnly s \<and> sgWriter s' = sgWriter s \<and> sgFile s' = sgFile s \<and>
    sgIdxOpen s' = sgIdxOpen s \<and> sgSize s' = sgSize s \<and> sgLastSeq s' = sgLastSeq s"
  using assms index_ok_snoc [of "sgBase s" rs "sgIndex s"]
  by (auto simp: append_index_def seg_rep_def seg_content_def entry_for_def Let_def)

text \<open>A segment that takes appends: not sealed, with its writer and its index file open.\<close>

definition seg_writable :: "segment \<Rightarrow> bool" where
  "seg_writable s \<longleftrightarrow> \<not> sgReadOnly s \<and> sgWriter s \<noteq> None \<and> sgIdxOpen s"

lemma segment_append_rep:
  assumes rep: "seg_rep s rs" and w: "seg_writable s" and enc: "encode r = Inr f" and fit: "headers_fit (rHeaders r)"
    and seq: "rSeq r = sgBase s + of_nat (length rs)" and room: "unat (sgBase s) + Suc (length rs) < 2 ^ 64"
    and io: "io ''write index entry''" "io ''write segment log''"
  shows "\<exists>s'. segment_append io f (rSeq r) s = (s', Inr ()) \<and> seg_rep s' (rs @ [normalised r]) \<and>
    sgBase s' = sgBase s \<and> seg_writable s'"
proof -
  obtain s1 where s1: "append_index io (rSeq r) s = (s1, Inr ())" "seg_rep s1 rs" "sgBase s1 = sgBase s"
    "sgReadOnly s1 = sgReadOnly s" "sgWriter s1 = sgWriter s" "sgFile s1 = sgFile s" "sgIdxOpen s1 = sgIdxOpen s"
    using append_index_rep [of s rs io, OF rep io(1)] w seq by (auto simp: seg_writable_def)
  obtain buf where buf: "sgWriter s1 = Some (buf, False)" "length buf \<le> writerSize"
    using s1(2,5) w by (auto simp: seg_writable_def seg_rep_def split: option.splits)
  obtain g buf' where wr: "bufio_write writerSize (io ''write segment log'') f (sgFile s1) (buf, False) = (g, (buf', False))"
    "g @ buf' = sgFile s1 @ buf @ f" "length buf' \<le> writerSize"
    by (rule bufio_write_ok [of "io ''write segment log''" buf writerSize f "sgFile s1", OF io(2) buf(2)])
  let ?s = "s1\<lparr>sgFile := g, sgWriter := Some (buf', False), sgSize := sgSize s1 + int (length f),
      sgSinceIdx := sgSinceIdx s1 + int (length f), sgLastSeq := rSeq r\<rparr>"
  have "segment_append io f (rSeq r) s = (?s, Inr ())"
    using w by (simp add: segment_append_def seg_writable_def s1(1) buf(1) wr(1) Let_def)
  moreover have "f = frame_of (encodeBody r)" using enc by (simp add: encode_Inr_iff)
  then have "seg_rep ?s (rs @ [normalised r])"
    using s1(2,3) buf(1) wr(2,3) storable_normalised [OF enc fit] seq room
    by (simp add: seg_rep_def seg_content_def index_ok_append numbered_append1)
  ultimately show ?thesis
    using s1 w by (intro exI [of _ ?s]) (simp add: seg_writable_def)
qed


subsection \<open>Truncating\<close>

lemma scan_loop_frames:
  assumes "list_all storable (xs @ y # ys)" and "\<forall>r \<in> set xs. rSeq r < q" and "q \<le> rSeq y"
    and "limit = pos + int (length (frames (xs @ y # ys)))"
  shows "scan_loop q limit (frames (xs @ y # ys)) pos = Inr (pos + int (length (frames xs)))"
  using assms
proof (induction xs arbitrary: pos)
  case Nil
  then show ?case by (subst scan_loop.simps) (simp add: length_frame_of recordFrameHeaderSize_def)
next
  case (Cons x xs)
  have "scan_loop q limit (frames (xs @ y # ys)) (pos + int (length (frame_of (encodeBody x)))) =
      Inr (pos + int (length (frame_of (encodeBody x))) + int (length (frames xs)))"
    using Cons.prems by (intro Cons.IH) simp_all
  moreover have "pos < limit" using Cons.prems(4) by (simp add: length_frame_of recordFrameHeaderSize_def)
  ultimately show ?case
    using Cons.prems(1-3) by (subst scan_loop.simps) (simp add: length_frame_of not_le [symmetric] algebra_simps)
qed

lemma numbered_nth: "numbered base rs \<Longrightarrow> k < length rs \<Longrightarrow> rSeq (rs ! k) = base + of_nat k"
  by (simp add: numbered_def)

lemma scanForOffsetLocked_rep:
  assumes rep: "seg_rep s rs" and cont: "sgFile s = frames rs" and k: "k < length rs"
  shows "scanForOffsetLocked (sgBase s + of_nat k) s = Inr (int (length (frames (take k rs))))"
proof -
  let ?q = "sgBase s + of_nat k"
  have facts: "list_all storable rs" "numbered (sgBase s) rs" "index_ok (sgBase s) rs (sgIndex s)"
    "sgSize s = int (length (frames rs))"
    using rep by (simp_all add: seg_rep_def)
  obtain j where j: "j \<le> length rs" "seekPos ?q s = int (length (frames (take j rs)))" "\<forall>i < j. rSeq (rs ! i) < ?q"
    by (rule seekPos_index [OF facts(3,2)])
  have "j \<le> k"
  proof (rule ccontr)
    assume "\<not> j \<le> k"
    then have "rSeq (rs ! k) < ?q" using j(3) by simp
    then show False using numbered_nth [OF facts(2) k] by simp
  qed
  let ?xs = "drop j (take k rs)"
  have split: "drop j rs = ?xs @ rs ! k # drop (Suc k) rs"
  proof -
    have "drop j rs = drop j (take k rs @ drop k rs)" by simp
    also have "\<dots> = ?xs @ drop (j - k) (drop k rs)" using k by (simp only: drop_append length_take) (simp add: min_absorb2)
    also have "\<dots> = ?xs @ drop k rs" using \<open>j \<le> k\<close> by simp
    finally show ?thesis unfolding Cons_nth_drop_Suc [OF k] .
  qed
  have low: "rSeq r < ?q" if "r \<in> set ?xs" for r
  proof -
    have "r \<in> set (take k rs)" using that by (rule in_set_dropD)
    then obtain i where "i < length (take k rs)" "r = take k rs ! i"
      unfolding in_set_conv_nth by blast
    then show ?thesis
      using k numbered_nth [OF facts(2), of i] numbered_less [OF facts(2), of i k] by simp
  qed
  have len: "int (length (frames rs)) = int (length (frames (take j rs))) + int (length (frames (drop j rs)))"
    by (metis append_take_drop_id frames_simps(3) length_append of_nat_add)
  have "scan_loop ?q (int (length (frames rs))) (frames (drop j rs)) (int (length (frames (take j rs)))) =
      Inr (int (length (frames (take j rs))) + int (length (frames ?xs)))"
  proof -
    have "list_all storable (drop j rs)" using facts(1) by (auto simp: list_all_iff dest: in_set_dropD)
    then show ?thesis
      using low numbered_nth [OF facts(2) k] len unfolding split
      by (intro scan_loop_frames ballI) (assumption | simp only: order.refl)+
  qed
  moreover have "frames (take k rs) = frames (take j rs) @ frames ?xs"
  proof -
    have "take k rs = take j rs @ ?xs" using \<open>j \<le> k\<close> append_take_drop_id [of j "take k rs"] by (simp add: min_absorb1)
    then show ?thesis using frames_simps(3) [of "take j rs" ?xs] by argo
  qed
  ultimately show ?thesis
    using section_frames [of rs j] by (simp add: scanForOffsetLocked_def j(2) facts(4) cont Let_def)
qed

lemma index_ok_cut:
  assumes "index_ok base rs idx" and "numbered base rs" and k: "k < length rs"
  shows "index_ok base (take k rs) (take (sort_search (length idx) (\<lambda>i. ieSeq (idx ! i) \<ge> base + of_nat k)) idx)"
proof -
  obtain ks where ks: "sorted ks" "\<forall>k \<in> set ks. k \<le> length rs" "idx = map (entry_for base rs) ks"
    using assms(1) by (auto simp: index_ok_def)
  let ?P = "\<lambda>e. \<not> ieSeq e \<ge> base + of_nat k"
  have "take (sort_search (length idx) (\<lambda>i. ieSeq (idx ! i) \<ge> base + of_nat k)) idx = takeWhile ?P idx"
    using sort_search_takeWhile [OF index_ok_upward(2) [OF assms(1,2), of "base + of_nat k"]]
    by (simp flip: takeWhile_eq_take)
  also have "\<dots> = map (entry_for base rs) (takeWhile (\<lambda>j. j < k) ks)"
    unfolding ks(3) takeWhile_map
    using ks(2) k numbered_le_iff [OF assms(2)]
    by (intro arg_cong [where f = "map (entry_for base rs)"] takeWhile_cong refl) (auto simp: entry_for_def)
  also have "\<dots> = map (entry_for base (take k rs)) (takeWhile (\<lambda>j. j < k) ks)"
    by (auto simp: entry_for_def dest: set_takeWhileD)
  finally show ?thesis
    using ks(1) k unfolding index_ok_def
    by (intro exI [of _ "takeWhile (\<lambda>j. j < k) ks"])
       (auto dest: set_takeWhileD simp: sorted_takeWhile)
qed

lemma segment_truncateTo_rep:
  assumes rep: "seg_rep s rs" and w: "seg_writable s" and k: "k < length rs"
  shows "\<exists>s'. segment_truncateTo io_ok (sgBase s + of_nat k) s = (s', Inr True) \<and> seg_rep s' (take k rs) \<and>
    sgBase s' = sgBase s \<and> seg_writable s'"
proof -
  let ?q = "sgBase s + of_nat k"
  obtain s1 where s1: "segment_flush io_ok s = (s1, Inr ())" "seg_rep s1 rs" "sgFile s1 = frames rs"
    "sgBase s1 = sgBase s" "sgReadOnly s1 = sgReadOnly s" "sgIndex s1 = sgIndex s"
    using segment_flush_rep [of s rs io_ok, OF rep] by auto
  have num: "numbered (sgBase s) rs" and idx: "index_ok (sgBase s) rs (sgIndex s)" and "list_all storable rs"
    and sz: "sgSize s1 = int (length (frames rs))" and last: "sgLastSeq s1 = sgBase s + of_nat (length rs) - 1"
    using rep s1 by (simp_all add: seg_rep_def)
  let ?i = "sort_search (length (sgIndex s)) (\<lambda>i. ieSeq (sgIndex s ! i) \<ge> ?q)"
  let ?s = "s1\<lparr>sgFile := take (length (frames (take k rs))) (sgFile s1), sgIndex := take ?i (sgIndex s),
      sgIdxFile := Some (encodeIndex (take ?i (sgIndex s))), sgIdxOpen := True,
      sgSize := int (length (frames (take k rs))), sgLastSeq := ?q - 1, sgSinceIdx := 0, sgWriter := Some ([], False)\<rparr>"
  have "\<not> sgLastSeq s1 < ?q"
  proof -
    have "sgLastSeq s1 = sgBase s + of_nat (length rs - 1)" using k last by (simp add: of_nat_diff)
    then show ?thesis using numbered_le_iff [OF num, of k "length rs - 1"] k by (simp add: not_less)
  qed
  moreover have "length (frames (take k rs)) < length (frames rs)"
    using frames_take_less [of k "length rs" rs] k by simp
  ultimately have res: "segment_truncateTo io_ok ?q s = (?s, Inr True)"
    using w s1(5) by (simp add: segment_truncateTo_def s1(1) seg_writable_def rewriteIndexLocked_def sz Let_def
        scanForOffsetLocked_rep [OF s1(2,3) k, unfolded s1(4)] s1(6))
  moreover have "seg_rep ?s (take k rs)"
    using index_ok_cut [OF idx num k] numbered_take [OF num, of k] \<open>list_all storable rs\<close> k s1(3,4)
    by (auto simp: seg_rep_def seg_content_def take_frames list_all_iff writerSize_def dest: in_set_takeD)
  ultimately show ?thesis
    using w s1(4,5) by (intro exI [of _ ?s]) (simp add: seg_writable_def)
qed


subsection \<open>Recovery after a crash\<close>

text \<open>The records whose frames lie wholly within the first \<open>n\<close> bytes.\<close>

fun whole :: "nat \<Rightarrow> stream_record list \<Rightarrow> stream_record list" where
  "whole n [] = []"
| "whole n (r # rs) =
     (let l = length (frame_of (encodeBody r)) in if l \<le> n then r # whole (n - l) rs else [])"

lemma next_frame_short: "length r < recordFrameHeaderSize \<Longrightarrow> next_frame r = FrameEnd"
  by (simp add: next_frame_def ReadFull_def)

lemma next_frame_torn:
  assumes "storable r" and "n < length (frame_of (encodeBody r))"
  shows "next_frame (take n (frame_of (encodeBody r) @ rest)) = FrameEnd"
proof (cases "n < recordFrameHeaderSize")
  case True
  then show ?thesis by (intro next_frame_short) simp
next
  case False
  let ?b = "encodeBody r"
  have n: "8 \<le> n" "n - 8 < length ?b"
    using False assms(2) by (auto simp: recordFrameHeaderSize_def length_frame_of)
  have "unat (of_nat (length ?b) :: u32) = length ?b"
    using storable_bounds [OF assms(1)] by (simp add: unat_of_nat_32 MaxRecordSize_def)
  then show ?thesis
    using n storable_bounds [OF assms(1)]
    by (simp add: next_frame_def ReadFull_def frame_of_def recordFrameHeaderSize_def Let_def take_Cons' min_def)
qed

lemma recover_loop_frames:
  assumes "list_all storable rs"
  shows "recover_loop (take n (frames rs)) l pos =
    (if whole n rs = [] then l else rSeq (last (whole n rs)), pos + int (length (frames (whole n rs))))"
  using assms
proof (induction rs arbitrary: n l pos)
  case Nil
  then show ?case by (subst recover_loop.simps) simp
next
  case (Cons r rs)
  let ?f = "frame_of (encodeBody r)"
  show ?case
  proof (cases "length ?f \<le> n")
    case True
    then have "take n (frames (r # rs)) = ?f @ take (n - length ?f) (frames rs)" by simp
    moreover have "recover_loop (take (n - length ?f) (frames rs)) (rSeq r) (pos + int (length ?f)) =
      (if whole (n - length ?f) rs = [] then rSeq r else rSeq (last (whole (n - length ?f) rs)),
       pos + int (length ?f) + int (length (frames (whole (n - length ?f) rs))))"
      using Cons by simp
    ultimately show ?thesis
      using True Cons.prems by (subst recover_loop.simps) (simp add: Let_def length_frame_of algebra_simps)
  next
    case False
    then show ?thesis
      using Cons.prems next_frame_torn [of r n "frames rs"] by (subst recover_loop.simps) (simp add: Let_def)
  qed
qed

lemma whole_split:
  assumes "length (frames (take k rs)) \<le> n" and "k \<le> length rs"
  shows "whole n rs = take k rs @ whole (n - length (frames (take k rs))) (drop k rs)"
  using assms
proof (induction rs arbitrary: n k)
  case (Cons r rs)
  show ?case
  proof (cases k)
    case (Suc j)
    then show ?thesis
      using Cons.IH [of j "n - length (frame_of (encodeBody r))"] Cons.prems by (simp add: Let_def diff_diff_add)
  qed simp
qed simp

lemma whole_prefix: "whole n rs = take (length (whole n rs)) rs"
  by (induction rs arbitrary: n) (auto simp: Let_def)

lemma length_whole: "length (whole n rs) \<le> length rs"
  by (metis whole_prefix length_take min.cobounded1)

lemma frames_whole_le: "length (frames (whole n rs)) \<le> n"
proof (induction rs arbitrary: n)
  case (Cons r rs)
  show ?case using Cons.IH [of "n - length (frame_of (encodeBody r))"] by (auto simp: Let_def)
qed simp

lemma frames_whole_take: "take (length (frames (whole n rs))) (frames rs) = frames (whole n rs)"
  by (metis whole_prefix take_frames)

lemma recover_start_spec:
  assumes "recover_start sz (rev idx) l = (idx', pos, l')"
  shows "(idx' = [] \<and> pos = 0 \<and> l' = l) \<or>
    (\<exists>n < length idx. idx' = take (Suc n) idx \<and> pos = iePos (idx ! n) \<and> l' = ieSeq (idx ! n) - 1 \<and> pos < sz)"
  using assms
proof (induction idx rule: rev_induct)
  case (snoc e es)
  show ?case
  proof (cases "iePos e < sz")
    case True
    then show ?thesis using snoc.prems by (intro disjI2 exI [of _ "length es"]) auto
  next
    case False
    then show ?thesis using snoc by (auto simp: nth_append intro: less_SucI) 
  qed
qed simp


lemma numbered_last:
  "numbered base rs \<Longrightarrow> rs \<noteq> [] \<Longrightarrow> rSeq (last rs) = base + of_nat (length rs) - 1"
  by (simp add: last_conv_nth numbered_nth of_nat_diff Suc_leI algebra_simps)

lemma index_ok_prefix_of:
  assumes "sorted ks" and "\<forall>k \<in> set ks. k \<le> m" and "m \<le> length rs"
  shows "index_ok base (take m rs) (map (entry_for base rs) ks)"
  unfolding index_ok_def using assms
  by (intro exI [of _ ks]) (auto simp: entry_for_def min_absorb1)

lemma section_torn:
  "section_reader (take n (frames rs)) (int (length (frames (take k rs))))
     (int (length (take n (frames rs))) - int (length (frames (take k rs)))) =
   take (n - length (frames (take k rs))) (frames (drop k rs))"
  by (simp only: section_reader_rest drop_take drop_frames)

text \<open>
  Where recovery starts and what it finds, when the file is a prefix of the frames of \<open>rs\<close> and
  the index has only entries for \<open>rs\<close>.
\<close>

lemma recover_scan:
  assumes st: "list_all storable rs" and num: "numbered base rs" and idx: "index_ok base rs idx"
    and start: "recover_start (int (length (take n (frames rs)))) (rev idx) (base - 1) = (idx', pos, l)"
  shows "recover_loop (section_reader (take n (frames rs)) pos (int (length (take n (frames rs))) - pos)) l pos =
      (base + of_nat (length (whole n rs)) - 1, int (length (frames (whole n rs)))) \<and>
    index_ok base (whole n rs) idx'"
proof -
  obtain ks where ks: "sorted ks" "\<forall>k \<in> set ks. k \<le> length rs" "idx = map (entry_for base rs) ks"
    using idx by (auto simp: index_ok_def)
  obtain k m where k: "k \<le> length rs" "pos = int (length (frames (take k rs)))" "length (frames (take k rs)) \<le> n"
      "l = base + of_nat k - 1" "idx' = map (entry_for base rs) (take m ks)" "\<forall>j \<in> set (take m ks). j \<le> k"
    using recover_start_spec [OF start]
  proof (elim disjE conjE exE)
    assume "idx' = []" "pos = 0" "l = base - 1"
    then show thesis using that [of 0 0] by simp
  next
    fix i assume i: "i < length idx" "idx' = take (Suc i) idx" "pos = iePos (idx ! i)" "l = ieSeq (idx ! i) - 1"
      "pos < int (length (take n (frames rs)))"
    have "j \<le> ks ! i" if "j \<in> set (take (Suc i) ks)" for j
      using that ks(1) i(1) by (auto simp: in_set_conv_nth ks(3) intro!: sorted_nth_mono)
    then show thesis
      using that [of "ks ! i" "Suc i"] i ks by (simp add: entry_for_def take_map)
  qed
  let ?w = "whole (n - length (frames (take k rs))) (drop k rs)"
  have w: "whole n rs = take k rs @ ?w" by (rule whole_split [OF k(3,1)])
  have "list_all storable (drop k rs)" using st by (auto simp: list_all_iff dest: in_set_dropD)
  then have loop: "recover_loop (take (n - length (frames (take k rs))) (frames (drop k rs))) l pos =
      (if ?w = [] then l else rSeq (last ?w), pos + int (length (frames ?w)))"
    by (rule recover_loop_frames)
  have num': "numbered base (whole n rs)" using numbered_take [OF num] whole_prefix by metis
  have "(if ?w = [] then l else rSeq (last ?w)) = base + of_nat (length (whole n rs)) - 1"
    using numbered_last [OF num'] k(1,4) by (cases "?w = []") (simp_all add: w min_absorb2)
  moreover have "pos + int (length (frames ?w)) = int (length (frames (whole n rs)))"
    by (simp add: w k(2))
  moreover have "index_ok base (take (length (whole n rs)) rs) idx'"
    unfolding k(5) using k(1,6) ks(1) length_whole [of n rs]
    by (intro index_ok_prefix_of) (auto simp: w sorted_wrt_take)
  ultimately show ?thesis
    using section_torn [of n rs k] loop whole_prefix [of n rs] by (simp add: k(2))
qed


definition positions_fit :: "indexEntry list \<Rightarrow> bool" where
  "positions_fit idx \<longleftrightarrow> (\<forall>e \<in> set idx. 0 \<le> iePos e \<and> iePos e < 2 ^ 63)"

lemma sint_pos: "0 \<le> x \<Longrightarrow> x < 2 ^ 63 \<Longrightarrow> sint (word_of_int x :: u64) = x"
  by (simp add: signed_of_int signed_take_bit_int_eq_self)

lemma length_encodeIndex: "length (encodeIndex es) = indexEntrySize * length es"
  by (induction es) (simp_all add: encodeIndex_def encodeIndexEntry_def indexEntrySize_def)

lemma decodeIndex_encode:
  "positions_fit es \<Longrightarrow> decodeIndex (length es) (encodeIndex es @ tail) = es"
  by (induction es)
     (simp_all add: encodeIndex_def encodeIndexEntry_def indexEntrySize_def positions_fit_def sint_pos)

lemma decodeIndex_torn:
  assumes "positions_fit es" and "m \<le> length (encodeIndex es)"
  shows "decodeIndex (m div indexEntrySize) (take m (encodeIndex es)) = take (m div indexEntrySize) es"
proof -
  let ?k = "m div indexEntrySize"
  have k: "?k \<le> length es" using assms(2) by (simp add: length_encodeIndex indexEntrySize_def)
  have "encodeIndex es = encodeIndex (take ?k es) @ encodeIndex (drop ?k es)"
    by (simp add: encodeIndex_def flip: concat_append map_append)
  moreover have "length (encodeIndex (take ?k es)) \<le> m"
    using k by (simp add: length_encodeIndex min_def indexEntrySize_def)
  ultimately have "take m (encodeIndex es) =
      encodeIndex (take ?k es) @ take (m - length (encodeIndex (take ?k es))) (encodeIndex (drop ?k es))"
    by simp
  moreover have "positions_fit (take ?k es)" using assms(1) by (auto simp: positions_fit_def dest: in_set_takeD)
  ultimately show ?thesis
    using decodeIndex_encode [of "take ?k es"] k by (simp add: min_absorb2)
qed

lemma index_ok_take: "index_ok base rs idx \<Longrightarrow> index_ok base rs (take m idx)"
  unfolding index_ok_def
proof (elim exE conjE)
  fix ks assume "sorted ks" "\<forall>k \<in> set ks. k \<le> length rs" "idx = map (entry_for base rs) ks"
  then show "\<exists>ks. sorted ks \<and> (\<forall>k \<in> set ks. k \<le> length rs) \<and> take m idx = map (entry_for base rs) ks"
    by (intro exI [of _ "take m ks"]) (auto simp: sorted_wrt_take take_map dest: in_set_takeD)
qed

lemma index_ok_positions:
  assumes "index_ok base rs idx" and "length (frames rs) < 2 ^ 63"
  shows "positions_fit idx"
proof -
  have "length (frames (take k rs)) < 2 ^ 63" for k
    using frames_take_mono [of k "max k (length rs)" rs] assms(2) by simp
  then show ?thesis using assms(1) by (auto simp: positions_fit_def index_ok_def entry_for_def)
qed

lemma openSegment_Some:
  assumes "decodeIndex (length d div indexEntrySize) d = idx"
    and "recover_start (int (length g)) (rev idx) (base - 1) = (idx', pos, l)"
    and "recover_loop (section_reader g pos (int (length g) - pos)) l pos = (q, int p)"
  shows "openSegment io_ok base interval ro g (Some d) =
    Inr \<lparr>sgBase = base, sgReadOnly = ro, sgFile = (if p \<noteq> length g \<and> \<not> ro then take p g else g),
         sgWriter = (if ro then None else Some ([], False)), sgIdxFile = Some d, sgIdxOpen = (\<not> ro),
         sgIndex = idx', sgSize = int p, sgLastSeq = q, sgSinceIdx = 0, sgInterval = interval\<rparr>"
  using assms by (simp add: openSegment_def loadIndex_def recover_segment_def Let_def)

text \<open>The bytes of the two files after a crash: any prefix of what was written to each.\<close>

lemma openSegment_torn:
  assumes st: "list_all storable rs" and num: "numbered base rs" and idx: "index_ok base rs idx"
    and size: "length (frames rs) < 2 ^ 63" and "ro \<longrightarrow> n \<ge> length (frames rs)"
    and m: "m \<le> length (encodeIndex idx)"
  shows "\<exists>s. openSegment io_ok base interval ro (take n (frames rs)) (Some (take m (encodeIndex idx))) = Inr s \<and>
    seg_rep s (whole n rs) \<and> sgBase s = base \<and> (\<not> ro \<longrightarrow> seg_writable s)"
proof -
  let ?file = "take n (frames rs)" and ?k = "m div indexEntrySize" and ?w = "whole n rs"
  obtain idx' pos l where start:
      "recover_start (int (length ?file)) (rev (take ?k idx)) (base - 1) = (idx', pos, l)"
    by (metis prod_cases3)
  note scan = recover_scan [OF st num index_ok_take [OF idx] start]
  have dec: "decodeIndex (length (take m (encodeIndex idx)) div indexEntrySize) (take m (encodeIndex idx)) = take ?k idx"
    using decodeIndex_torn [OF index_ok_positions [OF idx size] m] m by (simp add: min_absorb2)
  have cut: "take (length (frames ?w)) ?file = frames ?w"
    using frames_whole_le [of n rs] by (simp add: min_absorb1 frames_whole_take)
  have same: "?file = frames ?w" if "ro \<or> int (length (frames ?w)) = int (length ?file)"
    using that
  proof
    assume ro
    then have "whole n rs = rs" using whole_split [of "length rs" rs n] \<open>ro\<close> assms(5) by simp
    then show ?thesis using \<open>ro\<close> assms(5) by simp
  next
    assume "int (length (frames ?w)) = int (length ?file)"
    then show ?thesis using cut by (metis of_nat_eq_iff take_all order.refl)
  qed
  have g: "(if length (frames ?w) \<noteq> length ?file \<and> \<not> ro then take (length (frames ?w)) ?file else ?file) = frames ?w"
    using same cut by (metis (full_types))
  have "numbered base ?w" using numbered_take [OF num, of "length ?w"] by (simp flip: whole_prefix)
  moreover have "list_all storable ?w"
    using st whole_prefix [of n rs] by (metis list_all_append append_take_drop_id)
  ultimately show ?thesis
    using conjunct2 [OF scan]
    unfolding openSegment_Some [OF dec start conjunct1 [OF scan]] g
    by (auto simp: seg_rep_def seg_content_def seg_writable_def writerSize_def)
qed

subsection \<open>The index file\<close>

text \<open>
  \<open>seg_rep\<close> speaks of the index in memory only. \<open>index_synced\<close> says that the index file holds exactly
  that index. It is so when the process creates a segment, and appends, reads, flushes and
  truncations keep it; recovery from a torn index file does not restore it.
\<close>

definition index_synced :: "segment \<Rightarrow> bool" where
  "index_synced s \<longleftrightarrow> sgIdxFile s = Some (encodeIndex (sgIndex s))"

lemma encodeIndex_append [simp]: "encodeIndex (xs @ ys) = encodeIndex xs @ encodeIndex ys"
  by (simp add: encodeIndex_def)

lemma encodeIndex_simps [simp]: "encodeIndex [] = []" "encodeIndex (e # es) = encodeIndexEntry e @ encodeIndex es"
  by (simp_all add: encodeIndex_def)

lemma createSegment_synced: "createSegment io base interval ([], []) = Inr s \<Longrightarrow> index_synced s"
  by (auto simp: createSegment_def index_synced_def split: if_splits)

lemma append_index_synced: "index_synced s \<Longrightarrow> index_synced (fst (append_index io seq s))"
  by (auto simp: append_index_def index_synced_def Let_def)

lemma segment_append_synced:
  assumes "index_synced s"
  shows "index_synced (fst (segment_append io encoded seq s))"
proof -
  obtain s1 r where a: "append_index io seq s = (s1, r)" by (cases "append_index io seq s")
  then have "index_synced s1" using append_index_synced [OF assms, of io seq] by simp
  then show ?thesis using assms a
    by (auto simp: segment_append_def index_synced_def Let_def split: sum.splits option.splits prod.splits)
qed

lemma segment_flush_synced: "index_synced (fst (segment_flush io s)) = index_synced s"
  by (auto simp: segment_flush_def index_synced_def Let_def split: option.splits prod.splits)

lemma segment_sync_synced: "index_synced (fst (segment_sync io s)) = index_synced s"
  using segment_flush_synced [of io s] by (auto simp: segment_sync_def split: prod.splits sum.splits)

lemma segment_read_synced: "index_synced (fst (segment_read io x n b s)) = index_synced s"
  using segment_flush_synced [of io s] by (auto simp: segment_read_def Let_def split: prod.splits sum.splits)

lemma segment_truncateTo_synced:
  assumes "index_synced s"
  shows "index_synced (fst (segment_truncateTo io_ok seq s))"
proof -
  obtain s1 r where f: "segment_flush io_ok s = (s1, r)" by (cases "segment_flush io_ok s")
  then have "index_synced s1" using segment_flush_synced [of io_ok s] assms by simp
  then show ?thesis using assms f
    by (auto simp: segment_truncateTo_def rewriteIndexLocked_def index_synced_def Let_def split: sum.splits)
qed

lemma reopenWritable_synced: "index_synced s \<Longrightarrow> index_synced (fst (reopenWritable io s))"
  by (auto simp: reopenWritable_def index_synced_def)

subsection \<open>Properties\<close>

lemma createSegment_rep:
  assumes "base \<noteq> 0"
  shows "\<exists>s. createSegment io_ok base interval ([], []) = Inr s \<and> seg_rep s [] \<and> sgBase s = base \<and> seg_writable s"
  using assms unsigned_less [of base, where 'a = nat]
  by (auto simp: createSegment_def seg_rep_def seg_content_def numbered_def index_ok_def seg_writable_def)

definition sample_segment :: segment where
  "sample_segment =
     (case createSegment io_ok 7 4096 ([], []) of
        Inr s \<Rightarrow> fst (segment_append io_ok (frame_of (encodeBody sample_record)) 7 s))"

lemma sample_segment_rep:
  "seg_rep sample_segment [normalised sample_record] \<and> seg_writable sample_segment \<and> sgBase sample_segment = 7"
proof -
  obtain s where s: "createSegment io_ok 7 4096 ([], []) = Inr s" "seg_rep s []" "sgBase s = 7" "seg_writable s"
    using createSegment_rep [of 7 4096] by auto
  have "rSeq sample_record = 7" by (simp add: sample_record_def)
  then show ?thesis
    using segment_append_rep [OF s(2,4) sample_encode sample_headers_fit, of io_ok] s
    by (auto simp: sample_segment_def)
qed

definition next_sample :: stream_record where
  "next_sample = sample_record\<lparr>rSeq := 8\<rparr>"

lemma next_sample_fit: "headers_fit (rHeaders next_sample)"
  using sample_headers_fit by (simp add: next_sample_def)

lemma next_sample_encode: "encode next_sample = Inr (frame_of (encodeBody next_sample))"
  by (simp add: encode_def bodyHeaderSize_def record_sizes next_sample_def sample_record_def encodeHeaders_def encodeHeader_def)

lemma sample_segment_synced: "index_synced sample_segment"
proof -
  obtain s where s: "createSegment io_ok 7 4096 ([], []) = Inr s" using createSegment_rep [of 7 4096] by auto
  then show ?thesis using segment_append_synced [OF createSegment_synced [OF s]] by (simp add: sample_segment_def)
qed

lemma sample_segment_small: "length (frames [normalised sample_record]) < 2 ^ 63"
  using storable_bounds [of "normalised sample_record"] storable_normalised [OF sample_encode sample_headers_fit]
  by (simp add: length_frame_of record_sizes)

lemma sample_segment_index: "sgIndex sample_segment = [\<lparr>ieSeq = 7, iePos = 0\<rparr>]"
  by (simp add: sample_segment_def createSegment_def segment_append_def append_index_def Let_def split: prod.splits)

text \<open>
  C30: a read returns exactly the records of the segment from the requested sequence on, in
  order, as many as the record and byte limits allow. Neither the sparse index it starts from nor
  the write buffer it flushes first changes the answer.
\<close>

theorem segment_read_exact:
  assumes "seg_rep s rs" and "io ''write segment log''"
  shows "\<exists>s'. segment_read io x n b s = (s', within_budget n b 0 (filter (\<lambda>r. x \<le> rSeq r) rs), None) \<and> seg_rep s' rs"
  using assms by (rule segment_read_rep)

theorem segment_read_exact_witness:
  "\<exists>s'. segment_read io_ok 5 10 0 sample_segment = (s', [normalised sample_record], None)"
  using segment_read_exact [of sample_segment "[normalised sample_record]" io_ok 5 10 0] sample_segment_rep
  by (auto simp: sample_record_def word_le_nat_alt)

text \<open>
  truncating to a sequence the segment holds succeeds and leaves exactly the records before
  it, ready for the next append.
\<close>

theorem segment_truncate_exact:
  assumes "seg_rep s rs" and "seg_writable s" and "k < length rs"
  shows "\<exists>s'. segment_truncateTo io_ok (sgBase s + of_nat k) s = (s', Inr True) \<and> seg_rep s' (take k rs) \<and> seg_writable s'"
  using segment_truncateTo_rep [OF assms] by blast

theorem segment_truncate_exact_witness:
  "\<exists>s'. segment_truncateTo io_ok 7 sample_segment = (s', Inr True) \<and> seg_rep s' [] \<and> seg_writable s'"
  using segment_truncate_exact [of sample_segment "[normalised sample_record]" 0] sample_segment_rep by simp



lemma next_frame_low_seq:
  fixes x :: u64
  assumes "x \<in> {1, 2, 3, 4, 5, 6, 7}"
  shows "next_frame (put64 x @ rest) = FrameBadLength"
proof -
  have "get32 (drop 4 (put64 x)) = 0" using assms by (auto simp: le_bytes_def upt_rec)
  then show ?thesis by (simp add: next_frame_def ReadFull_def record_sizes)
qed

lemma openSegment_short_index:
  assumes "openSegment io base interval False g (Some d) = Inr t" and "length d < indexEntrySize"
  shows "sgIndex t = []" and "sgIdxFile t = Some d" and "sgBase t = base"
  using assms by (auto simp: openSegment_def loadIndex_def recover_segment_def Let_def split: if_splits prod.splits)

lemma reopen_misaligned:
  fixes x :: u64
  assumes x: "rSeq r \<in> {1, 2, 3, 4, 5, 6, 7}" and d: "length d = 24" and at8: "take 8 (drop 8 d) = put64 8"
  shows "\<exists>u. openSegment io_ok base interval False (frame_of (encodeBody r) @ rest) (Some d) = Inr u \<and>
    sgFile u = take 8 (frame_of (encodeBody r) @ rest)"
proof -
  let ?g = "frame_of (encodeBody r) @ rest"
  have "length (encodeBody r) \<ge> 8" by (simp add: encodeBody_def Let_def)
  then have len: "8 < length ?g" by (cases "encodeBody r") (simp_all add: length_frame_of recordFrameHeaderSize_def)
  have dec: "decodeIndex (length d div indexEntrySize) d = [\<lparr>ieSeq = get64 d, iePos = 8\<rparr>]"
  proof -
    have "length d div indexEntrySize = Suc 0" using d by (simp add: indexEntrySize_def)
    moreover have "get64 (drop 8 d) = 8" unfolding at8 by (simp add: le_bytes_def upt_rec)
    ultimately show ?thesis by simp
  qed
  have start: "recover_start (int (length ?g)) (rev [\<lparr>ieSeq = get64 d, iePos = 8\<rparr>]) (base - 1) =
      ([\<lparr>ieSeq = get64 d, iePos = 8\<rparr>], 8, get64 d - 1)"
    using len by simp
  have "section_reader ?g 8 (int (length ?g) - 8) = encodeBody r @ rest"
    using len by (simp add: section_reader_def frame_of_def)
  moreover obtain ys where "encodeBody r = put64 (rSeq r) @ ys" by (simp add: encodeBody_def Let_def)
  ultimately have loop: "recover_loop (section_reader ?g 8 (int (length ?g) - 8)) (get64 d - 1) 8 = (get64 d - 1, int 8)"
    using next_frame_low_seq [OF x] by (simp add: recover_loop.simps [of "_ @ _"])
  show ?thesis using openSegment_Some [OF dec start loop, of interval False] len by simp
qed

text \<open>
  C99: recovery reads past a torn index entry but leaves its bytes in the index file, and the
  entries appended later follow them unaligned. Take a segment whose next sequence is 8, and a crash
  that leaves the whole log but only the first 8 bytes of the index file. Reopening keeps every
  record, and so does the next append; but the index file now reads as one entry with position 8,
  the next clean reopening starts its scan in the middle of the first record, takes it for a torn
  write, and truncates the log to 8 bytes: every record of the segment is lost.
\<close>

theorem torn_index_destroys_segment:
  assumes rep: "seg_rep s rs" and "rs \<noteq> []" and "index_synced s" and "sgIndex s \<noteq> []" and next8: "sgBase s + of_nat (length rs) = 8"
    and small: "length (frames rs) < 2 ^ 63" and r: "encode r = Inr f" "headers_fit (rHeaders r)" "rSeq r = 8"
  shows "\<exists>t t' u. openSegment io_ok (sgBase s) interval False (seg_content s) (map_option (take 8) (sgIdxFile s)) = Inr t \<and> seg_rep t rs \<and>
    segment_append io_ok f 8 t = (t', Inr ()) \<and> seg_rep t' (rs @ [normalised r]) \<and>
    openSegment io_ok (sgBase s) interval False (seg_content t') (sgIdxFile t') = Inr u \<and> length (sgFile u) = 8"
proof -
  let ?d = "take 8 (encodeIndex (sgIndex s))"
  have d: "length ?d = 8" using assms(4) by (cases "sgIndex s") (simp_all add: encodeIndexEntry_def)
  have rep': "list_all storable rs" "numbered (sgBase s) rs" "index_ok (sgBase s) rs (sgIndex s)" "seg_content s = frames rs"
    using rep by (simp_all add: seg_rep_def)
  have m: "8 \<le> length (encodeIndex (sgIndex s))" using d by simp
  have whole: "whole (length (frames rs)) rs = rs" using whole_split [of "length rs" rs "length (frames rs)"] by simp
  obtain t where t: "openSegment io_ok (sgBase s) interval False (frames rs) (Some ?d) = Inr t" "seg_rep t rs" "sgBase t = sgBase s" "seg_writable t"
    using openSegment_torn [OF rep'(1-3) small _ m, of False "length (frames rs)" interval] whole by auto
  have ti: "sgIndex t = []" "sgIdxFile t = Some ?d"
    using openSegment_short_index [OF t(1)] d by (simp_all add: indexEntrySize_def)
  have room: "unat (sgBase s) + length rs = 8"
    using numbered_unat [OF rep'(2), of "length rs"] next8 by simp
  obtain t' where t': "segment_append io_ok f (rSeq r) t = (t', Inr ())" "seg_rep t' (rs @ [normalised r])"
    using segment_append_rep [OF t(2,4) r(1,2), of io_ok] t(3) r(3) next8 room by auto
  have idx: "sgIdxFile t' = Some (?d @ put64 8 @ put64 (word_of_int (sgSize t)))"
    using t'(1) ti t(4) r(3)
    by (auto simp: segment_append_def append_index_def seg_writable_def encodeIndexEntry_def Let_def split: option.splits prod.splits if_splits)
  obtain r0 rs0 where rs: "rs = r0 # rs0" using assms(2) by (cases rs) simp_all
  have r0: "rSeq r0 = sgBase s" using numbered_nth [OF rep'(2), of 0] rs by simp
  have "sgBase s \<in> {1, 2, 3, 4, 5, 6, 7}"
  proof -
    have "sgBase s \<noteq> 0" using rep'(2) by (simp add: numbered_def)
    then have "0 < unat (sgBase s)" by (simp add: unat_gt_0)
    moreover have "unat (sgBase s) < 8" using room rs by simp
    ultimately have "unat (sgBase s) = 1 \<or> unat (sgBase s) = 2 \<or> unat (sgBase s) = 3 \<or> unat (sgBase s) = 4 \<or>
      unat (sgBase s) = 5 \<or> unat (sgBase s) = 6 \<or> unat (sgBase s) = 7" by linarith
    then show ?thesis by (auto simp: word_unat_eq_iff)
  qed
  moreover have "seg_content t' = frame_of (encodeBody r0) @ frames (rs0 @ [normalised r])"
    using t'(2) rs by (simp add: seg_rep_def)
  moreover have "8 \<le> length (frame_of (encodeBody r0))" by (simp add: length_frame_of recordFrameHeaderSize_def)
  ultimately obtain u where "openSegment io_ok (sgBase s) interval False (seg_content t') (sgIdxFile t') = Inr u" "length (sgFile u) = 8"
    using reopen_misaligned [of r0 "?d @ put64 8 @ put64 (word_of_int (sgSize t))" "sgBase s" interval "frames (rs0 @ [normalised r])"]
      r0 d idx by auto
  then show ?thesis using t t' r(3) assms(3) rep'(4) by (auto simp: index_synced_def)
qed

theorem torn_index_destroys_segment_witness:
  "\<exists>t t' u. openSegment io_ok 7 4096 False (seg_content sample_segment) (map_option (take 8) (sgIdxFile sample_segment)) = Inr t \<and>
     segment_append io_ok (frame_of (encodeBody next_sample)) 8 t = (t', Inr ()) \<and>
     seg_rep t' [normalised sample_record, normalised next_sample] \<and>
     openSegment io_ok 7 4096 False (seg_content t') (sgIdxFile t') = Inr u \<and> length (sgFile u) = 8"
proof -
  have c: "seg_rep sample_segment [normalised sample_record]" "sgBase sample_segment = 7" using sample_segment_rep by simp_all
  have seq: "rSeq next_sample = 8" by (simp add: next_sample_def)
  show ?thesis
    using torn_index_destroys_segment [OF c(1) _ sample_segment_synced _ _ sample_segment_small next_sample_encode next_sample_fit seq, of 4096]
    unfolding c(2) sample_segment_index append.append_Cons append.append_Nil by fastforce
qed

end
