(* ===== verification/Epoch.thy ===== *)
theory Epoch
  imports Stream_Record
begin

section \<open>Leader epochs (internal/stream/epoch.go)\<close>

text \<open>
  The history of leadership terms of one partition: for each term the first sequence assigned
  under it. The state of \<open>leaderEpochCache\<close> is its entries and the checkpoint file beside the
  segments (\<open>None\<close> when the file does not exist); a failing system call of the rewrite leaves
  the old file in place, since the new one is renamed over it last. The mutex serialises the
  methods, so each is one transition. \<open>sort.Slice\<close> on load is not stable; on entries with
  distinct terms, which is all the cache ever writes, it agrees with \<open>sort_key\<close>.
\<close>

subsection \<open>State and operations\<close>

record epochEntry =
  eEpoch :: u32
  eStartSeq :: u64

record leaderEpochCache =
  ecEntries :: "epochEntry list"
  ecFile :: "bytes option"

definition epochEntrySize :: nat where "epochEntrySize = 12"
definition UndefinedEpoch :: u32 where "UndefinedEpoch = 0"

definition encodeEpochEntries :: "epochEntry list \<Rightarrow> bytes" where
  "encodeEpochEntries es = concat (map (\<lambda>e. put32 (eEpoch e) @ put64 (eStartSeq e)) es)"

fun decodeEpochEntries :: "nat \<Rightarrow> bytes \<Rightarrow> epochEntry list" where
  "decodeEpochEntries 0 data = []"
| "decodeEpochEntries (Suc n) data =
     \<lparr>eEpoch = get32 data, eStartSeq = get64 (drop 4 data)\<rparr> # decodeEpochEntries n (drop epochEntrySize data)"

definition openEpochCache :: "io \<Rightarrow> bytes option \<Rightarrow> stream_error + leaderEpochCache" where
  "openEpochCache io file =
     (case file of
        None \<Rightarrow> Inr \<lparr>ecEntries = [], ecFile = None\<rparr>
      | Some data \<Rightarrow>
          if \<not> io ''read epoch checkpoint'' then Inl (ErrIO ''read epoch checkpoint'')
          else Inr \<lparr>ecEntries = sort_key eEpoch (decodeEpochEntries (length data div epochEntrySize) data),
                    ecFile = Some data\<rparr>)"

text \<open>
  The rewrite-and-rename of the checkpoint: any failing call leaves the old file in place.
\<close>

definition flushLocked :: "io \<Rightarrow> leaderEpochCache \<Rightarrow> leaderEpochCache \<times> (stream_error + unit)" where
  "flushLocked io c =
     (if ecEntries c = [] then
        (if io ''remove epoch checkpoint'' then (c\<lparr>ecFile := None\<rparr>, Inr ())
         else (c, Inl (ErrIO ''remove epoch checkpoint'')))
      else if \<not> io ''open epoch checkpoint'' then (c, Inl (ErrIO ''open epoch checkpoint''))
      else if \<not> io ''write epoch checkpoint'' then (c, Inl (ErrIO ''write epoch checkpoint''))
      else if \<not> io ''sync epoch checkpoint'' then (c, Inl (ErrIO ''sync epoch checkpoint''))
      else if \<not> io ''close epoch checkpoint'' then (c, Inl (ErrIO ''close epoch checkpoint''))
      else if \<not> io ''rename epoch checkpoint'' then (c, Inl (ErrIO ''rename epoch checkpoint''))
      else (c\<lparr>ecFile := Some (encodeEpochEntries (ecEntries c))\<rparr>, Inr ()))"

definition assign :: "io \<Rightarrow> u32 \<Rightarrow> u64 \<Rightarrow> leaderEpochCache \<Rightarrow> leaderEpochCache \<times> (stream_error + unit)" where
  "assign io epoch startSeq c =
     (if epoch = UndefinedEpoch then (c, Inr ())
      else
        let c' = c\<lparr>ecEntries := ecEntries c @ [\<lparr>eEpoch = epoch, eStartSeq = startSeq\<rparr>]\<rparr> in
        if ecEntries c \<noteq> [] then
          let l = last (ecEntries c) in
          if epoch \<le> eEpoch l then (c, Inr ())
          else if startSeq < eStartSeq l then
            (c, Inl (ErrEpochOrder epoch startSeq (eEpoch l) (eStartSeq l)))
          else flushLocked io c'
        else flushLocked io c')"

definition latest :: "leaderEpochCache \<Rightarrow> u32 \<times> u64" where
  "latest c =
     (if ecEntries c = [] then (UndefinedEpoch, 0)
      else (eEpoch (last (ecEntries c)), eStartSeq (last (ecEntries c))))"

definition endOffsetFor :: "leaderEpochCache \<Rightarrow> u32 \<Rightarrow> u64 \<Rightarrow> u32 \<times> u64" where
  "endOffsetFor c epoch logEndSeq =
     (let es = ecEntries c in
      if es = [] then (UndefinedEpoch, 0)
      else if eEpoch (last es) \<le> epoch then (eEpoch (last es), logEndSeq)
      else
        let i = sort_search (length es) (\<lambda>i. eEpoch (es ! i) > epoch) in
        if i = 0 then (UndefinedEpoch, 0) else (eEpoch (es ! (i - 1)), eStartSeq (es ! i)))"

definition epochForSeq :: "leaderEpochCache \<Rightarrow> u64 \<Rightarrow> u32" where
  "epochForSeq c seq =
     (let es = ecEntries c; i = sort_search (length es) (\<lambda>i. eStartSeq (es ! i) > seq) in
      if i = 0 then UndefinedEpoch else eEpoch (es ! (i - 1)))"

definition truncateFromSeq :: "io \<Rightarrow> u64 \<Rightarrow> leaderEpochCache \<Rightarrow> leaderEpochCache \<times> (stream_error + unit)" where
  "truncateFromSeq io seq c =
     (let es = ecEntries c; i = sort_search (length es) (\<lambda>i. eStartSeq (es ! i) \<ge> seq) in
      if i = length es then (c, Inr ()) else flushLocked io (c\<lparr>ecEntries := take i es\<rparr>))"

definition truncateBeforeSeq :: "io \<Rightarrow> u64 \<Rightarrow> leaderEpochCache \<Rightarrow> leaderEpochCache \<times> (stream_error + unit)" where
  "truncateBeforeSeq io seq c =
     (let es = ecEntries c; i = sort_search (length es) (\<lambda>i. eStartSeq (es ! i) > seq) in
      if i \<le> 1 then (c, Inr ()) else flushLocked io (c\<lparr>ecEntries := drop (i - 1) es\<rparr>))"

definition epoch_snapshot :: "leaderEpochCache \<Rightarrow> epochEntry list" where
  "epoch_snapshot c = ecEntries c"

subsection \<open>Invariant\<close>

definition entry_before :: "epochEntry \<Rightarrow> epochEntry \<Rightarrow> bool" where
  "entry_before a b \<longleftrightarrow> eEpoch a < eEpoch b \<and> eStartSeq a \<le> eStartSeq b"

definition epochs_ordered :: "epochEntry list \<Rightarrow> bool" where
  "epochs_ordered es \<longleftrightarrow> sorted_wrt entry_before es \<and> (\<forall>e \<in> set es. eEpoch e \<noteq> UndefinedEpoch)"

abbreviation cache_ordered :: "leaderEpochCache \<Rightarrow> bool" where
  "cache_ordered c \<equiv> epochs_ordered (ecEntries c)"

lemma epochs_ordered_simps [simp]:
  "epochs_ordered []" "epochs_ordered [e] \<longleftrightarrow> eEpoch e \<noteq> UndefinedEpoch"
  by (simp_all add: epochs_ordered_def)

lemma upward_epoch: "epochs_ordered es \<Longrightarrow> upward (\<lambda>e. eEpoch e > x) es"
  unfolding epochs_ordered_def by (erule conjE, erule upward_sorted_wrt) (auto simp: entry_before_def)

lemma upward_start: "epochs_ordered es \<Longrightarrow> upward (\<lambda>e. eStartSeq e > x) es"
  unfolding epochs_ordered_def by (erule conjE, erule upward_sorted_wrt) (auto simp: entry_before_def)

lemma upward_start_ge: "epochs_ordered es \<Longrightarrow> upward (\<lambda>e. eStartSeq e \<ge> x) es"
  unfolding epochs_ordered_def by (erule conjE, erule upward_sorted_wrt) (auto simp: entry_before_def)

lemmas epoch_search =
  sort_search_takeWhile [OF upward_epoch] sort_search_takeWhile [OF upward_start]
  sort_search_takeWhile [OF upward_start_ge]

lemma epochs_ordered_prefix: "epochs_ordered es \<Longrightarrow> epochs_ordered (take n es)"
  by (auto simp: epochs_ordered_def sorted_wrt_take dest: in_set_takeD)

lemma epochs_ordered_suffix: "epochs_ordered es \<Longrightarrow> epochs_ordered (drop n es)"
  by (auto simp: epochs_ordered_def sorted_wrt_drop dest: in_set_dropD)

lemma flushLocked_entries [simp]: "ecEntries (fst (flushLocked io c)) = ecEntries c"
  by (simp add: flushLocked_def)

lemma epochs_ordered_snoc:
  assumes "epochs_ordered es" and "x \<noteq> UndefinedEpoch"
    and "es \<noteq> [] \<Longrightarrow> eEpoch (last es) < x \<and> eStartSeq (last es) \<le> s"
  shows "epochs_ordered (es @ [\<lparr>eEpoch = x, eStartSeq = s\<rparr>])"
proof -
  have "entry_before e \<lparr>eEpoch = x, eStartSeq = s\<rparr>" if "e \<in> set es" for e
  proof -
    have "es \<noteq> []" using that by auto
    then have "e = last es \<or> entry_before e (last es)"
      using that assms(1) by (cases es rule: rev_cases) (auto simp: epochs_ordered_def sorted_wrt_append)
    then show ?thesis using assms(3) \<open>es \<noteq> []\<close> by (auto simp: entry_before_def)
  qed
  then show ?thesis using assms(1,2) by (auto simp: epochs_ordered_def sorted_wrt_append)
qed

lemma assign_ordered: "cache_ordered c \<Longrightarrow> cache_ordered (fst (assign io x s c))"
  by (auto simp: assign_def Let_def intro!: epochs_ordered_snoc)

lemma truncateFromSeq_ordered: "cache_ordered c \<Longrightarrow> cache_ordered (fst (truncateFromSeq io s c))"
  by (simp add: truncateFromSeq_def Let_def epochs_ordered_prefix)

lemma truncateBeforeSeq_ordered: "cache_ordered c \<Longrightarrow> cache_ordered (fst (truncateBeforeSeq io s c))"
  by (simp add: truncateBeforeSeq_def Let_def epochs_ordered_suffix)


subsection \<open>What the history answers\<close>

lemma epochForSeq_takeWhile:
  assumes "cache_ordered c"
  shows "epochForSeq c s =
    (let n = length (takeWhile (\<lambda>e. eStartSeq e \<le> s) (ecEntries c)) in
     if n = 0 then UndefinedEpoch else eEpoch (ecEntries c ! (n - 1)))"
  using epoch_search(2) [OF assms, of s] by (simp add: epochForSeq_def Let_def not_less)

lemma started_iff:
  assumes "epochs_ordered es" and "i < length es"
  shows "i < length (takeWhile (\<lambda>e. eStartSeq e \<le> s) es) \<longleftrightarrow> eStartSeq (es ! i) \<le> s"
  using upward_start [OF assms(1), of s] assms(2) by (intro takeWhile_upward_iff) (simp_all add: not_le)

lemma epoch_mono:
  "epochs_ordered es \<Longrightarrow> i \<le> j \<Longrightarrow> j < length es \<Longrightarrow> eEpoch (es ! i) \<le> eEpoch (es ! j)"
  unfolding epochs_ordered_def sorted_wrt_iff_nth_less entry_before_def
  by (metis le_neq_implies_less order.refl order.strict_implies_order)

lemma epochForSeq_before:
  assumes "cache_ordered c" and "i < length (ecEntries c)" and "s < eStartSeq (ecEntries c ! i)"
    and "i = 0 \<or> eEpoch (ecEntries c ! (i - 1)) \<le> x"
  shows "epochForSeq c s \<le> x"
proof -
  let ?n = "length (takeWhile (\<lambda>e. eStartSeq e \<le> s) (ecEntries c))"
  have "?n \<le> i" using started_iff [OF assms(1,2), of s] assms(3) by (meson not_le)
  moreover have "eEpoch (ecEntries c ! (?n - 1)) \<le> eEpoch (ecEntries c ! (i - 1))" if "?n \<noteq> 0"
    using that \<open>?n \<le> i\<close> assms(2) by (intro epoch_mono [OF assms(1)]) simp_all
  ultimately show ?thesis
    using assms(4) by (auto simp: epochForSeq_takeWhile [OF assms(1)] Let_def UndefinedEpoch_def)
qed

lemma epochForSeq_from:
  assumes "cache_ordered c" and "i < length (ecEntries c)" and "eStartSeq (ecEntries c ! i) \<le> s"
  shows "eEpoch (ecEntries c ! i) \<le> epochForSeq c s"
proof -
  let ?n = "length (takeWhile (\<lambda>e. eStartSeq e \<le> s) (ecEntries c))"
  have "i < ?n" using started_iff [OF assms(1,2), of s] assms(3) by simp
  moreover have "?n \<le> length (ecEntries c)" by (rule length_takeWhile_le)
  ultimately have "eEpoch (ecEntries c ! i) \<le> eEpoch (ecEntries c ! (?n - 1))"
    by (intro epoch_mono [OF assms(1)]) simp_all
  then show ?thesis using \<open>i < ?n\<close> by (auto simp: epochForSeq_takeWhile [OF assms(1)] Let_def)
qed

lemma epochForSeq_le_last:
  assumes "cache_ordered c" and "ecEntries c \<noteq> []"
  shows "epochForSeq c s \<le> eEpoch (last (ecEntries c))"
proof -
  let ?n = "length (takeWhile (\<lambda>e. eStartSeq e \<le> s) (ecEntries c))"
  have "?n \<le> length (ecEntries c)" by (rule length_takeWhile_le)
  then have "eEpoch (ecEntries c ! (?n - 1)) \<le> eEpoch (ecEntries c ! (length (ecEntries c) - 1))"
    using assms(2) by (intro epoch_mono [OF assms(1)]) auto
  then show ?thesis
    using assms(2) by (auto simp: epochForSeq_takeWhile [OF assms(1)] Let_def UndefinedEpoch_def last_conv_nth)
qed

text \<open>
  the offset a leader reports for a term separates its log exactly: every sequence below it
  was assigned under that term or an older one, and every sequence from it on, up to the end of
  the log, under a newer one.
\<close>

theorem endOffsetFor_separates:
  assumes ord: "cache_ordered c" and res: "endOffsetFor c x logEnd = (y, off)" and y: "y \<noteq> UndefinedEpoch"
  shows "y \<le> x \<and> (\<forall>s. s < off \<and> s < logEnd \<longrightarrow> epochForSeq c s \<le> x) \<and>
         (\<forall>s. off \<le> s \<and> s < logEnd \<longrightarrow> x < epochForSeq c s)"
proof -
  let ?es = "ecEntries c"
  have ne: "?es \<noteq> []" using res y by (auto simp: endOffsetFor_def Let_def)
  show ?thesis
  proof (cases "eEpoch (last ?es) \<le> x")
    case True
    then have "y = eEpoch (last ?es)" "off = logEnd" using res ne by (auto simp: endOffsetFor_def Let_def)
    moreover have "epochForSeq c s \<le> x" for s
      using epochForSeq_le_last [OF ord ne, of s] True by (rule order_trans)
    ultimately show ?thesis using True by auto
  next
    case False
    let ?i = "length (takeWhile (\<lambda>e. \<not> eEpoch e > x) ?es)"
    have i: "?i \<noteq> 0" "y = eEpoch (?es ! (?i - 1))" "off = eStartSeq (?es ! ?i)"
      using res y ne False epoch_search(1) [OF ord, of x]
      by (auto simp: endOffsetFor_def Let_def split: if_splits)
    have lt: "?i < length ?es"
    proof (rule ccontr)
      assume "\<not> ?i < length ?es"
      then have "takeWhile (\<lambda>e. \<not> eEpoch e > x) ?es = ?es"
        by (metis not_less take_all takeWhile_eq_take)
      then have "\<not> eEpoch (last ?es) > x" using ne by (metis last_in_set set_takeWhileD)
      with False show False by simp
    qed
    have up: "eEpoch (?es ! ?i) > x"
      using nth_length_takeWhile [of "\<lambda>e. \<not> eEpoch e > x" ?es] lt by simp
    have dn: "eEpoch (?es ! (?i - 1)) \<le> x"
      using takeWhile_nth_sat [of "?i - 1" "\<lambda>e. \<not> eEpoch e > x" ?es] i(1) by (simp add: not_less)
    show ?thesis
      using epochForSeq_before [OF ord lt, of _ x] epochForSeq_from [OF ord lt] up dn i
      by (auto dest: order.strict_trans1 order.strict_trans2)
  qed
qed


subsection \<open>Truncation keeps the placement of what stays\<close>

lemma truncateFromSeq_entries:
  assumes "cache_ordered c"
  shows "ecEntries (fst (truncateFromSeq io s c)) = takeWhile (\<lambda>e. eStartSeq e < s) (ecEntries c)"
proof -
  have "sort_search (length (ecEntries c)) (\<lambda>i. eStartSeq (ecEntries c ! i) \<ge> s) =
      length (takeWhile (\<lambda>e. eStartSeq e < s) (ecEntries c))"
    using epoch_search(3) [OF assms, of s] by (simp add: not_le)
  then show ?thesis
    by (simp add: truncateFromSeq_def Let_def) (metis take_all order.refl takeWhile_eq_take)
qed

lemma epochForSeq_truncateFromSeq:
  assumes "cache_ordered c" and "x < s"
  shows "epochForSeq (fst (truncateFromSeq io s c)) x = epochForSeq c x"
proof -
  let ?es = "ecEntries c" and ?t = "takeWhile (\<lambda>e. eStartSeq e < s) (ecEntries c)"
  let ?n = "length (takeWhile (\<lambda>e. eStartSeq e \<le> x) ?es)"
  have tw: "takeWhile (\<lambda>e. eStartSeq e \<le> x) (takeWhile (\<lambda>e. eStartSeq e < s) es) =
        takeWhile (\<lambda>e. eStartSeq e \<le> x) es" for es
    using assms(2) by (induction es) auto
  have "?n \<le> length ?t"
    using assms(2) by (auto intro!: length_takeWhile_mono)
  then have nth: "?n = 0 \<or> ?t ! (?n - 1) = ?es ! (?n - 1)"
    by (metis One_nat_def Suc_le_eq Suc_pred' not_gr_zero takeWhile_nth)
  show ?thesis
    unfolding epochForSeq_takeWhile [OF assms(1)] epochForSeq_takeWhile [OF truncateFromSeq_ordered [OF assms(1)]]
      truncateFromSeq_entries [OF assms(1)] Let_def tw using nth by (cases "?n = 0") simp_all
qed

lemma epochForSeq_truncateBeforeSeq:
  assumes "cache_ordered c" and "s \<le> x"
  shows "epochForSeq (fst (truncateBeforeSeq io s c)) x = epochForSeq c x"
proof -
  let ?es = "ecEntries c" and ?Q = "\<lambda>y e. eStartSeq e \<le> y"
  let ?i = "length (takeWhile (?Q s) ?es)"
  have i: "sort_search (length ?es) (\<lambda>i. eStartSeq (?es ! i) > s) = ?i"
    using epoch_search(2) [OF assms(1), of s] by (simp add: not_less)
  have le: "?i \<le> length (takeWhile (?Q x) ?es)"
    using assms(2) by (auto intro: length_takeWhile_mono)
  show ?thesis
  proof (cases "?i \<le> 1")
    case True
    then show ?thesis by (simp add: truncateBeforeSeq_def i Let_def)
  next
    case False
    let ?c = "fst (truncateBeforeSeq io s c)" and ?n = "length (takeWhile (?Q x) ?es)"
    have "ecEntries ?c = drop (?i - 1) ?es" using False by (simp add: truncateBeforeSeq_def i Let_def)
    moreover from this have "length (takeWhile (?Q x) (ecEntries ?c)) = ?n - (?i - 1)"
      using le by (simp add: takeWhile_drop)
    moreover have "?i - 1 + (?n - (?i - 1) - 1) = ?n - 1" and "?n - (?i - 1) \<noteq> 0" and "?n \<noteq> 0"
      and "?i - 1 \<le> length ?es"
      using le False length_takeWhile_le [of "?Q x" ?es] by linarith+
    ultimately show ?thesis
      using truncateBeforeSeq_ordered [OF assms(1), of io s] assms(1)
      by (simp add: epochForSeq_takeWhile Let_def)
  qed
qed


subsection \<open>The checkpoint\<close>

lemma decodeEpochEntries_encode:
  "decodeEpochEntries (length es) (encodeEpochEntries es @ tail) = es"
  by (induction es) (simp_all add: encodeEpochEntries_def epochEntrySize_def)

lemma length_encodeEpochEntries: "length (encodeEpochEntries es) = epochEntrySize * length es"
  by (induction es) (simp_all add: encodeEpochEntries_def epochEntrySize_def)

lemma sort_key_ordered:
  assumes "epochs_ordered es"
  shows "sort_key eEpoch es = es"
proof -
  have "sorted (map eEpoch es)"
    using assms unfolding epochs_ordered_def sorted_map
    by (auto elim!: sorted_wrt_mono_rel [rotated] simp: entry_before_def)
  then show ?thesis by (rule sort_key_id_if_sorted)
qed

text \<open>
  a checkpoint that lost its last bytes to a crash reopens as a prefix of the history that
  was written: every whole entry before the cut, in order.
\<close>

theorem openEpochCache_torn:
  assumes "cache_ordered c" and "n \<le> length (encodeEpochEntries (ecEntries c))"
  shows "openEpochCache io_ok (Some (take n (encodeEpochEntries (ecEntries c)))) =
    Inr \<lparr>ecEntries = take (n div epochEntrySize) (ecEntries c),
         ecFile = Some (take n (encodeEpochEntries (ecEntries c)))\<rparr>"
proof -
  let ?es = "ecEntries c" and ?k = "n div epochEntrySize"
  let ?p = "take ?k ?es"
  have k: "?k \<le> length ?es"
    using assms(2) by (simp add: length_encodeEpochEntries epochEntrySize_def)
  have "take n (encodeEpochEntries ?es) = encodeEpochEntries ?p @ take (n - length (encodeEpochEntries ?p)) (encodeEpochEntries (drop ?k ?es))"
  proof -
    have "encodeEpochEntries ?es = encodeEpochEntries ?p @ encodeEpochEntries (drop ?k ?es)"
      by (simp add: encodeEpochEntries_def flip: concat_append map_append)
    moreover have "length (encodeEpochEntries ?p) \<le> n"
      using k by (simp add: length_encodeEpochEntries min_def epochEntrySize_def)
    ultimately show ?thesis by simp
  qed
  moreover have "length ?p = ?k" using k by simp
  ultimately have "decodeEpochEntries ?k (take n (encodeEpochEntries ?es)) = ?p"
    by (metis decodeEpochEntries_encode)
  then show ?thesis
    using assms(2) sort_key_ordered [OF epochs_ordered_prefix [OF assms(1), of ?k]]
    by (simp add: openEpochCache_def min_absorb2)
qed


subsection \<open>The life of a cache\<close>

text \<open>
  Every operation the partition calls, with any outcome of the system calls it makes.
\<close>

inductive epoch_step :: "leaderEpochCache \<Rightarrow> leaderEpochCache \<Rightarrow> bool" where
  step_assign: "epoch_step c (fst (assign io x s c))"
| step_truncateFrom: "epoch_step c (fst (truncateFromSeq io s c))"
| step_truncateBefore: "epoch_step c (fst (truncateBeforeSeq io s c))"

definition epoch_init :: "leaderEpochCache \<Rightarrow> bool" where
  "epoch_init c \<longleftrightarrow> openEpochCache io_ok None = Inr c"

text \<open>
  The file is a history the cache once held: the entries it decodes to are ordered, whatever
  calls failed on the way.
\<close>

definition file_ordered :: "leaderEpochCache \<Rightarrow> bool" where
  "file_ordered c \<longleftrightarrow>
     (case ecFile c of None \<Rightarrow> True
      | Some data \<Rightarrow> data = encodeEpochEntries (decodeEpochEntries (length data div epochEntrySize) data) \<and>
          epochs_ordered (decodeEpochEntries (length data div epochEntrySize) data))"

definition epoch_inv :: "leaderEpochCache \<Rightarrow> bool" where
  "epoch_inv c \<longleftrightarrow> cache_ordered c \<and> file_ordered c"

lemma decode_encode_length [simp]:
  "decodeEpochEntries (length (encodeEpochEntries es) div epochEntrySize) (encodeEpochEntries es) = es"
  using decodeEpochEntries_encode [of es "[]"] by (simp add: length_encodeEpochEntries epochEntrySize_def)

lemma flushLocked_inv: "cache_ordered c \<Longrightarrow> file_ordered c \<Longrightarrow> epoch_inv (fst (flushLocked io c))"
  by (auto simp: epoch_inv_def flushLocked_def file_ordered_def)

lemma file_ordered_entries [simp]: "file_ordered (c\<lparr>ecEntries := es\<rparr>) = file_ordered c"
  by (simp add: file_ordered_def)

lemma assign_inv: "epoch_inv c \<Longrightarrow> epoch_inv (fst (assign io x s c))"
  using assign_ordered [of c io x s]
  by (auto simp: epoch_inv_def assign_def Let_def intro!: flushLocked_inv [unfolded epoch_inv_def, THEN conjunct2] epochs_ordered_snoc)

lemma truncateFromSeq_inv: "epoch_inv c \<Longrightarrow> epoch_inv (fst (truncateFromSeq io s c))"
  by (auto simp: epoch_inv_def truncateFromSeq_def Let_def epochs_ordered_prefix
      intro!: flushLocked_inv [unfolded epoch_inv_def, THEN conjunct2])

lemma truncateBeforeSeq_inv: "epoch_inv c \<Longrightarrow> epoch_inv (fst (truncateBeforeSeq io s c))"
  by (auto simp: epoch_inv_def truncateBeforeSeq_def Let_def epochs_ordered_suffix
      intro!: flushLocked_inv [unfolded epoch_inv_def, THEN conjunct2])

interpretation epoch: state_machine epoch_init epoch_step epoch_inv
proof unfold_locales
  show "epoch_inv c" if "epoch_init c" for c
    using that by (auto simp: epoch_init_def openEpochCache_def epoch_inv_def file_ordered_def)
  show "epoch_inv d" if "epoch_inv c" and "epoch_step c d" for c d
    using that(2,1) by (cases rule: epoch_step.cases)
      (auto intro: assign_inv truncateFromSeq_inv truncateBeforeSeq_inv)
qed

lemmas epoch_reachable = epoch.reachable_inv [unfolded epoch_inv_def]

text \<open>
  C34: in every state the cache can reach, through any sequence of operations and any failing
  system call, its entries ascend strictly by term and weakly by sequence, and reopening the
  partition from the checkpoint on disk succeeds with a history ordered in the same way.
\<close>

theorem epoch_cache_ordered:
  assumes "reachable epoch_init epoch_step c"
  shows "epochs_ordered (ecEntries c) \<and>
    (\<exists>d. openEpochCache io_ok (ecFile c) = Inr d \<and> epochs_ordered (ecEntries d))"
  using epoch_reachable [OF assms]
  by (auto simp: openEpochCache_def file_ordered_def sort_key_ordered split: option.splits)

definition sample_cache :: leaderEpochCache where
  "sample_cache = fst (assign io_ok 3 20 (fst (assign io_ok 1 5 \<lparr>ecEntries = [], ecFile = None\<rparr>)))"

lemma sample_cache_reachable: "reachable epoch_init epoch_step sample_cache"
proof -
  have "reachable epoch_init epoch_step \<lparr>ecEntries = [], ecFile = None\<rparr>"
    by (rule reach_init) (simp add: epoch_init_def openEpochCache_def)
  then show ?thesis
    unfolding sample_cache_def by (meson reach_step step_assign)
qed

lemma sample_cache_entries:
  "ecEntries sample_cache = [\<lparr>eEpoch = 1, eStartSeq = 5\<rparr>, \<lparr>eEpoch = 3, eStartSeq = 20\<rparr>]"
  by (simp add: sample_cache_def assign_def UndefinedEpoch_def Let_def word_le_nat_alt)

lemma sample_cache_ordered: "cache_ordered sample_cache"
  using epoch_reachable [OF sample_cache_reachable] by simp

theorem epoch_cache_ordered_witness:
  "ecEntries sample_cache \<noteq> [] \<and> epochs_ordered (ecEntries sample_cache) \<and>
    (\<exists>d. openEpochCache io_ok (ecFile sample_cache) = Inr d \<and> epochs_ordered (ecEntries d))"
  using epoch_cache_ordered [OF sample_cache_reachable] by (simp add: sample_cache_entries)

theorem endOffsetFor_separates_witness:
  "endOffsetFor sample_cache 2 30 = (1, 20) \<and> epochForSeq sample_cache 19 \<le> 2 \<and> 2 < epochForSeq sample_cache 20"
proof -
  have r: "endOffsetFor sample_cache 2 30 = (1, 20)"
    by (simp add: endOffsetFor_def sample_cache_entries sort_search_def search_loop.simps Let_def)
  show ?thesis
    using r endOffsetFor_separates [OF sample_cache_ordered r] by (simp add: UndefinedEpoch_def)
qed

theorem openEpochCache_torn_witness:
  "openEpochCache io_ok (Some (take 17 (encodeEpochEntries (ecEntries sample_cache)))) =
    Inr \<lparr>ecEntries = [\<lparr>eEpoch = 1, eStartSeq = 5\<rparr>],
         ecFile = Some (take 17 (encodeEpochEntries (ecEntries sample_cache)))\<rparr>"
  using openEpochCache_torn [OF sample_cache_ordered, of 17]
  by (simp add: sample_cache_entries length_encodeEpochEntries epochEntrySize_def)

text \<open>
  cutting the history keeps the term of every sequence the log still holds: below the cut
  when a tail is truncated, from the cut on when retention drops the front.
\<close>

theorem truncate_keeps_placement:
  assumes "cache_ordered c"
  shows "(\<forall>x < s. epochForSeq (fst (truncateFromSeq io s c)) x = epochForSeq c x) \<and>
         (\<forall>x \<ge> s. epochForSeq (fst (truncateBeforeSeq io s c)) x = epochForSeq c x)"
  using epochForSeq_truncateFromSeq [OF assms] epochForSeq_truncateBeforeSeq [OF assms] by blast

theorem truncate_keeps_placement_witness:
  "epochForSeq (fst (truncateFromSeq io_ok 15 sample_cache)) 10 = 1 \<and>
   epochForSeq (fst (truncateBeforeSeq io_ok 25 sample_cache)) 40 = 3"
  using truncate_keeps_placement [OF sample_cache_ordered, of 15 io_ok]
    truncate_keeps_placement [OF sample_cache_ordered, of 25 io_ok]
  by (simp add: epochForSeq_def sample_cache_entries sort_search_def search_loop.simps Let_def)

text \<open>
  a term whose checkpoint write failed is never written by a retry. The entry is already in
  memory, so the second call takes the early return for a known term and reports success while
  the file still holds the history without it.
\<close>

theorem assign_retry_not_persisted:
  assumes "x \<noteq> UndefinedEpoch" and "io ''open epoch checkpoint''" and "\<not> io ''write epoch checkpoint''"
    and "ecEntries c = [] \<or> eEpoch (last (ecEntries c)) < x \<and> eStartSeq (last (ecEntries c)) \<le> s"
  shows "(let d = fst (assign io x s c) in
      snd (assign io x s c) = Inl (ErrIO ''write epoch checkpoint'') \<and> ecFile d = ecFile c \<and>
      assign io_ok x s d = (d, Inr ()))"
  using assms(4)
proof
  assume "ecEntries c = []"
  with assms(1-3) show ?thesis by (simp add: assign_def flushLocked_def Let_def)
next
  assume "eEpoch (last (ecEntries c)) < x \<and> eStartSeq (last (ecEntries c)) \<le> s"
  with assms(1-3) show ?thesis by (simp add: assign_def flushLocked_def Let_def not_le [symmetric])
qed

theorem assign_retry_not_persisted_witness:
  "let io = (\<lambda>op. op \<noteq> ''write epoch checkpoint''); d = fst (assign io 7 40 sample_cache) in
    snd (assign io 7 40 sample_cache) = Inl (ErrIO ''write epoch checkpoint'') \<and>
    ecFile d = ecFile sample_cache \<and> assign io_ok 7 40 d = (d, Inr ())"
  using assign_retry_not_persisted [of 7 "\<lambda>op. op \<noteq> ''write epoch checkpoint''" sample_cache 40]
  by (simp add: sample_cache_entries UndefinedEpoch_def)

end
