(* ===== verification/Partition.thy ===== *)
theory Partition
  imports Segment Epoch
begin

unbundle bit_operations_syntax

section \<open>Partitions (internal/stream/partition.go)\<close>

text \<open>
  A partition is an ordered list of segments, the last of them active, with the head and tail
  sequences, the epoch history and the write guard. Each method that holds the lock is one
  transition; the notify channel that is closed and replaced on every append is the count of
  broadcasts. \<open>time.Now\<close> is the argument \<open>now\<close>, and the directory is the list of its segment files.

  The lemmas relate a partition to its log, the concatenation of what its segments hold
  (\<open>part_rep\<close>), and to the terms its epoch history assigns (\<open>epoch_rep\<close>): appends extend the log
  by one, truncation cuts it, and a read across segments is a prefix of a filter of it.
\<close>

subsection \<open>State\<close>

record PartitionConfig =
  cSegmentBytes :: int
  cIndexInterval :: int
  cRetentionBytes :: int
  cRetentionAge :: int
  cSyncOnAppend :: bool

definition DefaultPartitionConfig :: PartitionConfig where
  "DefaultPartitionConfig =
     \<lparr>cSegmentBytes = 268435456, cIndexInterval = 4096, cRetentionBytes = 0, cRetentionAge = 0, cSyncOnAppend = False\<rparr>"

definition applyDefaults :: "PartitionConfig \<Rightarrow> PartitionConfig" where
  "applyDefaults c =
     (let c1 = (if cSegmentBytes c \<le> 0 then c\<lparr>cSegmentBytes := cSegmentBytes DefaultPartitionConfig\<rparr> else c) in
      if cIndexInterval c1 \<le> 0 then c1\<lparr>cIndexInterval := cIndexInterval DefaultPartitionConfig\<rparr> else c1)"

record partition =
  pCfg :: PartitionConfig
  pSegments :: "segment list"
  pNextSeq :: u64
  pFirstSeq :: u64
  pClosed :: bool
  pEpochs :: leaderEpochCache
  pCurEpoch :: u32
  pEnforceLeadership :: bool
  pIsLeader :: bool
  pBroadcasts :: nat
  pAppendCount :: u64
  pByteCount :: int

subsection \<open>Opening\<close>

text \<open>The segment files of the directory, ascending by base: base, log bytes, index bytes.\<close>

type_synonym segment_files = "(u64 \<times> bytes \<times> bytes option) list"

fun open_segments :: "io \<Rightarrow> int \<Rightarrow> segment_files \<Rightarrow> stream_error + segment list" where
  "open_segments io interval [] = Inr []"
| "open_segments io interval ((base, log, idx) # fs) =
     (case openSegment io base interval (fs \<noteq> []) log idx of
        Inl e \<Rightarrow> Inl e
      | Inr s \<Rightarrow> (case open_segments io interval fs of Inl e \<Rightarrow> Inl e | Inr ss \<Rightarrow> Inr (s # ss)))"

definition OpenPartition ::
  "io \<Rightarrow> PartitionConfig \<Rightarrow> bytes option \<Rightarrow> segment_files \<Rightarrow> stream_error + partition" where
  "OpenPartition io cfg0 epochFile fs =
     (let cfg = applyDefaults cfg0 in
      if \<not> io ''create partition dir'' then Inl (ErrIO ''create partition dir'')
      else
        case openEpochCache io epochFile of
          Inl e \<Rightarrow> Inl e
        | Inr epochs \<Rightarrow>
            let p = \<lparr>pCfg = cfg, pSegments = [], pNextSeq = 0, pFirstSeq = 0, pClosed = False, pEpochs = epochs,
                     pCurEpoch = fst (latest epochs), pEnforceLeadership = False, pIsLeader = False,
                     pBroadcasts = 0, pAppendCount = 0, pByteCount = 0\<rparr>
            in
            if \<not> io ''list segments'' then Inl (ErrIO ''list segments'')
            else if fs = [] then
              (case createSegment io 1 (cIndexInterval cfg) ([], []) of
                 Inl e \<Rightarrow> Inl e
               | Inr seg \<Rightarrow> Inr (p\<lparr>pSegments := [seg], pNextSeq := 1, pFirstSeq := 1\<rparr>))
            else
              (case open_segments io (cIndexInterval cfg) fs of
                 Inl e \<Rightarrow> Inl e
               | Inr segs \<Rightarrow>
                   Inr (p\<lparr>pSegments := segs, pByteCount := sum_list (map segment_bytes segs),
                          pNextSeq := lastSequence (last segs) + 1, pFirstSeq := sgBase (hd segs)\<rparr>)))"

subsection \<open>Appending\<close>

definition active :: "partition \<Rightarrow> segment" where
  "active p = last (pSegments p)"

definition set_active :: "segment \<Rightarrow> partition \<Rightarrow> partition" where
  "set_active s p = p\<lparr>pSegments := butlast (pSegments p) @ [s]\<rparr>"

definition broadcast :: "partition \<Rightarrow> partition" where
  "broadcast p = p\<lparr>pBroadcasts := pBroadcasts p + 1\<rparr>"

definition rollLocked :: "io \<Rightarrow> u64 \<Rightarrow> partition \<Rightarrow> partition \<times> (stream_error + unit)" where
  "rollLocked io baseSeq p =
     (case segment_flush io (active p) of
        (s1, Inl e) \<Rightarrow> (set_active s1 p, Inl e)
      | (s1, Inr _) \<Rightarrow>
          (case segment_sync io s1 of
             (s2, Inl e) \<Rightarrow> (set_active s2 p, Inl e)
           | (s2, Inr _) \<Rightarrow>
               (case createSegment io baseSeq (cIndexInterval (pCfg p)) ([], []) of
                  Inl e \<Rightarrow> (set_active s2 p, Inl e)
                | Inr seg \<Rightarrow>
                    ((set_active s2 p)\<lparr>pSegments := pSegments (set_active s2 p) @ [seg]\<rparr>, Inr ()))))"

text \<open>
  The write the three append paths share: roll the active segment when the record does not fit,
  append the frame, advance the head.
\<close>

definition write_encoded :: "io \<Rightarrow> bytes \<Rightarrow> u64 \<Rightarrow> partition \<Rightarrow> partition \<times> (stream_error + unit)" where
  "write_encoded io encoded seq p =
     (case (if segment_bytes (active p) + int (length encoded) > cSegmentBytes (pCfg p) \<and> \<not> isEmpty (active p)
            then rollLocked io seq p else (p, Inr ())) of
        (p1, Inl e) \<Rightarrow> (p1, Inl e)
      | (p1, Inr _) \<Rightarrow>
          (case segment_append io encoded seq (active p1) of
             (s, Inl e) \<Rightarrow> (set_active s p1, Inl e)
           | (s, Inr _) \<Rightarrow> ((set_active s p1)\<lparr>pNextSeq := seq + 1\<rparr>, Inr ())))"

definition count_append :: "nat \<Rightarrow> int \<Rightarrow> partition \<Rightarrow> partition" where
  "count_append n b p = p\<lparr>pAppendCount := pAppendCount p + of_nat n, pByteCount := pByteCount p + b\<rparr>"

definition sync_active :: "io \<Rightarrow> partition \<Rightarrow> partition \<times> (stream_error + unit)" where
  "sync_active io p = (case segment_sync io (active p) of (s, r) \<Rightarrow> (set_active s p, r))"

text \<open>What follows a write: count it, sync when configured, wake the readers.\<close>

definition finish_append :: "io \<Rightarrow> nat \<Rightarrow> int \<Rightarrow> 'a \<Rightarrow> partition \<Rightarrow> partition \<times> (stream_error + 'a)" where
  "finish_append io n b x p =
     (let p1 = count_append n b p in
      if cSyncOnAppend (pCfg p1) then
        (case sync_active io p1 of
           (p2, Inl e) \<Rightarrow> (p2, Inl e)
         | (p2, Inr _) \<Rightarrow> (broadcast p2, Inr x))
      else (broadcast p1, Inr x))"

definition stamp :: "s64 \<Rightarrow> partition \<Rightarrow> stream_record \<Rightarrow> stream_record" where
  "stamp now p rec =
     (let r = rec\<lparr>rSeq := pNextSeq p, rEpoch := pCurEpoch p\<rparr> in
      if rTimestamp r = 0 then r\<lparr>rTimestamp := now\<rparr> else r)"

definition Append :: "io \<Rightarrow> s64 \<Rightarrow> stream_record \<Rightarrow> partition \<Rightarrow> partition \<times> (stream_error + u64)" where
  "Append io now rec p =
     (if rFlags rec AND FlagEphemeral \<noteq> 0 then (p, Inl ErrEphemeral)
      else if pClosed p then (p, Inl ErrClosed)
      else if pEnforceLeadership p \<and> \<not> pIsLeader p then (p, Inl ErrNotPartitionLeader)
      else
        let seq = pNextSeq p in
        case encode (stamp now p rec) of
          Inl e \<Rightarrow> (p, Inl e)
        | Inr encoded \<Rightarrow>
            (case write_encoded io encoded seq p of
               (p1, Inl e) \<Rightarrow> (p1, Inl e)
             | (p1, Inr _) \<Rightarrow> finish_append io 1 (int (length encoded)) seq p1))"

definition AppendReplicated :: "io \<Rightarrow> stream_record \<Rightarrow> partition \<Rightarrow> partition \<times> (stream_error + unit)" where
  "AppendReplicated io rec p =
     (if rFlags rec AND FlagEphemeral \<noteq> 0 then (p, Inl ErrEphemeral)
      else if rSeq rec = 0 then (p, Inl ErrNoSequence)
      else if pClosed p then (p, Inl ErrClosed)
      else if rSeq rec < pNextSeq p then (p, Inr ())
      else if rSeq rec > pNextSeq p then (p, Inl (ErrReplicationGap (rSeq rec) (pNextSeq p)))
      else
        case (if rEpoch rec > pCurEpoch p then
                (case assign io (rEpoch rec) (rSeq rec) (pEpochs p) of
                   (c, Inl e) \<Rightarrow> (p\<lparr>pEpochs := c\<rparr>, Inl e)
                 | (c, Inr _) \<Rightarrow> (p\<lparr>pEpochs := c, pCurEpoch := rEpoch rec\<rparr>, Inr ()))
              else (p, Inr ())) of
          (p1, Inl e) \<Rightarrow> (p1, Inl e)
        | (p1, Inr _) \<Rightarrow>
            (case encode rec of
               Inl e \<Rightarrow> (p1, Inl e)
             | Inr encoded \<Rightarrow>
                 (case write_encoded io encoded (rSeq rec) p1 of
                    (p2, Inl e) \<Rightarrow> (p2, Inl e)
                  | (p2, Inr _) \<Rightarrow> finish_append io 1 (int (length encoded)) () p2)))"

fun AppendReplicatedBatch ::
  "io \<Rightarrow> stream_record list \<Rightarrow> partition \<Rightarrow> partition \<times> nat \<times> stream_error option" where
  "AppendReplicatedBatch io [] p = (p, 0, None)"
| "AppendReplicatedBatch io (rec # recs) p =
     (case AppendReplicated io rec p of
        (p1, Inl e) \<Rightarrow> (p1, 0, Some e)
      | (p1, Inr _) \<Rightarrow>
          (case AppendReplicatedBatch io recs p1 of (p2, n, err) \<Rightarrow> (p2, n + 1, err)))"

text \<open>The loop of \<open>AppendBatch\<close>; the byte count moves with every record, the rest at the end.\<close>

fun batch_loop ::
  "io \<Rightarrow> s64 \<Rightarrow> stream_record list \<Rightarrow> u64 list \<Rightarrow> partition \<Rightarrow> partition \<times> (stream_error + u64 list)" where
  "batch_loop io now [] seqs p = (p, Inr seqs)"
| "batch_loop io now (rec # recs) seqs p =
     (if rFlags rec AND FlagEphemeral \<noteq> 0 then (p, Inl ErrEphemeral)
      else
        let seq = pNextSeq p in
        case encode (stamp now p rec) of
          Inl e \<Rightarrow> (p, Inl e)
        | Inr encoded \<Rightarrow>
            (case write_encoded io encoded seq p of
               (p1, Inl e) \<Rightarrow> (p1, Inl e)
             | (p1, Inr _) \<Rightarrow>
                 batch_loop io now recs (seqs @ [seq]) (p1\<lparr>pByteCount := pByteCount p1 + int (length encoded)\<rparr>)))"

definition AppendBatch ::
  "io \<Rightarrow> s64 \<Rightarrow> stream_record list \<Rightarrow> partition \<Rightarrow> partition \<times> (stream_error + u64 list)" where
  "AppendBatch io now recs p =
     (if recs = [] then (p, Inr [])
      else if pClosed p then (p, Inl ErrClosed)
      else if pEnforceLeadership p \<and> \<not> pIsLeader p then (p, Inl ErrNotPartitionLeader)
      else
        case batch_loop io now recs [] p of
          (p1, Inl e) \<Rightarrow> (p1, Inl e)
        | (p1, Inr seqs) \<Rightarrow> finish_append io (length recs) 0 seqs p1)"

subsection \<open>Leadership\<close>

definition BecomeLeader :: "io \<Rightarrow> u32 \<Rightarrow> partition \<Rightarrow> partition \<times> (stream_error + unit)" where
  "BecomeLeader io epoch p =
     (if epoch = UndefinedEpoch then (p, Inl ErrUndefinedEpoch)
      else if pClosed p then (p, Inl ErrClosed)
      else if epoch \<le> pCurEpoch p then (p, Inl (ErrStaleEpoch epoch (pCurEpoch p)))
      else
        case assign io epoch (pNextSeq p) (pEpochs p) of
          (c, Inl e) \<Rightarrow> (p\<lparr>pEpochs := c\<rparr>, Inl e)
        | (c, Inr _) \<Rightarrow> (p\<lparr>pEpochs := c, pCurEpoch := epoch, pIsLeader := True\<rparr>, Inr ()))"

definition ReassertLeadership :: "u32 \<Rightarrow> partition \<Rightarrow> partition \<times> (stream_error + unit)" where
  "ReassertLeadership epoch p =
     (if pClosed p then (p, Inl ErrClosed)
      else if epoch \<noteq> pCurEpoch p then (p, Inl (ErrStaleEpoch epoch (pCurEpoch p)))
      else (p\<lparr>pIsLeader := True\<rparr>, Inr ()))"

definition Resign :: "partition \<Rightarrow> partition" where
  "Resign p = p\<lparr>pIsLeader := False\<rparr>"

definition IsLeader :: "partition \<Rightarrow> bool" where
  "IsLeader p \<longleftrightarrow> \<not> pEnforceLeadership p \<or> pIsLeader p"

definition EnforceLeadership :: "bool \<Rightarrow> partition \<Rightarrow> partition" where
  "EnforceLeadership on p = p\<lparr>pEnforceLeadership := on\<rparr>"

definition LeaderEpoch :: "partition \<Rightarrow> u32 \<times> u64" where
  "LeaderEpoch p = latest (pEpochs p)"

definition EndOffsetForEpoch :: "u32 \<Rightarrow> partition \<Rightarrow> u32 \<times> u64" where
  "EndOffsetForEpoch epoch p = endOffsetFor (pEpochs p) epoch (pNextSeq p)"

definition EpochHistory :: "partition \<Rightarrow> epochEntry list" where
  "EpochHistory p = epoch_snapshot (pEpochs p)"

subsection \<open>Truncation and retention\<close>

definition segment_close :: "io \<Rightarrow> segment \<Rightarrow> segment \<times> (stream_error + unit)" where
  "segment_close io s =
     (let s1 = fst (segment_flush io s) in
      if \<not> io ''close segment log'' then (s1, Inl (ErrIO ''close segment log'')) else (s1, Inr ()))"

definition segment_remove :: "io \<Rightarrow> segment \<Rightarrow> segment \<times> (stream_error + unit)" where
  "segment_remove io s =
     (case segment_close io s of
        (s1, Inl e) \<Rightarrow> (s1, Inl e)
      | (s1, Inr _) \<Rightarrow>
          if \<not> io ''remove segment log'' then (s1, Inl (ErrIO ''remove segment log''))
          else if \<not> io ''remove segment index'' then (s1, Inl (ErrIO ''remove segment index''))
          else (s1, Inr ()))"

text \<open>
  The loop of \<open>TruncateTo\<close> over the segments from the newest on; the list is reversed and the
  oldest segment always stays.
\<close>

fun drop_segments :: "io \<Rightarrow> u64 \<Rightarrow> segment list \<Rightarrow> int \<Rightarrow> segment list \<times> int \<times> (stream_error + unit)" where
  "drop_segments io seq [] bc = ([], bc, Inr ())"
| "drop_segments io seq [s] bc = ([s], bc, Inr ())"
| "drop_segments io seq (s # s' # ss) bc =
     (if sgBase s < seq then (s # s' # ss, bc, Inr ())
      else
        case segment_remove io s of
          (s1, Inl e) \<Rightarrow> (s1 # s' # ss, bc - segment_bytes s, Inl e)
        | (s1, Inr _) \<Rightarrow> drop_segments io seq (s' # ss) (bc - segment_bytes s))"

definition TruncateTo :: "io \<Rightarrow> u64 \<Rightarrow> partition \<Rightarrow> partition \<times> (stream_error + u64)" where
  "TruncateTo io seq p =
     (if pClosed p then (p, Inl ErrClosed)
      else if seq \<ge> pNextSeq p then (p, Inr 0)
      else if seq \<le> pFirstSeq p then (p, Inl (ErrRefuseTruncate seq (pFirstSeq p)))
      else
        let removed = pNextSeq p - seq in
        case drop_segments io seq (rev (pSegments p)) (pByteCount p) of
          (segs, bc, r) \<Rightarrow>
            let p1 = p\<lparr>pSegments := rev segs, pByteCount := bc\<rparr> in
            (case r of
               Inl e \<Rightarrow> (p1, Inl e)
             | Inr _ \<Rightarrow>
                 (case reopenWritable io (active p1) of
                    (s1, Inl e) \<Rightarrow> (set_active s1 p1, Inl e)
                  | (s1, Inr _) \<Rightarrow>
                      (case segment_truncateTo io seq s1 of
                         (s2, Inl e) \<Rightarrow> (set_active s2 p1, Inl e)
                       | (s2, Inr _) \<Rightarrow>
                           let p2 = (set_active s2 p1)\<lparr>pByteCount := bc + (segment_bytes s2 - segment_bytes s1),
                                                       pNextSeq := seq\<rparr> in
                           (case truncateFromSeq io seq (pEpochs p2) of
                              (c, Inl e) \<Rightarrow> (p2\<lparr>pEpochs := c\<rparr>, Inl e)
                            | (c, Inr _) \<Rightarrow>
                                (broadcast (p2\<lparr>pEpochs := c, pCurEpoch := fst (latest c)\<rparr>), Inr removed))))))"

function retention_loop :: "io \<Rightarrow> s64 \<Rightarrow> partition \<Rightarrow> nat \<Rightarrow> partition \<times> nat \<times> stream_error option" where
  "retention_loop io cutoff p removed =
     (if pClosed p \<or> length (pSegments p) \<le> 1 then (p, removed, None)
      else
        let oldest = hd (pSegments p);
            bySize = cRetentionBytes (pCfg p) > 0 \<and> pByteCount p > cRetentionBytes (pCfg p);
            (nxt, ts) = firstTimestamp io (pSegments p ! 1);
            byAge = \<not> bySize \<and> 0 <s cutoff \<and> 0 <s ts \<and> ts <s cutoff;
            p0 = (if \<not> bySize \<and> 0 <s cutoff then p\<lparr>pSegments := (pSegments p)[1 := nxt]\<rparr> else p)
        in
        if \<not> bySize \<and> \<not> byAge then (p0, removed, None)
        else
          let p1 = p0\<lparr>pSegments := tl (pSegments p0)\<rparr>;
              p2 = p1\<lparr>pFirstSeq := sgBase (hd (pSegments p1))\<rparr>
          in
          case truncateBeforeSeq io (pFirstSeq p2) (pEpochs p2) of
            (c, Inl e) \<Rightarrow> (p2\<lparr>pEpochs := c\<rparr>, removed, Some e)
          | (c, Inr _) \<Rightarrow>
              (case segment_remove io oldest of
                 (_, Inl e) \<Rightarrow> (p2\<lparr>pEpochs := c\<rparr>, removed, Some e)
               | (_, Inr _) \<Rightarrow>
                   retention_loop io cutoff
                     (p2\<lparr>pEpochs := c, pByteCount := pByteCount p2 - segment_bytes oldest\<rparr>) (removed + 1)))"
  by pat_completeness auto
termination
  by (relation "measure (\<lambda>(io, c, p, n). length (pSegments p))") (auto split: if_splits)

declare retention_loop.simps [simp del]

definition EnforceRetention :: "io \<Rightarrow> s64 \<Rightarrow> partition \<Rightarrow> partition \<times> nat \<times> stream_error option" where
  "EnforceRetention io now p =
     (if cRetentionBytes (pCfg p) \<le> 0 \<and> cRetentionAge (pCfg p) \<le> 0 then (p, 0, None)
      else
        let cutoff = (if cRetentionAge (pCfg p) > 0 then now - of_int (cRetentionAge (pCfg p)) else 0) in
        retention_loop io cutoff p 0)"

subsection \<open>Reading\<close>

fun read_segments ::
  "io \<Rightarrow> int \<Rightarrow> int \<Rightarrow> u64 \<Rightarrow> segment list \<Rightarrow> stream_record list \<Rightarrow> int \<Rightarrow>
   segment list \<times> stream_record list \<times> stream_error option" where
  "read_segments io maxRecords maxBytes fromSeq [] out bytesRead = ([], out, None)"
| "read_segments io maxRecords maxBytes fromSeq (seg # segs) out bytesRead =
     (if segs \<noteq> [] \<and> lastSequence seg < fromSeq then
        (case read_segments io maxRecords maxBytes fromSeq segs out bytesRead of (segs', res) \<Rightarrow> (seg # segs', res))
      else if maxRecords - int (length out) \<le> 0 then (seg # segs, out, None)
      else if maxBytes > 0 \<and> maxBytes - bytesRead \<le> 0 then (seg # segs, out, None)
      else
        case segment_read io fromSeq (maxRecords - int (length out)) (if maxBytes > 0 then maxBytes - bytesRead else 0) seg of
          (seg', recs, Some e) \<Rightarrow> (seg' # segs, out, Some e)
        | (seg', recs, None) \<Rightarrow>
            (case read_segments io maxRecords maxBytes
                    (if recs \<noteq> [] then rSeq (last recs) + 1 else fromSeq) segs (out @ recs)
                    (bytesRead + int (sum_list (map encodedSize recs))) of
               (segs', res) \<Rightarrow> (seg' # segs', res)))"

definition Read :: "io \<Rightarrow> u64 \<Rightarrow> int \<Rightarrow> int \<Rightarrow> partition \<Rightarrow> partition \<times> stream_record list \<times> stream_error option" where
  "Read io fromSeq0 maxRecords0 maxBytes p =
     (let maxRecords = (if maxRecords0 \<le> 0 then 100 else maxRecords0) in
      if pClosed p then (p, [], Some ErrClosed)
      else
        let fromSeq = (if fromSeq0 = 0 then pFirstSeq p else fromSeq0) in
        if fromSeq < pFirstSeq p then (p, [], Some (ErrSeqTruncated fromSeq (pFirstSeq p)))
        else
          case read_segments io maxRecords maxBytes fromSeq (pSegments p) [] 0 of
            (segs, res) \<Rightarrow> (p\<lparr>pSegments := segs\<rparr>, res))"

definition ReadFrom :: "io \<Rightarrow> u64 \<Rightarrow> int \<Rightarrow> partition \<Rightarrow> partition \<times> stream_record list \<times> stream_error option" where
  "ReadFrom io fromSeq maxRecords p = Read io fromSeq maxRecords 4194304 p"

definition NextSeq :: "partition \<Rightarrow> u64" where "NextSeq p = pNextSeq p"
definition FirstSeq :: "partition \<Rightarrow> u64" where "FirstSeq p = pFirstSeq p"

definition Sync :: "io \<Rightarrow> partition \<Rightarrow> partition \<times> (stream_error + unit)" where
  "Sync io p = (if pClosed p \<or> pSegments p = [] then (p, Inr ()) else sync_active io p)"

fun first_close_error :: "io \<Rightarrow> segment list \<Rightarrow> stream_error option" where
  "first_close_error io [] = None"
| "first_close_error io (s # ss) =
     (case snd (segment_close io s) of Inl e \<Rightarrow> Some e | Inr _ \<Rightarrow> first_close_error io ss)"

definition Close :: "io \<Rightarrow> partition \<Rightarrow> partition \<times> stream_error option" where
  "Close io p =
     (if pClosed p then (p, None)
      else (broadcast (p\<lparr>pClosed := True, pSegments := []\<rparr>), first_close_error io (pSegments p)))"


subsection \<open>The log of a partition\<close>

text \<open>
  \<open>chain b segs rss\<close>: the segments hold the record lists \<open>rss\<close>, each based where the one before
  it ends. The log of a partition is their concatenation.
\<close>

fun chain :: "u64 \<Rightarrow> segment list \<Rightarrow> stream_record list list \<Rightarrow> bool" where
  "chain b [] [] \<longleftrightarrow> True"
| "chain b (s # ss) (rs # rss) \<longleftrightarrow> sgBase s = b \<and> seg_rep s rs \<and> chain (b + of_nat (length rs)) ss rss"
| "chain b _ _ \<longleftrightarrow> False"

lemma chain_append:
  "length ss = length rss \<Longrightarrow>
     chain b (ss @ ss') (rss @ rss') \<longleftrightarrow> chain b ss rss \<and> chain (b + of_nat (length (concat rss))) ss' rss'"
  by (induction b ss rss rule: chain.induct) (simp_all add: algebra_simps)

lemma chain_length: "chain b ss rss \<Longrightarrow> length ss = length rss"
  by (induction b ss rss rule: chain.induct) simp_all

definition seg_usable :: "segment \<Rightarrow> bool" where
  "seg_usable s \<longleftrightarrow> (if sgReadOnly s then sgWriter s = None else seg_writable s)"

lemma seg_usable_writable: "seg_writable s \<Longrightarrow> seg_usable s"
  by (simp add: seg_usable_def seg_writable_def)

definition part_rep :: "partition \<Rightarrow> stream_record list list \<Rightarrow> bool" where
  "part_rep p rss \<longleftrightarrow>
     rss \<noteq> [] \<and> chain (pFirstSeq p) (pSegments p) rss \<and> (\<forall>rs \<in> set (butlast rss). rs \<noteq> []) \<and>
     pFirstSeq p \<noteq> 0 \<and> unat (pFirstSeq p) + length (concat rss) < 2 ^ 64 \<and>
     pNextSeq p = pFirstSeq p + of_nat (length (concat rss)) \<and>
     list_all seg_usable (pSegments p) \<and> seg_writable (active p) \<and> pByteCount p = int (length (frames (concat rss))) \<and> \<not> pClosed p"

lemma chain_seg_rep: "chain b ss rss \<Longrightarrow> i < length ss \<Longrightarrow> seg_rep (ss ! i) (rss ! i)"
proof (induction b ss rss arbitrary: i rule: chain.induct)
  case (2 b s ss rs rss)
  then show ?case by (cases i) simp_all
qed simp_all

text \<open>A partition is its sealed segments and the active one.\<close>

lemma part_rep_split:
  assumes "part_rep p rss"
  obtains ss s rss0 rs where "pSegments p = ss @ [s]" and "rss = rss0 @ [rs]" and "active p = s"
    and "chain (pFirstSeq p) ss rss0" and "sgBase s = pFirstSeq p + of_nat (length (concat rss0))"
    and "seg_rep s rs" and "seg_writable s" and "\<forall>r \<in> set rss0. r \<noteq> []"
    and "pNextSeq p = sgBase s + of_nat (length rs)" and "list_all seg_usable ss"
proof -
  have ch: "chain (pFirstSeq p) (pSegments p) rss" and "rss \<noteq> []" and ne: "\<forall>rs \<in> set (butlast rss). rs \<noteq> []"
    using assms by (auto simp: part_rep_def)
  moreover from this have "pSegments p \<noteq> []" using chain_length by fastforce
  ultimately obtain ss s rss0 rs where *: "pSegments p = ss @ [s]" "rss = rss0 @ [rs]"
    by (metis rev_exhaust)
  have len: "length ss = length rss0" using chain_length [OF ch] * by simp
  show thesis
    using assms ch ne that [OF *] unfolding * chain_append [OF len]
    by (simp add: active_def * part_rep_def algebra_simps)
qed

lemma part_rep_intro:
  assumes "pSegments p = ss @ [s]" and "chain (pFirstSeq p) ss rss0" and "list_all seg_usable ss"
    and "sgBase s = pFirstSeq p + of_nat (length (concat rss0))" and "seg_rep s rs" and "seg_writable s"
    and "\<forall>r \<in> set rss0. r \<noteq> []" and "pFirstSeq p \<noteq> 0"
    and "unat (pFirstSeq p) + length (concat (rss0 @ [rs])) < 2 ^ 64"
    and "pNextSeq p = pFirstSeq p + of_nat (length (concat (rss0 @ [rs])))"
    and "pByteCount p = int (length (frames (concat (rss0 @ [rs]))))" and "\<not> pClosed p"
  shows "part_rep p (rss0 @ [rs])"
  using assms chain_append [OF chain_length [OF assms(2)], of "pFirstSeq p" "[s]" "[rs]"]
  by (simp add: part_rep_def active_def seg_usable_writable)

subsection \<open>Writing a record\<close>

lemma isEmpty_rep:
  assumes "seg_rep s rs"
  shows "isEmpty s \<longleftrightarrow> rs = []"
proof (cases "rs = []")
  case True
  then have "sgLastSeq s = sgBase s - 1" "sgBase s \<noteq> 0" using assms by (auto simp: seg_rep_def numbered_def)
  then show ?thesis using True by (simp add: isEmpty_def word_pred_less)
next
  case False
  then have "sgLastSeq s = sgBase s + of_nat (length rs - 1)"
    using assms by (simp add: seg_rep_def of_nat_diff Suc_leI)
  moreover have "numbered (sgBase s) rs" using assms by (simp add: seg_rep_def)
  ultimately have "sgBase s + of_nat 0 \<le> sgLastSeq s"
    using numbered_le_iff [of "sgBase s" rs 0 "length rs - 1"] by simp
  then show ?thesis using False by (simp add: isEmpty_def not_less)
qed


lemma seg_bounds: "seg_rep s rs \<Longrightarrow> sgBase s \<noteq> 0 \<and> unat (sgBase s) + length rs < 2 ^ 64"
  by (simp add: seg_rep_def numbered_def)

lemma segment_sync_rep:
  assumes "seg_rep s rs"
  shows "\<exists>s'. segment_sync io_ok s = (s', Inr ()) \<and> seg_rep s' rs \<and> sgBase s' = sgBase s \<and>
    (seg_writable s \<longrightarrow> seg_writable s')"
  using segment_flush_rep [of s rs io_ok, OF assms] by (auto simp: segment_sync_def seg_writable_def)

lemma rollLocked_rep:
  assumes "part_rep p rss" and "last rss \<noteq> []"
  shows "\<exists>ss. rollLocked io_ok (pNextSeq p) p = (p\<lparr>pSegments := ss\<rparr>, Inr ()) \<and>
    part_rep (p\<lparr>pSegments := ss\<rparr>) (rss @ [[]])"
proof -
  obtain ss s rss0 rs where p: "pSegments p = ss @ [s]" "rss = rss0 @ [rs]" "active p = s"
    "chain (pFirstSeq p) ss rss0" "sgBase s = pFirstSeq p + of_nat (length (concat rss0))"
    "seg_rep s rs" "seg_writable s" "\<forall>r \<in> set rss0. r \<noteq> []" "pNextSeq p = sgBase s + of_nat (length rs)" "list_all seg_usable ss"
    by (rule part_rep_split [OF assms(1)])
  obtain s1 where s1: "segment_flush io_ok s = (s1, Inr ())" "seg_rep s1 rs" "sgBase s1 = sgBase s" "seg_writable s1"
    using segment_flush_rep [of s rs io_ok, OF p(6)] p(7) by (auto simp: seg_writable_def)
  obtain s2 where s2: "segment_sync io_ok s1 = (s2, Inr ())" "seg_rep s2 rs" "sgBase s2 = sgBase s" "seg_writable s2"
    using segment_sync_rep [OF s1(2)] s1(3,4) by auto
  have "pNextSeq p \<noteq> 0"
    using numbered_unat [of "sgBase s" rs "length rs"] p(6,9) seg_bounds [OF p(6)]
    by (auto simp: seg_rep_def unat_eq_zero dest!: arg_cong [where f = unat])
  then obtain t where t: "createSegment io_ok (pNextSeq p) (cIndexInterval (pCfg p)) ([], []) = Inr t"
    "seg_rep t []" "sgBase t = pNextSeq p" "seg_writable t"
    using createSegment_rep [of "pNextSeq p" "cIndexInterval (pCfg p)"] by blast
  have roll: "rollLocked io_ok (pNextSeq p) p = (p\<lparr>pSegments := (ss @ [s2]) @ [t]\<rparr>, Inr ())"
    by (simp add: rollLocked_def p(1,3) s1(1) s2(1) t(1) set_active_def)
  have "chain (pFirstSeq p) (ss @ [s2]) (rss0 @ [rs])"
    using chain_append [OF chain_length [OF p(4)], of "pFirstSeq p" "[s2]" "[rs]"] p(4,5) s2 by simp
  then have "part_rep (p\<lparr>pSegments := (ss @ [s2]) @ [t]\<rparr>) ((rss0 @ [rs]) @ [[]])"
    using assms p(2,8,10) s2(4) t by (intro part_rep_intro [where s = t and ss = "ss @ [s2]"]) (auto simp: part_rep_def seg_usable_writable)
  then show ?thesis using roll p(2) by blast
qed

lemma write_active_rep:
  assumes rep: "part_rep p rss" and enc: "encode r = Inr f" and fit: "headers_fit (rHeaders r)"
    and seq: "rSeq r = pNextSeq p" and room: "unat (pFirstSeq p) + Suc (length (concat rss)) < 2 ^ 64"
  shows "\<exists>s'. segment_append io_ok f (rSeq r) (active p) = (s', Inr ()) \<and>
    (\<exists>rss'. concat rss' = concat rss @ [normalised r] \<and>
      part_rep ((set_active s' p)\<lparr>pNextSeq := rSeq r + 1, pByteCount := pByteCount p + int (length f)\<rparr>) rss')"
proof -
  obtain ss s rss0 rs where p: "pSegments p = ss @ [s]" "rss = rss0 @ [rs]" "active p = s"
    "chain (pFirstSeq p) ss rss0" "sgBase s = pFirstSeq p + of_nat (length (concat rss0))"
    "seg_rep s rs" "seg_writable s" "\<forall>r \<in> set rss0. r \<noteq> []" "pNextSeq p = sgBase s + of_nat (length rs)" "list_all seg_usable ss"
    by (rule part_rep_split [OF rep])
  have base: "unat (sgBase s) = unat (pFirstSeq p) + length (concat rss0)"
    using room p(2,5) by (simp add: unat_word_ariths unat_of_nat take_bit_nat_def)
  obtain s' where s': "segment_append io_ok f (rSeq r) s = (s', Inr ())" "seg_rep s' (rs @ [normalised r])"
    "sgBase s' = sgBase s" "seg_writable s'"
    using segment_append_rep [OF p(6,7) enc fit, of io_ok] seq p(2,9) base room by auto
  let ?p = "(set_active s' p)\<lparr>pNextSeq := rSeq r + 1, pByteCount := pByteCount p + int (length f)\<rparr>"
  have "f = frame_of (encodeBody r)" using enc by (simp add: encode_Inr_iff)
  then have "part_rep ?p (rss0 @ [rs @ [normalised r]])"
    using rep room p s' seq
    by (intro part_rep_intro [where s = s' and ss = ss]) (auto simp: part_rep_def set_active_def)
  then show ?thesis using s'(1) p(2,3) by (intro exI conjI) auto
qed

lemma active_rep: "part_rep p rss \<Longrightarrow> seg_rep (active p) (last rss)"
  by (erule part_rep_split) simp

lemma write_encoded_rep:
  assumes rep: "part_rep p rss" and enc: "encode r = Inr f" and fit: "headers_fit (rHeaders r)"
    and seq: "rSeq r = pNextSeq p" and room: "unat (pFirstSeq p) + Suc (length (concat rss)) < 2 ^ 64"
  shows "\<exists>ss rss'. write_encoded io_ok f (rSeq r) p = (p\<lparr>pSegments := ss, pNextSeq := rSeq r + 1\<rparr>, Inr ()) \<and>
    concat rss' = concat rss @ [normalised r] \<and>
    part_rep (p\<lparr>pSegments := ss, pNextSeq := rSeq r + 1, pByteCount := pByteCount p + int (length f)\<rparr>) rss'"
proof -
  have "\<exists>ss1 rss1. (if segment_bytes (active p) + int (length f) > cSegmentBytes (pCfg p) \<and> \<not> isEmpty (active p)
            then rollLocked io_ok (rSeq r) p else (p, Inr ())) = (p\<lparr>pSegments := ss1\<rparr>, Inr ()) \<and>
     part_rep (p\<lparr>pSegments := ss1\<rparr>) rss1 \<and> concat rss1 = concat rss"
  proof (cases "segment_bytes (active p) + int (length f) > cSegmentBytes (pCfg p) \<and> \<not> isEmpty (active p)")
    case True
    moreover have "last rss \<noteq> []"
      using True isEmpty_rep [OF active_rep [OF rep]] by blast
    ultimately show ?thesis
      using rollLocked_rep [OF rep] seq by (metis concat_append concat.simps append_Nil2)
  next
    case False
    then show ?thesis using rep by (intro exI [of _ "pSegments p"] exI [of _ rss]) (simp only: if_not_P, simp)
  qed
  then obtain ss1 rss1 where p1: "(if segment_bytes (active p) + int (length f) > cSegmentBytes (pCfg p) \<and> \<not> isEmpty (active p)
            then rollLocked io_ok (rSeq r) p else (p, Inr ())) = (p\<lparr>pSegments := ss1\<rparr>, Inr ())"
    "part_rep (p\<lparr>pSegments := ss1\<rparr>) rss1" "concat rss1 = concat rss"
    by blast
  obtain s' rss' where s': "segment_append io_ok f (rSeq r) (active (p\<lparr>pSegments := ss1\<rparr>)) = (s', Inr ())"
    "concat rss' = concat rss1 @ [normalised r]"
    "part_rep ((set_active s' (p\<lparr>pSegments := ss1\<rparr>))\<lparr>pNextSeq := rSeq r + 1, pByteCount := pByteCount p + int (length f)\<rparr>) rss'"
    using write_active_rep [OF p1(2) enc fit] seq room p1(3) by auto
  show ?thesis
    unfolding write_encoded_def p1(1)
    using s' p1(3) by (intro exI [of _ "butlast ss1 @ [s']"] exI [of _ rss']) (simp add: set_active_def)
qed


text \<open>
  The whole contract of a partition: its segments hold the log \<open>rs\<close>, and the epoch history places
  every record of it under the term the record carries.
\<close>

definition epoch_rep :: "partition \<Rightarrow> stream_record list \<Rightarrow> bool" where
  "epoch_rep p rs \<longleftrightarrow> cache_ordered (pEpochs p) \<and> pCurEpoch p = fst (latest (pEpochs p)) \<and>
     (\<forall>e \<in> set (ecEntries (pEpochs p)). eStartSeq e \<le> pNextSeq p) \<and>
     (\<forall>r \<in> set rs. rEpoch r = epochForSeq (pEpochs p) (rSeq r))"

definition part_ok :: "partition \<Rightarrow> stream_record list \<Rightarrow> bool" where
  "part_ok p rs \<longleftrightarrow> (\<exists>rss. part_rep p rss \<and> concat rss = rs) \<and> epoch_rep p rs"

lemma set_active_ext [simp]:
  "pNextSeq (set_active s p) = pNextSeq p" "pFirstSeq (set_active s p) = pFirstSeq p"
  "pClosed (set_active s p) = pClosed p" "pEpochs (set_active s p) = pEpochs p"
  "pCurEpoch (set_active s p) = pCurEpoch p" "pByteCount (set_active s p) = pByteCount p"
  "pCfg (set_active s p) = pCfg p"
  by (simp_all add: set_active_def)

lemma set_active_rep:
  assumes "part_rep p rss" and "seg_rep s (last rss)" and "sgBase s = sgBase (active p)" and "seg_writable s"
  shows "part_rep (set_active s p) rss"
proof -
  obtain ss s0 rss0 rs where p: "pSegments p = ss @ [s0]" "rss = rss0 @ [rs]" "active p = s0"
    "chain (pFirstSeq p) ss rss0" "sgBase s0 = pFirstSeq p + of_nat (length (concat rss0))"
    "seg_rep s0 rs" "seg_writable s0" "\<forall>r \<in> set rss0. r \<noteq> []" "pNextSeq p = sgBase s0 + of_nat (length rs)" "list_all seg_usable ss"
    by (rule part_rep_split [OF assms(1)])
  show ?thesis
    unfolding p(2) using assms p
    by (intro part_rep_intro [where s = s and ss = ss]) (auto simp: part_rep_def set_active_def)
qed

lemma part_rep_broadcasts [simp]:
  "part_rep (p\<lparr>pBroadcasts := n\<rparr>) rss = part_rep p rss" "part_rep (p\<lparr>pAppendCount := c\<rparr>) rss = part_rep p rss"
  "part_rep (p\<lparr>pEpochs := e\<rparr>) rss = part_rep p rss" "part_rep (p\<lparr>pCurEpoch := x\<rparr>) rss = part_rep p rss"
  "part_rep (p\<lparr>pIsLeader := b\<rparr>) rss = part_rep p rss" "part_rep (p\<lparr>pEnforceLeadership := b\<rparr>) rss = part_rep p rss"
  by (simp_all add: part_rep_def active_def)

lemma epoch_rep_cong:
  "pEpochs p = pEpochs q \<Longrightarrow> pCurEpoch p = pCurEpoch q \<Longrightarrow> pNextSeq p = pNextSeq q \<Longrightarrow> epoch_rep p rs = epoch_rep q rs"
  by (simp add: epoch_rep_def)

lemma sync_active_ok:
  assumes "part_ok p rs"
  shows "\<exists>p'. sync_active io_ok p = (p', Inr ()) \<and> part_ok p' rs \<and> pNextSeq p' = pNextSeq p"
proof -
  obtain rss where rss: "part_rep p rss" "concat rss = rs" using assms by (auto simp: part_ok_def)
  have "seg_writable (active p)" using rss(1) by (simp add: part_rep_def)
  then obtain s where s: "segment_sync io_ok (active p) = (s, Inr ())" "seg_rep s (last rss)"
    "sgBase s = sgBase (active p)" "seg_writable s"
    using segment_sync_rep [OF active_rep [OF rss(1)]] by auto
  have "epoch_rep (set_active s p) rs = epoch_rep p rs" by (rule epoch_rep_cong) simp_all
  then show ?thesis
    using assms rss(2) set_active_rep [OF rss(1) s(2-4)] by (auto simp: sync_active_def s(1) part_ok_def)
qed

lemma part_ok_broadcast [simp]: "part_ok (broadcast p) rs = part_ok p rs"
  by (simp add: part_ok_def broadcast_def epoch_rep_def)

lemma finish_append_ok:
  assumes "part_ok (p\<lparr>pByteCount := pByteCount p + b\<rparr>) rs"
  shows "\<exists>p'. finish_append io_ok n b x p = (p', Inr x) \<and> part_ok p' rs \<and> pNextSeq p' = pNextSeq p"
proof -
  have ok: "part_ok (count_append n b p) rs"
    using assms by (simp add: part_ok_def count_append_def epoch_rep_def part_rep_def active_def)
  obtain q where q: "sync_active io_ok (count_append n b p) = (q, Inr ())" "part_ok q rs"
    "pNextSeq q = pNextSeq (count_append n b p)"
    using sync_active_ok [OF ok] by auto
  show ?thesis
    using ok q by (auto simp: finish_append_def Let_def broadcast_def count_append_def part_ok_def epoch_rep_def)
qed


lemma latest_last: "ecEntries c \<noteq> [] \<Longrightarrow> latest c = (eEpoch (last (ecEntries c)), eStartSeq (last (ecEntries c)))"
  by (simp add: latest_def)

lemma epochForSeq_head:
  assumes "cache_ordered c" and "\<forall>e \<in> set (ecEntries c). eStartSeq e \<le> s"
  shows "epochForSeq c s = fst (latest c)"
proof -
  have tw: "takeWhile (\<lambda>e. eStartSeq e \<le> s) (ecEntries c) = ecEntries c"
    using assms(2) by (simp add: takeWhile_eq_all_conv)
  show ?thesis
    unfolding epochForSeq_takeWhile [OF assms(1)] tw by (simp add: Let_def latest_def last_conv_nth)
qed

lemma next_le_Suc:
  assumes "part_rep p rss" and "unat (pFirstSeq p) + Suc (length (concat rss)) < 2 ^ 64"
  shows "unat (pNextSeq p) = unat (pFirstSeq p) + length (concat rss)"
    and "unat (pNextSeq p + 1) = Suc (unat (pNextSeq p))" and "pNextSeq p \<noteq> 0" and "pNextSeq p \<le> pNextSeq p + 1"
proof -
  show u: "unat (pNextSeq p) = unat (pFirstSeq p) + length (concat rss)"
    using assms by (simp add: part_rep_def unat_word_ariths unat_of_nat take_bit_nat_def)
  then show v: "unat (pNextSeq p + 1) = Suc (unat (pNextSeq p))"
    using assms(2) by (simp add: unat_word_ariths)
  have "unat (pFirstSeq p) \<noteq> 0" using assms(1) by (simp add: part_rep_def unat_eq_zero)
  then show "pNextSeq p \<noteq> 0" using u by (metis add_is_0 unat_0)
  show "pNextSeq p \<le> pNextSeq p + 1" using v by (simp add: word_le_nat_alt)
qed

text \<open>Room for one more record: the sequence space is not exhausted.\<close>

definition room_for :: "nat \<Rightarrow> partition \<Rightarrow> bool" where
  "room_for n p \<longleftrightarrow> unat (pNextSeq p) + n < 2 ^ 64"

lemma room_rss: "part_rep p rss \<Longrightarrow> room_for n p \<Longrightarrow> unat (pFirstSeq p) + (length (concat rss) + n) < 2 ^ 64"
  by (simp add: room_for_def part_rep_def unat_word_ariths unat_of_nat take_bit_nat_def)

lemma write_ok:
  assumes ok: "part_ok p rs" and enc: "encode r = Inr f" and fit: "headers_fit (rHeaders r)"
    and seq: "rSeq r = pNextSeq p" and room: "room_for 1 p" and epoch: "rEpoch r = pCurEpoch p"
  shows "\<exists>ss. write_encoded io_ok f (rSeq r) p = (p\<lparr>pSegments := ss, pNextSeq := rSeq r + 1\<rparr>, Inr ()) \<and>
    part_ok (p\<lparr>pSegments := ss, pNextSeq := rSeq r + 1, pByteCount := pByteCount p + int (length f)\<rparr>) (rs @ [normalised r])"
proof -
  obtain rss where rss: "part_rep p rss" "concat rss = rs" and ep: "epoch_rep p rs" using ok by (auto simp: part_ok_def)
  have room': "unat (pFirstSeq p) + Suc (length (concat rss)) < 2 ^ 64" using room_rss [OF rss(1) room] by simp
  obtain ss rss' where w: "write_encoded io_ok f (rSeq r) p = (p\<lparr>pSegments := ss, pNextSeq := rSeq r + 1\<rparr>, Inr ())"
    "concat rss' = concat rss @ [normalised r]"
    "part_rep (p\<lparr>pSegments := ss, pNextSeq := rSeq r + 1, pByteCount := pByteCount p + int (length f)\<rparr>) rss'"
    using write_encoded_rep [OF rss(1) enc fit seq room'] by blast
  have "epochForSeq (pEpochs p) (pNextSeq p) = pCurEpoch p"
    using ep epochForSeq_head [of "pEpochs p" "pNextSeq p"] by (simp add: epoch_rep_def)
  moreover have "eStartSeq e \<le> pNextSeq p + 1" if "e \<in> set (ecEntries (pEpochs p))" for e
    using ep that next_le_Suc(4) [OF rss(1) room'] by (auto simp: epoch_rep_def)
  ultimately have "epoch_rep (p\<lparr>pSegments := ss, pNextSeq := rSeq r + 1, pByteCount := pByteCount p + int (length f)\<rparr>)
      (rs @ [normalised r])"
    using ep epoch seq by (simp add: epoch_rep_def)
  then show ?thesis using w rss(2) by (auto simp: part_ok_def)
qed

lemma stamp_fields [simp]:
  "rSeq (stamp now p r) = pNextSeq p" "rEpoch (stamp now p r) = pCurEpoch p" "rHeaders (stamp now p r) = rHeaders r"
  "rKey (stamp now p r) = rKey r" "rPayload (stamp now p r) = rPayload r" "rFlags (stamp now p r) = rFlags r"
  by (simp_all add: stamp_def Let_def)

lemma Append_ok:
  assumes ok: "part_ok p rs" and room: "room_for 1 p" and fit: "headers_fit (rHeaders rec)"
    and enc: "encode (stamp now p rec) = Inr f" and fl: "rFlags rec AND FlagEphemeral = 0" and ldr: "IsLeader p"
  shows "\<exists>p'. Append io_ok now rec p = (p', Inr (pNextSeq p)) \<and>
    part_ok p' (rs @ [normalised (stamp now p rec)]) \<and> pNextSeq p' = pNextSeq p + 1"
proof -
  obtain ss where ss: "write_encoded io_ok f (pNextSeq p) p = (p\<lparr>pSegments := ss, pNextSeq := pNextSeq p + 1\<rparr>, Inr ())"
    "part_ok (p\<lparr>pSegments := ss, pNextSeq := pNextSeq p + 1, pByteCount := pByteCount p + int (length f)\<rparr>)
      (rs @ [normalised (stamp now p rec)])"
    using write_ok [OF ok enc _ _ room] fit by auto
  have "\<not> pClosed p" using ok by (auto simp: part_ok_def part_rep_def)
  then show ?thesis
    using finish_append_ok [of "p\<lparr>pSegments := ss, pNextSeq := pNextSeq p + 1\<rparr>" "int (length f)" _ 1 "pNextSeq p"] ss fl ldr
    by (auto simp: Append_def Let_def enc IsLeader_def)
qed


subsection \<open>Replication and terms\<close>

lemma assign_io_ok:
  assumes "cache_ordered c" and "x \<noteq> UndefinedEpoch" and "fst (latest c) < x" and "\<forall>e \<in> set (ecEntries c). eStartSeq e \<le> s"
  shows "\<exists>d. assign io_ok x s c = (d, Inr ()) \<and> ecEntries d = ecEntries c @ [\<lparr>eEpoch = x, eStartSeq = s\<rparr>]"
proof (cases "ecEntries c = []")
  case True
  then show ?thesis using assms by (simp add: assign_def flushLocked_def)
next
  case False
  then have "eStartSeq (last (ecEntries c)) \<le> s" and "eEpoch (last (ecEntries c)) < x"
    using assms(3,4) by (auto simp: latest_def)
  then show ?thesis using assms(2) False by (simp add: assign_def flushLocked_def Let_def not_le [symmetric])
qed

lemma epochForSeq_new_term:
  assumes "cache_ordered c" and "cache_ordered d" and d: "ecEntries d = ecEntries c @ [\<lparr>eEpoch = x, eStartSeq = s\<rparr>]"
    and "q < s"
  shows "epochForSeq d q = epochForSeq c q"
proof -
  let ?Q = "\<lambda>e. eStartSeq e \<le> q"
  have tw: "takeWhile ?Q (ecEntries d) = takeWhile ?Q (ecEntries c)"
    unfolding d using assms(4) by (simp add: takeWhile_tail)
  have nth: "ecEntries d ! (length (takeWhile ?Q (ecEntries c)) - 1) = ecEntries c ! (length (takeWhile ?Q (ecEntries c)) - 1)"
    if "length (takeWhile ?Q (ecEntries c)) \<noteq> 0"
  proof -
    have "length (takeWhile ?Q (ecEntries c)) - 1 < length (ecEntries c)"
      using that length_takeWhile_le [of ?Q "ecEntries c"] by linarith
    then show ?thesis unfolding d by (simp add: nth_append)
  qed
  show ?thesis
    unfolding epochForSeq_takeWhile [OF assms(1)] epochForSeq_takeWhile [OF assms(2)] tw Let_def
    using nth by presburger
qed

lemma chain_numbered:
  "chain b ss rss \<Longrightarrow> b \<noteq> 0 \<Longrightarrow> unat b + length (concat rss) < 2 ^ 64 \<Longrightarrow> numbered b (concat rss)"
proof (induction b ss rss rule: chain.induct)
  case (2 b s ss rs rss)
  let ?b = "b + of_nat (length rs)"
  have u: "unat ?b = unat b + length rs"
    using "2.prems"(3) by (simp add: unat_word_ariths unat_of_nat take_bit_nat_def)
  have "unat b \<noteq> 0" using "2.prems"(2) by (simp add: unat_eq_zero)
  then have "?b \<noteq> 0" using u by (metis add_is_0 unat_0)
  then have rest: "numbered ?b (concat rss)" using 2 u by simp
  have first: "numbered b rs" using "2.prems"(1) by (auto simp: seg_rep_def)
  have "rSeq ((rs @ concat rss) ! k) = b + of_nat k" if "k < length (rs @ concat rss)" for k
  proof (cases "k < length rs")
    case True
    then show ?thesis using first by (simp add: nth_append numbered_def)
  next
    case False
    then have "rSeq (concat rss ! (k - length rs)) = ?b + of_nat (k - length rs)"
      using rest that by (intro numbered_nth) auto
    then show ?thesis using False by (simp add: nth_append of_nat_diff)
  qed
  then show ?case using "2.prems"(2,3) by (simp add: numbered_def)
qed (simp_all add: numbered_def)

lemma part_rep_numbered: "part_rep p rss \<Longrightarrow> numbered (pFirstSeq p) (concat rss)"
  using chain_numbered [of "pFirstSeq p" "pSegments p" rss] by (simp add: part_rep_def)

lemma part_ok_numbered: "part_ok p rs \<Longrightarrow> numbered (pFirstSeq p) rs \<and> pNextSeq p = pFirstSeq p + of_nat (length rs)"
  by (auto simp: part_ok_def dest: part_rep_numbered) (simp add: part_rep_def)

lemma part_ok_below_next:
  assumes "part_ok p rs" and "r \<in> set rs"
  shows "rSeq r < pNextSeq p"
proof -
  obtain k where "k < length rs" "r = rs ! k" using assms(2) by (auto simp: in_set_conv_nth)
  then show ?thesis
    using part_ok_numbered [OF assms(1)] numbered_less_iff [of "pFirstSeq p" rs k "length rs"]
      numbered_nth [of "pFirstSeq p" rs k] by simp
qed

lemma new_term_ok:
  assumes ok: "part_ok p rs" and x: "pCurEpoch p < x"
  shows "\<exists>c. assign io_ok x (pNextSeq p) (pEpochs p) = (c, Inr ()) \<and> part_ok (p\<lparr>pEpochs := c, pCurEpoch := x\<rparr>) rs"
proof -
  have ep: "cache_ordered (pEpochs p)" "pCurEpoch p = fst (latest (pEpochs p))"
    "\<forall>e \<in> set (ecEntries (pEpochs p)). eStartSeq e \<le> pNextSeq p"
    "\<forall>r \<in> set rs. rEpoch r = epochForSeq (pEpochs p) (rSeq r)"
    using ok by (auto simp: part_ok_def epoch_rep_def)
  have "x \<noteq> UndefinedEpoch" using x by (auto simp: UndefinedEpoch_def)
  then obtain c where c: "assign io_ok x (pNextSeq p) (pEpochs p) = (c, Inr ())"
    "ecEntries c = ecEntries (pEpochs p) @ [\<lparr>eEpoch = x, eStartSeq = pNextSeq p\<rparr>]"
    using assign_io_ok [OF ep(1) _ _ ep(3), of x] x ep(2) by auto
  have ord: "cache_ordered c" using assign_ordered [OF ep(1), of io_ok x "pNextSeq p"] c(1) by simp
  have "epochForSeq c (rSeq r) = epochForSeq (pEpochs p) (rSeq r)" if "r \<in> set rs" for r
    using epochForSeq_new_term [OF ep(1) ord c(2) part_ok_below_next [OF ok that]] .
  then have "epoch_rep (p\<lparr>pEpochs := c, pCurEpoch := x\<rparr>) rs"
    using ep ord c(2) by (auto simp: epoch_rep_def latest_def)
  then show ?thesis using ok c(1) by (auto simp: part_ok_def part_rep_def active_def)
qed


lemma part_ok_open: "part_ok p rs \<Longrightarrow> \<not> pClosed p"
  by (auto simp: part_ok_def part_rep_def)

lemma part_ok_next_nonzero: "part_ok p rs \<Longrightarrow> pNextSeq p \<noteq> 0"
  using part_ok_numbered [of p rs] numbered_unat [of "pFirstSeq p" rs "length rs"]
  by (auto simp: numbered_def unat_eq_zero)

lemma AppendReplicated_ok:
  assumes ok: "part_ok p rs" and room: "room_for 1 p" and fit: "headers_fit (rHeaders rec)"
    and enc: "encode rec = Inr f" and fl: "rFlags rec AND FlagEphemeral = 0"
    and seq: "rSeq rec = pNextSeq p" and epoch: "pCurEpoch p \<le> rEpoch rec"
  shows "\<exists>p'. AppendReplicated io_ok rec p = (p', Inr ()) \<and>
    part_ok p' (rs @ [normalised rec]) \<and> pNextSeq p' = pNextSeq p + 1"
proof -
  let ?pre = "if rEpoch rec > pCurEpoch p then
                (case assign io_ok (rEpoch rec) (rSeq rec) (pEpochs p) of
                   (c, Inl e) \<Rightarrow> (p\<lparr>pEpochs := c\<rparr>, Inl e)
                 | (c, Inr _) \<Rightarrow> (p\<lparr>pEpochs := c, pCurEpoch := rEpoch rec\<rparr>, Inr ()))
              else (p, Inr ())"
  have "\<exists>q. ?pre = (q, Inr ()) \<and> part_ok q rs \<and> pNextSeq q = pNextSeq p \<and> pCurEpoch q = rEpoch rec"
    using new_term_ok [OF ok, of "rEpoch rec"] ok epoch seq by (cases "rEpoch rec > pCurEpoch p") auto
  then obtain q where q: "?pre = (q, Inr ())" "part_ok q rs" "pNextSeq q = pNextSeq p" "pCurEpoch q = rEpoch rec"
    by blast
  obtain ss where ss: "write_encoded io_ok f (rSeq rec) q = (q\<lparr>pSegments := ss, pNextSeq := rSeq rec + 1\<rparr>, Inr ())"
    "part_ok (q\<lparr>pSegments := ss, pNextSeq := rSeq rec + 1, pByteCount := pByteCount q + int (length f)\<rparr>)
      (rs @ [normalised rec])"
    using write_ok [OF q(2) enc fit] seq q(3,4) room by (auto simp: room_for_def)
  obtain p' where "finish_append io_ok 1 (int (length f)) () (q\<lparr>pSegments := ss, pNextSeq := rSeq rec + 1\<rparr>) = (p', Inr ())"
    "part_ok p' (rs @ [normalised rec])" "pNextSeq p' = rSeq rec + 1"
    using finish_append_ok [of "q\<lparr>pSegments := ss, pNextSeq := rSeq rec + 1\<rparr>" "int (length f)" _ 1 "()"] ss(2) by auto
  then show ?thesis
    using part_ok_open [OF ok] part_ok_next_nonzero [OF ok] seq fl
    unfolding AppendReplicated_def q(1) by (simp add: enc ss(1) [unfolded seq])
qed

lemma BecomeLeader_ok:
  assumes "part_ok p rs" and "pCurEpoch p < x"
  shows "\<exists>p'. BecomeLeader io_ok x p = (p', Inr ()) \<and> part_ok p' rs \<and> pCurEpoch p' = x \<and> pNextSeq p' = pNextSeq p \<and> pIsLeader p'"
proof -
  have "x \<noteq> UndefinedEpoch" using assms(2) by (auto simp: UndefinedEpoch_def)
  moreover obtain c where "assign io_ok x (pNextSeq p) (pEpochs p) = (c, Inr ())" "part_ok (p\<lparr>pEpochs := c, pCurEpoch := x\<rparr>) rs"
    using new_term_ok [OF assms] by blast
  ultimately show ?thesis
    using assms(2) part_ok_open [OF assms(1)]
    by (auto simp: BecomeLeader_def part_ok_def epoch_rep_def part_rep_def active_def)
qed


subsection \<open>Truncating\<close>

lemma segment_remove_io_ok [simp]: "segment_remove io_ok s = (fst (segment_flush io_ok s), Inr ())"
  by (simp add: segment_remove_def segment_close_def Let_def)

lemma drop_segments_stop:
  "ss = [] \<or> sgBase s < q \<Longrightarrow> drop_segments io q (s # ss) bc = (s # ss, bc, Inr ())"
  by (cases ss) simp_all

lemma drop_segments_go:
  "ss \<noteq> [] \<Longrightarrow> \<not> sgBase s < q \<Longrightarrow> drop_segments io_ok q (s # ss) bc = drop_segments io_ok q ss (bc - segment_bytes s)"
  by (cases ss) simp_all

lemma drop_segments_spec:
  "segs \<noteq> [] \<Longrightarrow>
   \<exists>m. 0 < m \<and> m \<le> length segs \<and>
     drop_segments io_ok q (rev segs) bc = (rev (take m segs), bc - sum_list (map segment_bytes (drop m segs)), Inr ()) \<and>
     (m = 1 \<or> sgBase (segs ! (m - 1)) < q) \<and> (m < length segs \<longrightarrow> q \<le> sgBase (segs ! m))"
proof (induction segs arbitrary: bc rule: rev_induct)
  case (snoc s segs)
  show ?case
  proof (cases "segs = [] \<or> sgBase s < q")
    case True
    then have "drop_segments io_ok q (rev (segs @ [s])) bc = (rev (segs @ [s]), bc, Inr ())"
      using drop_segments_stop [of "rev segs" s q] by simp
    then show ?thesis using True by (intro exI [of _ "Suc (length segs)"]) auto
  next
    case False
    then have "segs \<noteq> []" by simp
    obtain m where m: "0 < m" "m \<le> length segs"
      "drop_segments io_ok q (rev segs) (bc - segment_bytes s) =
        (rev (take m segs), bc - segment_bytes s - sum_list (map segment_bytes (drop m segs)), Inr ())"
      "m = 1 \<or> sgBase (segs ! (m - 1)) < q" "m < length segs \<longrightarrow> q \<le> sgBase (segs ! m)"
      using snoc.IH [OF \<open>segs \<noteq> []\<close>, of "bc - segment_bytes s"] by (elim exE conjE)
    have "drop_segments io_ok q (rev (segs @ [s])) bc = drop_segments io_ok q (rev segs) (bc - segment_bytes s)"
      using False drop_segments_go [of "rev segs" s q bc] by simp
    moreover have "sgBase ((segs @ [s]) ! (m - 1)) = sgBase (segs ! (m - 1))" using m(1,2) by (auto simp: nth_append)
    moreover have "q \<le> sgBase ((segs @ [s]) ! m)"
    proof (cases "m < length segs")
      case True
      then show ?thesis using m(5) by (simp add: nth_append)
    next
      case eq: False
      then show ?thesis using m(2) False by (auto simp: nth_append not_less)
    qed
    ultimately show ?thesis
      using m(1-4) by (intro exI [of _ m]) simp
  qed
qed simp

lemma reopenWritable_rep:
  assumes "seg_rep s rs" and "seg_usable s"
  shows "\<exists>s'. reopenWritable io_ok s = (s', Inr ()) \<and> seg_rep s' rs \<and> sgBase s' = sgBase s \<and> seg_writable s' \<and>
    segment_bytes s' = segment_bytes s"
  using assms
  by (auto simp: reopenWritable_def seg_usable_def seg_rep_def seg_content_def seg_writable_def writerSize_def
      segment_bytes_def split: if_splits)

lemma chain_nth_base:
  "chain b ss rss \<Longrightarrow> i < length ss \<Longrightarrow> sgBase (ss ! i) = b + of_nat (length (concat (take i rss)))"
proof (induction b ss rss arbitrary: i rule: chain.induct)
  case (2 b s ss rs rss)
  then show ?case by (cases i) (simp_all add: algebra_simps)
qed simp_all

lemma chain_take: "chain b ss rss \<Longrightarrow> chain b (take m ss) (take m rss)"
proof (induction b ss rss arbitrary: m rule: chain.induct)
  case (2 b s ss rs rss)
  then show ?case by (cases m) simp_all
qed simp_all

lemma chain_bytes: "chain b ss rss \<Longrightarrow> sum_list (map segment_bytes ss) = int (length (frames (concat rss)))"
  by (induction b ss rss rule: chain.induct) (simp_all add: segment_bytes_def seg_rep_def)

lemma chain_drop: "chain b ss rss \<Longrightarrow> chain (b + of_nat (length (concat (take m rss)))) (drop m ss) (drop m rss)"
proof (induction b ss rss arbitrary: m rule: chain.induct)
  case (2 b s ss rs rss)
  then show ?case by (cases m) (simp_all add: algebra_simps)
qed simp_all

text \<open>Truncating the segment that holds the cut, which may also be the very end of it.\<close>

lemma truncateTo_upto:
  assumes "seg_rep s rs" and "seg_writable s" and "j \<le> length rs"
  shows "\<exists>s' b. segment_truncateTo io_ok (sgBase s + of_nat j) s = (s', Inr b) \<and> seg_rep s' (take j rs) \<and>
    sgBase s' = sgBase s \<and> seg_writable s'"
proof (cases "j < length rs")
  case True
  then show ?thesis using segment_truncateTo_rep [OF assms(1,2)] by blast
next
  case False
  then have j: "j = length rs" using assms(3) by simp
  obtain s1 where s1: "segment_flush io_ok s = (s1, Inr ())" "seg_rep s1 rs" "sgBase s1 = sgBase s"
    "sgLastSeq s1 = sgLastSeq s" "seg_writable s1" "\<not> sgReadOnly s"
    using segment_flush_rep [of s rs io_ok, OF assms(1)] assms(2) by (auto simp: seg_writable_def)
  have "unat (sgBase s + of_nat (length rs)) = unat (sgBase s) + length rs" "sgBase s \<noteq> 0"
    using numbered_unat [of "sgBase s" rs "length rs"] assms(1) by (auto simp: seg_rep_def numbered_def)
  then have "sgBase s + of_nat (length rs) \<noteq> 0" by (metis add_is_0 unat_0 unat_eq_zero)
  then have "sgLastSeq s1 < sgBase s + of_nat (length rs)"
    using s1(4) assms(1) by (simp add: seg_rep_def word_pred_less)
  then show ?thesis using s1 by (auto simp: segment_truncateTo_def j)
qed


text \<open>The segment that the cut falls into: the last one the loop keeps.\<close>

lemma chain_cut:
  assumes ch: "chain b segs rss" and num: "numbered b (concat rss)" and k: "0 < k" "k < length (concat rss)"
  obtains i where "i < length segs"
    and "drop_segments io_ok (b + of_nat k) (rev segs) bc =
      (rev (take (Suc i) segs), bc - sum_list (map segment_bytes (drop (Suc i) segs)), Inr ())"
    and "length (concat (take i rss)) < k" and "k \<le> length (concat (take (Suc i) rss))"
proof -
  let ?q = "b + of_nat k"
  have len: "length segs = length rss" by (rule chain_length [OF ch])
  then have ne: "segs \<noteq> []" using k by auto
  obtain m where m: "0 < m" "m \<le> length segs"
    "drop_segments io_ok ?q (rev segs) bc = (rev (take m segs), bc - sum_list (map segment_bytes (drop m segs)), Inr ())"
    "m = 1 \<or> sgBase (segs ! (m - 1)) < ?q" "m < length segs \<longrightarrow> ?q \<le> sgBase (segs ! m)"
    using drop_segments_spec [OF ne, of ?q bc] by (elim exE conjE)
  then have im: "m - 1 < length segs" "Suc (m - 1) = m" by auto
  have "length (concat (take (m - 1) rss)) < k"
    using m(4)
  proof
    assume "sgBase (segs ! (m - 1)) < ?q"
    then have "b + of_nat (length (concat (take (m - 1) rss))) < ?q" unfolding chain_nth_base [OF ch im(1)] .
    then show ?thesis using k(2) by (simp only: numbered_less_iff [OF num length_concat_take less_imp_le])
  qed (use k in simp)
  moreover have "k \<le> length (concat (take m rss))"
  proof (cases "m < length segs")
    case True
    then have "?q \<le> b + of_nat (length (concat (take m rss)))" using m(5) unfolding chain_nth_base [OF ch True] by blast
    then show ?thesis using k(2) by (simp only: numbered_le_iff [OF num less_imp_le length_concat_take])
  next
    case False
    then show ?thesis using k(2) len by simp
  qed
  ultimately show thesis using that [of "m - 1"] im m(3) by simp
qed

lemma TruncateTo_segments:
  assumes rep: "part_rep p rss" and k: "0 < k" "k < length (concat rss)" and q: "q = pFirstSeq p + of_nat k"
  shows "\<exists>segs bc s1 s2 b rss'. drop_segments io_ok q (rev (pSegments p)) (pByteCount p) = (rev segs, bc, Inr ()) \<and>
    reopenWritable io_ok (last segs) = (s1, Inr ()) \<and> segment_truncateTo io_ok q s1 = (s2, Inr b) \<and>
    concat rss' = take k (concat rss) \<and>
    part_rep (p\<lparr>pSegments := butlast segs @ [s2], pByteCount := bc + (segment_bytes s2 - segment_bytes s1), pNextSeq := q\<rparr>) rss'"
proof -
  let ?segs = "pSegments p"
  have ch: "chain (pFirstSeq p) ?segs rss" and us: "list_all seg_usable ?segs"
    and bc: "pByteCount p = int (length (frames (concat rss)))" and sealed: "\<forall>rs \<in> set (butlast rss). rs \<noteq> []"
    using rep by (auto simp: part_rep_def)
  have len: "length ?segs = length rss" by (rule chain_length [OF ch])
  obtain i where i: "i < length ?segs" "length (concat (take i rss)) < k" "k \<le> length (concat (take (Suc i) rss))"
    and drop: "drop_segments io_ok q (rev ?segs) (pByteCount p) =
      (rev (take (Suc i) ?segs), pByteCount p - sum_list (map segment_bytes (drop (Suc i) ?segs)), Inr ())"
    using chain_cut [OF ch part_rep_numbered [OF rep] k] q by blast
  let ?s = "?segs ! i" and ?rs = "rss ! i" and ?j = "k - length (concat (take i rss))"
  have ir: "i < length rss" using i(1) len by simp
  have j: "?j \<le> length ?rs" using i(3) concat_take_Suc [OF ir] by simp
  have base: "sgBase ?s = pFirstSeq p + of_nat (length (concat (take i rss)))" by (rule chain_nth_base [OF ch i(1)])
  obtain s1 where s1: "reopenWritable io_ok ?s = (s1, Inr ())" "seg_rep s1 ?rs" "sgBase s1 = sgBase ?s" "seg_writable s1"
      "segment_bytes s1 = segment_bytes ?s"
    using reopenWritable_rep [OF chain_seg_rep [OF ch i(1)]] us i(1) by (auto simp: list_all_length)
  obtain s2 b where s2: "segment_truncateTo io_ok q s1 = (s2, Inr b)" "seg_rep s2 (take ?j ?rs)" "sgBase s2 = sgBase ?s" "seg_writable s2"
    using truncateTo_upto [OF s1(2,4) j] s1(3) base i(2) q by (auto simp: of_nat_diff)
  let ?bc = "pByteCount p - sum_list (map segment_bytes (drop (Suc i) ?segs))"
  let ?p = "p\<lparr>pSegments := take i ?segs @ [s2], pByteCount := ?bc + (segment_bytes s2 - segment_bytes s1), pNextSeq := q\<rparr>"
  have log: "concat (take i rss @ [take ?j ?rs]) = take k (concat rss)"
    using take_in_segment [OF ir _ i(3)] i(2) by simp
  have "int (length (frames (concat rss))) = int (length (frames (concat (take (Suc i) rss)))) + int (length (frames (concat (drop (Suc i) rss))))"
    by (metis append_take_drop_id concat_append frames_simps(3) length_append of_nat_add)
  then have bytes: "?bc + (segment_bytes s2 - segment_bytes s1) = int (length (frames (concat (take i rss @ [take ?j ?rs]))))"
    using chain_bytes [OF chain_drop [OF ch, of "Suc i"]] bc s1(2) s2(2) concat_take_Suc [OF ir]
    by (simp add: segment_bytes_def seg_rep_def)
  have "part_rep ?p (take i rss @ [take ?j ?rs])"
  proof (rule part_rep_intro [where s = s2 and ss = "take i ?segs"])
    have "set (take i rss) \<subseteq> set (butlast rss)"
      using ir set_take_subset_set_take [of i "length rss - 1" rss] by (simp add: butlast_conv_take)
    then show "\<forall>r \<in> set (take i rss). r \<noteq> []" using sealed by blast
    show "list_all seg_usable (take i ?segs)" using us by (auto simp: list_all_iff dest: in_set_takeD)
    show "chain (pFirstSeq ?p) (take i ?segs) (take i rss)" using chain_take [OF ch] by simp
    show "unat (pFirstSeq ?p) + length (concat (take i rss @ [take ?j ?rs])) < 2 ^ 64"
      unfolding log using rep k by (simp add: part_rep_def min_absorb2)
    show "pNextSeq ?p = pFirstSeq ?p + of_nat (length (concat (take i rss @ [take ?j ?rs])))"
      unfolding log using k q by simp
  qed (use rep s2 base bytes in \<open>simp_all add: part_rep_def\<close>)
  moreover have "last (take (Suc i) ?segs) = ?s" "butlast (take (Suc i) ?segs) = take i ?segs"
    using i(1) by (simp_all add: take_Suc_conv_app_nth butlast_take)
  ultimately show ?thesis
    using drop s1(1) s2(1) log
    by (intro exI [of _ "take (Suc i) ?segs"] exI [of _ ?bc] exI [of _ s1] exI [of _ s2] exI [of _ b]
        exI [of _ "take i rss @ [take ?j ?rs]"]) simp
qed


lemma truncateFromSeq_io_ok:
  "cache_ordered c \<Longrightarrow> truncateFromSeq io_ok q c = (fst (truncateFromSeq io_ok q c), Inr ())"
  by (simp add: truncateFromSeq_def flushLocked_def Let_def)

lemma numbered_take_below:
  assumes "numbered b rs" and "r \<in> set (take k rs)" and "k \<le> length rs"
  shows "rSeq r < b + of_nat k"
proof -
  obtain i where "i < length (take k rs)" "r = take k rs ! i" using assms(2) unfolding in_set_conv_nth by blast
  then show ?thesis
    using assms(3) numbered_nth [OF assms(1), of i] numbered_less [OF assms(1), of i k] by simp
qed

lemma TruncateTo_ok:
  assumes ok: "part_ok p rs" and k: "0 < k" "k < length rs"
  shows "\<exists>p'. TruncateTo io_ok (pFirstSeq p + of_nat k) p = (p', Inr (of_nat (length rs - k))) \<and>
    part_ok p' (take k rs) \<and> pFirstSeq p' = pFirstSeq p"
proof -
  let ?q = "pFirstSeq p + of_nat k"
  obtain rss where rss: "part_rep p rss" "concat rss = rs" and ep: "epoch_rep p rs" using ok by (auto simp: part_ok_def)
  have num: "numbered (pFirstSeq p) rs" and nx: "pNextSeq p = pFirstSeq p + of_nat (length rs)"
    using part_ok_numbered [OF ok] by auto
  obtain segs bc s1 s2 b rss' where t: "drop_segments io_ok ?q (rev (pSegments p)) (pByteCount p) = (rev segs, bc, Inr ())"
    "reopenWritable io_ok (last segs) = (s1, Inr ())" "segment_truncateTo io_ok ?q s1 = (s2, Inr b)"
    "concat rss' = take k (concat rss)"
    "part_rep (p\<lparr>pSegments := butlast segs @ [s2], pByteCount := bc + (segment_bytes s2 - segment_bytes s1), pNextSeq := ?q\<rparr>) rss'"
    using TruncateTo_segments [OF rss(1) k(1) _ refl] k(2) rss(2) by auto
  have ord: "cache_ordered (pEpochs p)" using ep by (simp add: epoch_rep_def)
  obtain c where c: "truncateFromSeq io_ok ?q (pEpochs p) = (c, Inr ())"
    using truncateFromSeq_io_ok [OF ord, of ?q] by blast
  let ?p = "broadcast (p\<lparr>pSegments := butlast segs @ [s2], pByteCount := bc + (segment_bytes s2 - segment_bytes s1),
      pNextSeq := ?q, pEpochs := c, pCurEpoch := fst (latest c)\<rparr>)"
  have lt: "\<not> ?q \<ge> pNextSeq p" "\<not> ?q \<le> pFirstSeq p"
    using numbered_less [OF num k(2)] numbered_less [OF num k(1)] k nx by (simp_all add: not_le)
  have "TruncateTo io_ok ?q p = (?p, Inr (pNextSeq p - ?q))"
    unfolding TruncateTo_def t(1) using lt part_ok_open [OF ok] t(2,3) c
    by (simp add: Let_def active_def set_active_def broadcast_def)
  moreover have "epoch_rep ?p (take k rs)"
    using ep truncateFromSeq_ordered [OF ord, of io_ok ?q] truncateFromSeq_entries [OF ord, of io_ok ?q]
      numbered_take_below [OF num, of _ k] k(2) epochForSeq_truncateFromSeq [OF ord, of _ ?q io_ok] c
    by (auto simp: epoch_rep_def broadcast_def dest: in_set_takeD set_takeWhileD)
  moreover have "part_rep ?p rss'" using t(5) by (simp add: part_rep_def active_def broadcast_def)
  ultimately show ?thesis
    using t(4) rss(2) nx k(2) by (auto simp: part_ok_def broadcast_def of_nat_diff)
qed


subsection \<open>Reading across segments\<close>

lemma within_budget_prefix: "\<exists>k. within_budget n b u rs = take k rs"
proof (induction rs arbitrary: n u)
  case (Cons r rs)
  obtain k where "within_budget (n - 1) b (u + int (length (encodeBody r))) rs = take k rs" using Cons.IH by blast
  then show ?case
    by (auto simp: Let_def intro: exI [of _ 0] exI [of _ "Suc 0"] exI [of _ "Suc k"])
qed simp

lemma within_budget_length: "int (length (within_budget n b u rs)) \<le> max 0 n"
proof (induction rs arbitrary: n u)
  case (Cons r rs)
  show ?case using Cons.IH [of "n - 1" "u + int (length (encodeBody r))"] by (auto simp: Let_def)
qed simp

text \<open>A read that stops short has used up one of its limits.\<close>

lemma within_budget_short:
  "within_budget n b u rs \<noteq> rs \<Longrightarrow>
    int (length (within_budget n b u rs)) \<ge> n \<or>
    (b > 0 \<and> u + int (sum_list (map (\<lambda>r. length (encodeBody r)) (within_budget n b u rs))) \<ge> b)"
proof (induction rs arbitrary: n u)
  case (Cons r rs)
  show ?case
  proof (cases "n \<le> 0 \<or> (b > 0 \<and> u + int (length (encodeBody r)) \<ge> b)")
    case False
    then show ?thesis using Cons.IH [of "n - 1" "u + int (length (encodeBody r))"] Cons.prems by (auto simp: Let_def)
  qed (auto simp: Let_def)
qed simp

lemma encodedSize_body: "encodedSize r = recordFrameHeaderSize + length (encodeBody r)"
  by (simp add: encodedSize_def length_encodeBody)

lemma sum_encodedSize_ge: "sum_list (map (\<lambda>r. length (encodeBody r)) rs) \<le> sum_list (map encodedSize rs)"
  by (rule sum_list_mono) (simp add: encodedSize_body)

lemma read_segments_stuck:
  "maxR - int (length out) \<le> 0 \<or> maxB > 0 \<and> maxB - used \<le> 0 \<Longrightarrow>
     read_segments io maxR maxB x segs out used = (segs, out, None)"
  by (induction segs arbitrary: x) auto

lemma chain_low:
  assumes "chain b segs rss" and "numbered b (concat rss)" and "r \<in> set (concat rss)"
  shows "b \<le> rSeq r"
proof -
  obtain k where "k < length (concat rss)" "r = concat rss ! k" using assms(3) unfolding in_set_conv_nth by blast
  then show ?thesis
    using numbered_nth [OF assms(2), of k] numbered_le_iff [OF assms(2), of 0 k] by simp
qed


lemma filter_last_seq:
  assumes "numbered b rs" and "filter (\<lambda>r. x \<le> rSeq r) rs \<noteq> []"
  shows "last (filter (\<lambda>r. x \<le> rSeq r) rs) = last rs" and "x \<le> rSeq (last rs)" and "rs \<noteq> []"
proof -
  obtain r where r: "r \<in> set rs" "x \<le> rSeq r" using assms(2) by (auto simp: filter_empty_conv)
  show ne: "rs \<noteq> []" using r(1) by auto
  obtain k where k: "k < length rs" "r = rs ! k" using r(1) unfolding in_set_conv_nth by blast
  have "rSeq r \<le> rSeq (last rs)"
    using k ne numbered_nth [OF assms(1)] numbered_le_iff [OF assms(1), of k "length rs - 1"]
    by (simp add: last_conv_nth Suc_leI)
  then show x: "x \<le> rSeq (last rs)" using r(2) by simp
  show "last (filter (\<lambda>r. x \<le> rSeq r) rs) = last rs"
    using ne x by (cases rs rule: rev_cases) auto
qed

lemma segment_read_roles:
  "fst (segment_read io x n b s) = fst (segment_flush io s)"
  by (auto simp: segment_read_def Let_def split: prod.splits sum.splits)

text \<open>A flush changes neither whether a segment is sealed nor whether it takes appends.\<close>

definition same_role :: "segment \<Rightarrow> segment \<Rightarrow> bool" where
  "same_role s s' \<longleftrightarrow> (seg_usable s \<longrightarrow> seg_usable s') \<and> (seg_writable s \<longrightarrow> seg_writable s') \<and> sgBase s' = sgBase s"

lemma same_role_flush: "same_role s (fst (segment_flush io s))"
  by (auto simp: same_role_def segment_flush_def seg_usable_def seg_writable_def Let_def split: option.splits prod.splits)

lemma same_role_self [simp]: "same_role s s"
  by (simp add: same_role_def)

lemma same_role_base: "same_role s s' \<Longrightarrow> sgBase s' = sgBase s"
  by (simp add: same_role_def)

lemma same_role_refl: "list_all2 same_role ss ss"
  by (rule list.rel_refl) (simp add: same_role_def)

lemma within_budget_progress: "0 < n \<Longrightarrow> rs \<noteq> [] \<Longrightarrow> within_budget n b u rs \<noteq> []"
  by (cases rs) (simp_all add: Let_def)

text \<open>One segment of a read: either all it has to offer, or one of the limits is used up.\<close>

lemma read_one_segment:
  assumes rep: "seg_rep s rs" and "0 < n" and "maxB > 0 \<longrightarrow> used < maxB" and F: "F = filter (\<lambda>r. x \<le> rSeq r) rs"
  obtains s' recs where "segment_read io_ok x n (if maxB > 0 then maxB - used else 0) s = (s', recs, None)"
    and "seg_rep s' rs" and "same_role s s'" and "\<exists>j. recs = take j F" and "F \<noteq> [] \<longrightarrow> recs \<noteq> []"
    and "int (length recs) \<le> n" and "recs = F \<or> n \<le> int (length recs) \<or> (maxB > 0 \<and> maxB - (used + int (sum_list (map encodedSize recs))) \<le> 0)"
proof -
  let ?b = "if maxB > 0 then maxB - used else 0"
  let ?recs = "within_budget n ?b 0 F"
  obtain s' where s': "segment_read io_ok x n ?b s = (s', ?recs, None)" "seg_rep s' rs"
    using segment_read_rep [of s rs io_ok x n ?b] rep by (auto simp: F)
  have role: "same_role s s'"
    using same_role_flush [of s io_ok] segment_read_roles [of io_ok x n ?b s] s'(1) by simp
  have "?recs = F \<or> n \<le> int (length ?recs) \<or> (maxB > 0 \<and> maxB - (used + int (sum_list (map encodedSize ?recs))) \<le> 0)"
    using within_budget_short [of n ?b 0 F] sum_encodedSize_ge [of ?recs] by (auto split: if_splits)
  then show thesis
    using that [OF s' role within_budget_prefix] within_budget_progress [OF assms(2)] within_budget_length [of n ?b 0 F]
      assms(2) by auto
qed

lemma numbered_append2:
  assumes "numbered b (xs @ ys)"
  shows "numbered (b + of_nat (length xs)) ys"
proof -
  have u: "unat (b + of_nat (length xs)) = unat b + length xs"
    using numbered_unat [OF assms, of "length xs"] by simp
  have "unat b \<noteq> 0" using assms by (simp add: numbered_def unat_eq_zero)
  then have "b + of_nat (length xs) \<noteq> 0" using u by (metis add_is_0 unat_0)
  moreover have "rSeq (ys ! k) = b + of_nat (length xs) + of_nat k" if "k < length ys" for k
    using numbered_nth [OF assms, of "length xs + k"] that by (simp add: nth_append)
  ultimately show ?thesis using assms u by (simp add: numbered_def)
qed

lemma filter_next_segment:
  assumes num: "numbered b rs" and ch: "chain (b + of_nat (length rs)) segs rss"
    and numr: "numbered (b + of_nat (length rs)) (concat rss)"
    and F: "F = filter (\<lambda>r. x \<le> rSeq r) rs"
  shows "filter (\<lambda>r. (if F \<noteq> [] then rSeq (last F) + 1 else x) \<le> rSeq r) (concat rss) =
         filter (\<lambda>r. x \<le> rSeq r) (concat rss)"
proof (cases "F = []")
  case False
  let ?b = "b + of_nat (length rs)"
  have last: "last F = last rs" "x \<le> rSeq (last rs)" "rs \<noteq> []" using filter_last_seq [OF num] False F by auto
  have "?b \<noteq> 0" using numr by (simp add: numbered_def)
  then have "x < ?b" using last(2,3) numbered_last [OF num] word_pred_less [of ?b] by simp
  moreover have "rSeq (last F) + 1 = ?b" using last numbered_last [OF num] by simp
  moreover have "filter (\<lambda>r. ?b \<le> rSeq r) (concat rss) = concat rss"
    using chain_low [OF ch numr] by (intro filter_True) blast
  moreover have "filter (\<lambda>r. x \<le> rSeq r) (concat rss) = concat rss"
    using chain_low [OF ch numr] \<open>x < ?b\<close> by (intro filter_True) (meson less_imp_le order_trans)
  ultimately show ?thesis using False by simp
qed simp

lemma read_segments_rep:
  assumes "chain b segs rss" and "numbered b (concat rss)"
  shows "\<exists>segs' k. read_segments io_ok maxR maxB x segs out used =
      (segs', out @ take k (filter (\<lambda>r. x \<le> rSeq r) (concat rss)), None) \<and>
    chain b segs' rss \<and> list_all2 same_role segs segs' \<and>
    (int (length out) < maxR \<and> (maxB > 0 \<longrightarrow> used < maxB) \<and> filter (\<lambda>r. x \<le> rSeq r) (concat rss) \<noteq> [] \<longrightarrow> 0 < k) \<and>
    (int (length out) \<le> maxR \<longrightarrow> int (length (out @ take k (filter (\<lambda>r. x \<le> rSeq r) (concat rss)))) \<le> maxR)"
  using assms
proof (induction b segs rss arbitrary: x out used rule: chain.induct)
  case (2 b s segs rs rss)
  let ?F = "filter (\<lambda>r. x \<le> rSeq r)" and ?b = "b + of_nat (length rs)"
  have rep: "seg_rep s rs" and base: "sgBase s = b" and ch: "chain ?b segs rss" using "2.prems"(1) by simp_all
  have num: "numbered b rs" using rep base by (simp add: seg_rep_def)
  have numr: "numbered ?b (concat rss)" using numbered_append2 [of b rs "concat rss"] "2.prems"(2) by simp
  note IH = "2.IH" [OF ch numr]
  show ?case
  proof (cases "segs \<noteq> [] \<and> lastSequence s < x")
    case True
    have nil: "?F rs = []"
    proof (rule ccontr)
      assume "?F rs \<noteq> []"
      then have "x \<le> rSeq (last rs)" "rs \<noteq> []" using filter_last_seq [OF num] by auto
      then show False
        using True numbered_last [OF num] rep base by (auto simp: lastSequence_def seg_rep_def dest: leD)
    qed
    obtain segs' k where "read_segments io_ok maxR maxB x segs out used = (segs', out @ take k (?F (concat rss)), None)"
        "chain ?b segs' rss" "list_all2 same_role segs segs'"
        "int (length out) < maxR \<and> (maxB > 0 \<longrightarrow> used < maxB) \<and> ?F (concat rss) \<noteq> [] \<longrightarrow> 0 < k"
        "int (length out) \<le> maxR \<longrightarrow> int (length (out @ take k (?F (concat rss)))) \<le> maxR"
      using IH [of x out used] by (elim exE conjE)
    then show ?thesis
      using True rep base nil by (intro exI [of _ "s # segs'"] exI [of _ k]) simp
  next
    case run: False
    show ?thesis
    proof (cases "maxR - int (length out) \<le> 0 \<or> (maxB > 0 \<and> maxB - used \<le> 0)")
      case True
      then show ?thesis
        using "2.prems"(1) same_role_refl [of "s # segs"]
        by (intro exI [of _ "s # segs"] exI [of _ 0]) (auto simp: read_segments_stuck)
    next
      case False
      let ?n = "maxR - int (length out)"
      obtain s' recs where r: "segment_read io_ok x ?n (if maxB > 0 then maxB - used else 0) s = (s', recs, None)"
          "seg_rep s' rs" "same_role s s'" "\<exists>j. recs = take j (?F rs)" "?F rs \<noteq> [] \<longrightarrow> recs \<noteq> []" "int (length recs) \<le> ?n"
          "recs = ?F rs \<or> ?n \<le> int (length recs) \<or> (maxB > 0 \<and> maxB - (used + int (sum_list (map encodedSize recs))) \<le> 0)"
        using False by (elim read_one_segment [OF rep, of ?n maxB used "?F rs" x, rotated 3]) auto
      let ?x = "if recs \<noteq> [] then rSeq (last recs) + 1 else x"
      let ?rest = "read_segments io_ok maxR maxB ?x segs (out @ recs) (used + int (sum_list (map encodedSize recs)))"
      have step: "read_segments io_ok maxR maxB x (s # segs) out used = (case ?rest of (segs', res) \<Rightarrow> (s' # segs', res))"
      proof -
        have "\<not> maxR - int (length out) \<le> 0" "\<not> (maxB > 0 \<and> maxB - used \<le> 0)" using False by auto
        then show ?thesis unfolding read_segments.simps if_not_P [OF run] by (simp only: if_False r(1)) simp
      qed
      show ?thesis
      proof (cases "recs = ?F rs")
        case True
        then obtain segs' k where k: "?rest = (segs', (out @ recs) @ take k (?F (concat rss)), None)"
            "chain ?b segs' rss" "list_all2 same_role segs segs'"
            "int (length (out @ recs)) < maxR \<and> (maxB > 0 \<longrightarrow> used + int (sum_list (map encodedSize recs)) < maxB) \<and>
              ?F (concat rss) \<noteq> [] \<longrightarrow> 0 < k"
            "int (length (out @ recs)) \<le> maxR \<longrightarrow> int (length ((out @ recs) @ take k (?F (concat rss)))) \<le> maxR"
          using IH [of ?x "out @ recs" "used + int (sum_list (map encodedSize recs))"]
          unfolding filter_next_segment [OF num ch numr True] by (elim exE conjE)
        show ?thesis
          using k r True base unfolding step
          by (intro exI [of _ "s' # segs'"] exI [of _ "length recs + k"]) (auto simp: same_role_base)
      next
        case cut: False
        obtain j where j: "recs = take j (?F rs)" using r(4) by blast
        have "?rest = (segs, out @ recs, None)"
          using r(7) cut by (intro read_segments_stuck) auto
        moreover have "take (length recs) (?F rs @ ?F (concat rss)) = recs"
          using j by (simp add: min_def)
        moreover have "recs \<noteq> []" using r(5) cut by auto
        ultimately show ?thesis
          using r(2,3,6) base ch same_role_refl [of segs] unfolding step
          by (intro exI [of _ "s' # segs"] exI [of _ "length recs"]) (simp add: same_role_base)
      qed
    qed
  qed
qed auto

end
