(* ===== verification/Partition_Contract.thy ===== *)
theory Partition_Contract
  imports Partition
begin

unbundle bit_operations_syntax

section \<open>What a partition promises\<close>

text \<open>
  The contract of \<open>internal/stream/partition.go\<close> over all its operations: reads, retention,
  batches, reopening after a crash, and the invariant that every operation keeps
  (\<open>part_inv\<close>, proved by interpreting \<open>state_machine\<close> on the step relation \<open>part_step\<close>).
\<close>

subsection \<open>Reading\<close>

lemma chain_roles:
  assumes "part_rep p rss" and "chain (pFirstSeq p) segs rss" and "list_all2 same_role (pSegments p) segs"
  shows "part_rep (p\<lparr>pSegments := segs\<rparr>) rss"
proof -
  have len: "length segs = length (pSegments p)" using assms(3) by (simp add: list_all2_lengthD)
  have "pSegments p \<noteq> []" using assms(1) chain_length [of "pFirstSeq p" "pSegments p" rss] by (auto simp: part_rep_def)
  moreover from this len have "segs \<noteq> []" by auto
  ultimately have "same_role (active p) (last segs)"
    using assms(3) len by (simp add: active_def last_conv_nth list_all2_conv_all_nth)
  then have "seg_writable (last segs)" using assms(1) by (simp add: part_rep_def same_role_def)
  moreover have "list_all seg_usable segs"
    using assms(1,3) len by (simp add: part_rep_def list_all2_conv_all_nth list_all_length same_role_def)
  ultimately show ?thesis using assms(1,2) by (simp add: part_rep_def active_def)
qed

lemma Read_ok:
  fixes x :: u64 and n b :: int
  assumes ok: "part_ok p rs" and x: "x = 0 \<or> pFirstSeq p \<le> x"
  defines "from_seq \<equiv> if x = 0 then pFirstSeq p else x" and "limit \<equiv> if n \<le> 0 then 100 else n"
  shows "\<exists>p' k. Read io_ok x n b p = (p', take k (filter (\<lambda>r. from_seq \<le> rSeq r) rs), None) \<and> part_ok p' rs \<and>
    (filter (\<lambda>r. from_seq \<le> rSeq r) rs \<noteq> [] \<longrightarrow> 0 < k) \<and>
    int (length (take k (filter (\<lambda>r. from_seq \<le> rSeq r) rs))) \<le> limit"
proof -
  obtain rss where rss: "part_rep p rss" "concat rss = rs" using ok by (auto simp: part_ok_def)
  have ch: "chain (pFirstSeq p) (pSegments p) rss" using rss(1) by (simp add: part_rep_def)
  have lim: "0 < limit" by (simp add: limit_def)
  obtain segs' k where r: "read_segments io_ok limit b from_seq (pSegments p) [] 0 =
      (segs', [] @ take k (filter (\<lambda>r. from_seq \<le> rSeq r) rs), None)"
      "chain (pFirstSeq p) segs' rss" "list_all2 same_role (pSegments p) segs'"
      "int (length ([] :: stream_record list)) < limit \<and> (b > 0 \<longrightarrow> 0 < b) \<and> filter (\<lambda>r. from_seq \<le> rSeq r) rs \<noteq> [] \<longrightarrow> 0 < k"
      "int (length ([] :: stream_record list)) \<le> limit \<longrightarrow> int (length ([] @ take k (filter (\<lambda>r. from_seq \<le> rSeq r) rs))) \<le> limit"
    using read_segments_rep [OF ch part_rep_numbered [OF rss(1)], of limit b from_seq "[]" 0, unfolded rss(2)]
    by (elim exE conjE)
  have "\<not> from_seq < pFirstSeq p" using x by (auto simp: from_seq_def not_less)
  then have "Read io_ok x n b p = (p\<lparr>pSegments := segs'\<rparr>, take k (filter (\<lambda>r. from_seq \<le> rSeq r) rs), None)"
    using part_ok_open [OF ok] r(1) by (simp add: Read_def Let_def flip: from_seq_def limit_def)
  moreover have "part_ok (p\<lparr>pSegments := segs'\<rparr>) rs"
    using ok chain_roles [OF rss(1) r(2,3)] rss(2) by (auto simp: part_ok_def epoch_rep_def)
  ultimately show ?thesis
    using r(4,5) lim by (intro exI [of _ "p\<lparr>pSegments := segs'\<rparr>"] exI [of _ k]) simp
qed

subsection \<open>Retention\<close>

lemma truncateBeforeSeq_io_ok: "truncateBeforeSeq io_ok q c = (fst (truncateBeforeSeq io_ok q c), Inr ())"
  by (simp add: truncateBeforeSeq_def flushLocked_def Let_def)

lemma truncateBeforeSeq_last:
  assumes "cache_ordered c"
  shows "latest (fst (truncateBeforeSeq io q c)) = latest c" and
    "set (ecEntries (fst (truncateBeforeSeq io q c))) \<subseteq> set (ecEntries c)"
proof -
  let ?i = "sort_search (length (ecEntries c)) (\<lambda>i. eStartSeq (ecEntries c ! i) > q)"
  have "?i \<le> length (ecEntries c)"
    using epoch_search(2) [OF assms, of q] length_takeWhile_le by metis
  then have "?i - 1 < length (ecEntries c)" if "\<not> ?i \<le> 1" using that by linarith
  then show "latest (fst (truncateBeforeSeq io q c)) = latest c"
    by (auto simp: truncateBeforeSeq_def Let_def latest_def)
  show "set (ecEntries (fst (truncateBeforeSeq io q c))) \<subseteq> set (ecEntries c)"
    by (auto simp: truncateBeforeSeq_def Let_def dest: in_set_dropD)
qed

text \<open>Dropping the oldest segment: the log loses a prefix, the placement of the rest stays.\<close>

lemma drop_oldest_part_rep:
  assumes ok: "part_rep p (rs0 # rss)" "rss \<noteq> []" and segs: "pSegments p = s0 # segs"
  shows "part_rep (p\<lparr>pSegments := segs, pFirstSeq := sgBase (hd segs), pEpochs := e, pByteCount := pByteCount p - segment_bytes s0\<rparr>) rss"
proof -
  let ?b = "pFirstSeq p + of_nat (length rs0)"
  have ch: "seg_rep s0 rs0" "chain ?b segs rss" and us: "list_all seg_usable segs" using ok(1) segs by (auto simp: part_rep_def)
  have "segs \<noteq> []" using chain_length [OF ch(2)] ok(2) by auto
  then have q: "sgBase (hd segs) = ?b" using ch(2) ok(2) by (cases segs; cases rss) simp_all
  have num: "numbered ?b (concat rss)"
    using numbered_append2 [of "pFirstSeq p" rs0 "concat rss"] part_rep_numbered [OF ok(1)] by simp
  show ?thesis
    using ok segs ch us q num \<open>segs \<noteq> []\<close>
    by (cases rss) (auto simp: part_rep_def active_def segment_bytes_def seg_rep_def numbered_def)
qed

lemma drop_oldest_ok:
  assumes ok: "part_rep p (rs0 # rss)" "rss \<noteq> []" "epoch_rep p (concat (rs0 # rss))"
    and segs: "pSegments p = s0 # segs"
  defines "q \<equiv> sgBase (hd segs)"
  shows "part_rep (p\<lparr>pSegments := segs, pFirstSeq := q, pEpochs := fst (truncateBeforeSeq io_ok q (pEpochs p)),
      pByteCount := pByteCount p - segment_bytes s0\<rparr>) rss \<and>
    epoch_rep (p\<lparr>pSegments := segs, pFirstSeq := q, pEpochs := fst (truncateBeforeSeq io_ok q (pEpochs p)),
      pByteCount := pByteCount p - segment_bytes s0\<rparr>) (concat rss)"
proof -
  let ?b = "pFirstSeq p + of_nat (length rs0)"
  have ch: "seg_rep s0 rs0" "chain ?b segs rss" using ok(1) segs by (auto simp: part_rep_def)
  have "segs \<noteq> []" using chain_length [OF ch(2)] ok(2) by auto
  then have q: "q = ?b" using ch(2) ok(2) by (cases segs; cases rss) (simp_all add: q_def)
  have num: "numbered ?b (concat rss)"
    using numbered_append2 [of "pFirstSeq p" rs0 "concat rss"] part_rep_numbered [OF ok(1)] by simp
  note rep = drop_oldest_part_rep [OF ok(1,2) segs, folded q_def]
  have ord: "cache_ordered (pEpochs p)" using ok(3) by (simp add: epoch_rep_def)
  have "q \<le> rSeq r" if "r \<in> set (concat rss)" for r using chain_low [OF ch(2) num that] q by simp
  then have "epoch_rep (p\<lparr>pSegments := segs, pFirstSeq := q, pEpochs := fst (truncateBeforeSeq io_ok q (pEpochs p)),
      pByteCount := pByteCount p - segment_bytes s0\<rparr>) (concat rss)"
    using ok(3) truncateBeforeSeq_ordered [OF ord, of io_ok q] truncateBeforeSeq_last [OF ord, of io_ok q]
      epochForSeq_truncateBeforeSeq [OF ord, of q _ io_ok]
    unfolding epoch_rep_def by auto
  with rep show ?thesis by blast
qed


lemma firstTimestamp_rep:
  assumes "seg_rep s rs"
  shows "seg_rep (fst (firstTimestamp io_ok s)) rs \<and> same_role s (fst (firstTimestamp io_ok s))"
proof -
  obtain s' recs where s': "segment_read io_ok (sgBase s) 1 0 s = (s', recs, None)" "seg_rep s' rs"
    using segment_read_rep [of s rs io_ok "sgBase s" 1 0] assms by auto
  have "same_role s s'"
    using same_role_flush [of s io_ok] segment_read_roles [of io_ok "sgBase s" 1 0 s] s'(1) by simp
  then show ?thesis using s' by (simp add: firstTimestamp_def)
qed

lemma part_rep_peek:
  assumes "part_rep p (rs0 # rs1 # rss)" and "pSegments p = s0 # s1 # segs"
  shows "part_rep (p\<lparr>pSegments := s0 # fst (firstTimestamp io_ok s1) # segs\<rparr>) (rs0 # rs1 # rss)"
proof -
  have "seg_rep s1 rs1" and ch: "chain (pFirstSeq p) (s0 # s1 # segs) (rs0 # rs1 # rss)"
    using assms by (auto simp: part_rep_def)
  then have t: "seg_rep (fst (firstTimestamp io_ok s1)) rs1" "same_role s1 (fst (firstTimestamp io_ok s1))"
    using firstTimestamp_rep by auto
  then have "chain (pFirstSeq p) (s0 # fst (firstTimestamp io_ok s1) # segs) (rs0 # rs1 # rss)"
    using ch by (simp add: same_role_base)
  then show ?thesis
    using assms t(2) by (intro chain_roles) (simp_all add: same_role_refl)
qed

text \<open>The timestamp of the first record, 0 for none.\<close>

definition first_stamp :: "stream_record list \<Rightarrow> s64" where
  "first_stamp rs = (if rs = [] then 0 else rTimestamp (hd rs))"

text \<open>
  The oldest segment is due when the log is over the size limit, or when the segment after it
  begins with a timestamp before the cutoff.
\<close>

definition due :: "int \<Rightarrow> s64 \<Rightarrow> stream_record list list \<Rightarrow> bool" where
  "due limit cutoff rss \<longleftrightarrow>
     0 < limit \<and> limit < int (length (frames (concat rss))) \<or>
     0 <s cutoff \<and> 0 <s first_stamp (rss ! 1) \<and> first_stamp (rss ! 1) <s cutoff"

lemma firstTimestamp_value:
  assumes "seg_rep s rs"
  shows "snd (firstTimestamp io_ok s) = first_stamp rs"
proof -
  have num: "numbered (sgBase s) rs" using assms by (simp add: seg_rep_def)
  have "filter (\<lambda>r. sgBase s \<le> rSeq r) rs = rs"
  proof (rule filter_True, rule ballI)
    fix r assume "r \<in> set rs"
    then obtain k where k: "k < length rs" "r = rs ! k" by (metis in_set_conv_nth)
    then show "sgBase s \<le> rSeq r"
      using numbered_nth [OF num k(1)] numbered_le_iff [OF num, of 0 k] by simp
  qed
  then obtain s' where "segment_read io_ok (sgBase s) 1 0 s = (s', within_budget 1 0 0 rs, None)"
    using segment_read_rep [OF assms, of io_ok "sgBase s" 1 0] by auto
  then show ?thesis by (cases rs) (simp_all add: firstTimestamp_def first_stamp_def)
qed

lemma retention_step:
  assumes rep: "part_rep p (rs0 # rs1 # rss)" and segs: "pSegments p = s0 # s1 # segs"
    and d: "due (cRetentionBytes (pCfg p)) cutoff (rs0 # rs1 # rss)"
  shows "\<exists>u. u \<in> {s1, fst (firstTimestamp io_ok s1)} \<and>
    retention_loop io_ok cutoff p n = retention_loop io_ok cutoff
      (p\<lparr>pSegments := u # segs, pFirstSeq := sgBase s1, pEpochs := fst (truncateBeforeSeq io_ok (sgBase s1) (pEpochs p)),
         pByteCount := pByteCount p - segment_bytes s0\<rparr>) (n + 1)"
proof -
  let ?size = "cRetentionBytes (pCfg p) > 0 \<and> pByteCount p > cRetentionBytes (pCfg p)"
  obtain t ts where ft: "firstTimestamp io_ok s1 = (t, ts)" by (cases "firstTimestamp io_ok s1")
  have rep1: "seg_rep s1 rs1" using rep segs by (simp add: part_rep_def)
  have bt: "sgBase t = sgBase s1" using firstTimestamp_rep [OF rep1] ft same_role_base by fastforce
  have ts: "ts = first_stamp rs1" using firstTimestamp_value [OF rep1] ft by simp
  have opn: "\<not> pClosed p" "pByteCount p = int (length (frames (concat (rs0 # rs1 # rss))))" using rep by (simp_all add: part_rep_def)
  obtain c where c: "truncateBeforeSeq io_ok (sgBase s1) (pEpochs p) = (c, Inr ())" using truncateBeforeSeq_io_ok by blast
  show ?thesis
  proof (cases ?size)
    case True
    then show ?thesis using opn(1) segs ft c by (intro exI [of _ s1], subst retention_loop.simps) (simp add: Let_def)
  next
    case False
    then have "0 <s cutoff" "0 <s ts" "ts <s cutoff" using d ts opn(2) by (auto simp: due_def)
    then show ?thesis using False opn(1) segs ft c bt by (intro exI [of _ t], subst retention_loop.simps) (simp add: Let_def)
  qed
qed

lemma retention_stop:
  assumes rep: "part_rep p rss" and stop: "length rss \<le> 1 \<or> \<not> due (cRetentionBytes (pCfg p)) cutoff rss"
  shows "\<exists>p'. retention_loop io_ok cutoff p n = (p', n, None) \<and> part_rep p' rss \<and>
    (p' = p \<or> (\<exists>s0 s1 segs. pSegments p = s0 # s1 # segs \<and> p' = p\<lparr>pSegments := s0 # fst (firstTimestamp io_ok s1) # segs\<rparr>))"
proof (cases "length rss \<le> 1")
  case True
  moreover have "length (pSegments p) = length rss" using rep chain_length by (auto simp: part_rep_def)
  ultimately show ?thesis using rep by (subst retention_loop.simps) simp
next
  case False
  then obtain rs0 rs1 rss1 where rss: "rss = rs0 # rs1 # rss1" by (cases rss; cases "tl rss") auto
  moreover have "length (pSegments p) = length rss" using rep chain_length by (auto simp: part_rep_def)
  ultimately obtain s0 s1 segs where segs: "pSegments p = s0 # s1 # segs" by (cases "pSegments p"; cases "tl (pSegments p)") auto
  obtain t ts where ft: "firstTimestamp io_ok s1 = (t, ts)" by (cases "firstTimestamp io_ok s1")
  have rep1: "seg_rep s1 rs1" using rep segs rss by (simp add: part_rep_def)
  have ts: "ts = first_stamp rs1" using firstTimestamp_value [OF rep1] ft by simp
  have opn: "\<not> pClosed p" "pByteCount p = int (length (frames (concat rss)))" using rep by (simp_all add: part_rep_def)
  let ?p = "if 0 <s cutoff then p\<lparr>pSegments := s0 # t # segs\<rparr> else p"
  have "retention_loop io_ok cutoff p n = (?p, n, None)"
    using stop False opn segs ft ts rss by (subst retention_loop.simps) (auto simp: Let_def due_def)
  moreover have "part_rep ?p rss" using part_rep_peek [of p rs0 rs1 rss1 s0 s1 segs] rep segs rss ft by auto
  ultimately show ?thesis using segs ft by auto
qed

lemma part_rep_two:
  assumes "part_rep p rss" and "1 < length rss"
  obtains rs0 rs1 rss1 s0 s1 segs where "rss = rs0 # rs1 # rss1" and "pSegments p = s0 # s1 # segs"
proof -
  have "length (pSegments p) = length rss" using assms(1) chain_length by (auto simp: part_rep_def)
  then show thesis using assms(2) that by (cases rss; cases "tl rss"; cases "pSegments p"; cases "tl (pSegments p)") auto
qed

lemma drop_oldest_rep:
  assumes rep: "part_rep p (rs0 # rs1 # rss)" and segs: "pSegments p = s0 # s1 # segs" and u: "u \<in> {s1, fst (firstTimestamp io_ok s1)}"
  defines "q \<equiv> p\<lparr>pSegments := u # segs, pFirstSeq := sgBase s1, pEpochs := fst (truncateBeforeSeq io_ok (sgBase s1) (pEpochs p)),
    pByteCount := pByteCount p - segment_bytes s0\<rparr>"
  shows "part_rep q (rs1 # rss)" and "epoch_rep p (concat (rs0 # rs1 # rss)) \<Longrightarrow> epoch_rep q (concat (rs1 # rss))"
proof -
  let ?p0 = "p\<lparr>pSegments := s0 # u # segs\<rparr>"
  have rep0: "part_rep ?p0 (rs0 # rs1 # rss)"
  proof (cases "u = s1")
    case True
    then show ?thesis using rep segs by (simp add: part_rep_def active_def)
  next
    case False
    then show ?thesis using part_rep_peek [OF rep segs] u by simp
  qed
  have rep1: "seg_rep s1 rs1" using rep segs by (simp add: part_rep_def)
  then have base: "sgBase u = sgBase s1" using firstTimestamp_rep same_role_base u by blast
  have q: "q = ?p0\<lparr>pSegments := u # segs, pFirstSeq := sgBase u,
      pEpochs := fst (truncateBeforeSeq io_ok (sgBase u) (pEpochs ?p0)), pByteCount := pByteCount ?p0 - segment_bytes s0\<rparr>"
    by (simp add: q_def base)
  show "part_rep q (rs1 # rss)" using drop_oldest_part_rep [OF rep0, of s0 "u # segs"] q by simp
  show "epoch_rep q (concat (rs1 # rss))" if ep: "epoch_rep p (concat (rs0 # rs1 # rss))"
  proof -
    have "epoch_rep ?p0 (concat (rs0 # rs1 # rss))" using ep epoch_rep_cong [of ?p0 p] by simp
    from drop_oldest_ok [OF rep0 _ this, of s0 "u # segs"] show ?thesis unfolding q by simp
  qed
qed

lemma retention_loop_rep:
  assumes "part_rep p rss"
  shows "\<exists>p' j. retention_loop io_ok cutoff p n = (p', n + j, None) \<and> j < length rss \<and> part_rep p' (drop j rss) \<and>
    (epoch_rep p (concat rss) \<longrightarrow> epoch_rep p' (concat (drop j rss))) \<and> pNextSeq p' = pNextSeq p \<and>
    (\<forall>i < j. due (cRetentionBytes (pCfg p)) cutoff (drop i rss)) \<and>
    (j = length rss - 1 \<or> \<not> due (cRetentionBytes (pCfg p)) cutoff (drop j rss))"
  using assms
proof (induction "length rss" arbitrary: p rss n)
  case (Suc l)
  show ?case
  proof (cases "length rss \<le> 1 \<or> \<not> due (cRetentionBytes (pCfg p)) cutoff rss")
    case True
    obtain p' where p': "retention_loop io_ok cutoff p n = (p', n, None)" "part_rep p' rss" "p' = p \<or> (\<exists>ss. p' = p\<lparr>pSegments := ss\<rparr>)"
      using retention_stop [OF Suc.prems True] by blast
    then have "epoch_rep p' (concat rss) = epoch_rep p (concat rss)" "pNextSeq p' = pNextSeq p" by (auto simp: epoch_rep_def)
    then show ?thesis using p'(1,2) True Suc.hyps(2) by (intro exI [of _ p'] exI [of _ 0]) auto
  next
    case False
    then obtain rs0 rs1 rss1 s0 s1 segs where rss: "rss = rs0 # rs1 # rss1" and segs: "pSegments p = s0 # s1 # segs"
      using part_rep_two [OF Suc.prems] by (metis linorder_not_le)
    have d: "due (cRetentionBytes (pCfg p)) cutoff (rs0 # rs1 # rss1)" using False rss by simp
    obtain u where u: "u \<in> {s1, fst (firstTimestamp io_ok s1)}" and step: "retention_loop io_ok cutoff p n = retention_loop io_ok cutoff
      (p\<lparr>pSegments := u # segs, pFirstSeq := sgBase s1, pEpochs := fst (truncateBeforeSeq io_ok (sgBase s1) (pEpochs p)),
         pByteCount := pByteCount p - segment_bytes s0\<rparr>) (n + 1)" (is "_ = retention_loop _ _ ?q _")
      using retention_step [OF Suc.prems [unfolded rss] segs d, of n] by (elim exE conjE)
    note q = drop_oldest_rep [OF Suc.prems [unfolded rss] segs u]
    have "l = length (rs1 # rss1)" using Suc.hyps(2) rss by simp
    then obtain p' j where *: "retention_loop io_ok cutoff ?q (n + 1) = (p', n + 1 + j, None)" "j < length (rs1 # rss1)"
      "part_rep p' (drop j (rs1 # rss1))" "epoch_rep ?q (concat (rs1 # rss1)) \<longrightarrow> epoch_rep p' (concat (drop j (rs1 # rss1)))"
      "pNextSeq p' = pNextSeq ?q" "\<forall>i < j. due (cRetentionBytes (pCfg ?q)) cutoff (drop i (rs1 # rss1))"
      "j = length (rs1 # rss1) - 1 \<or> \<not> due (cRetentionBytes (pCfg ?q)) cutoff (drop j (rs1 # rss1))"
      using Suc.hyps(1) [OF _ q(1), of "n + 1"] by blast
    have "\<forall>i < Suc j. due (cRetentionBytes (pCfg p)) cutoff (drop i rss)"
      using *(6) False rss by (auto simp: less_Suc_eq_0_disj)
    then show ?thesis
      unfolding step *(1) using *(2-5,7) q(2) rss by (intro exI [of _ p'] exI [of _ "Suc j"]) auto
  qed
qed (simp add: part_rep_def)

subsection \<open>Batches\<close>

lemma room_for_mono: "room_for n p \<Longrightarrow> m \<le> n \<Longrightarrow> room_for m p"
  by (simp add: room_for_def)

lemma room_for_next:
  assumes "room_for (Suc n) p" and "pNextSeq q = pNextSeq p + 1"
  shows "room_for n q"
proof -
  have "unat (pNextSeq p + 1) = Suc (unat (pNextSeq p))"
    using assms(1) by (simp add: room_for_def unat_word_ariths)
  then show ?thesis using assms by (simp add: room_for_def)
qed

text \<open>The records a batch appends before it stops, each stamped when its turn comes.\<close>

lemma batch_loop_ok:
  assumes "part_ok p rs" and "room_for (length recs) p" and "\<forall>r \<in> set recs. headers_fit (rHeaders r)"
  shows "\<exists>new. part_ok (fst (batch_loop io_ok now recs seqs p)) (rs @ new) \<and> length new \<le> length recs \<and>
    (\<forall>out. snd (batch_loop io_ok now recs seqs p) = Inr out \<longrightarrow>
      length new = length recs \<and> out = seqs @ map rSeq new \<and> map rPayload new = map rPayload recs)"
  using assms
proof (induction recs arbitrary: p rs seqs)
  case Nil
  then show ?case by (intro exI [of _ "[]"]) simp
next
  case (Cons r recs)
  let ?r = "stamp now p r"
  show ?case
  proof (cases "rFlags r AND FlagEphemeral \<noteq> 0")
    case True
    then show ?thesis using Cons.prems by (intro exI [of _ "[]"]) simp
  next
    case False
    show ?thesis
    proof (cases "encode ?r")
      case (Inl e)
      then show ?thesis using Cons.prems False by (intro exI [of _ "[]"]) (simp add: Let_def)
    next
      case (Inr f)
      obtain ss where ss: "write_encoded io_ok f (pNextSeq p) p = (p\<lparr>pSegments := ss, pNextSeq := pNextSeq p + 1\<rparr>, Inr ())"
        "part_ok (p\<lparr>pSegments := ss, pNextSeq := pNextSeq p + 1, pByteCount := pByteCount p + int (length f)\<rparr>) (rs @ [normalised ?r])"
        using write_ok [OF Cons.prems(1) Inr, of] Cons.prems(2,3) room_for_mono [of "length (r # recs)" p 1] by auto
      let ?q = "p\<lparr>pSegments := ss, pNextSeq := pNextSeq p + 1, pByteCount := pByteCount p + int (length f)\<rparr>"
      have "room_for (length recs) ?q" using room_for_next [of "length recs" p ?q] Cons.prems(2) by simp
      then obtain new where new: "part_ok (fst (batch_loop io_ok now recs (seqs @ [pNextSeq p]) ?q)) ((rs @ [normalised ?r]) @ new)"
        "length new \<le> length recs"
        "\<forall>out. snd (batch_loop io_ok now recs (seqs @ [pNextSeq p]) ?q) = Inr out \<longrightarrow>
          length new = length recs \<and> out = (seqs @ [pNextSeq p]) @ map rSeq new \<and> map rPayload new = map rPayload recs"
        using Cons.IH [OF ss(2), of "seqs @ [pNextSeq p]"] Cons.prems(3) by auto
      have "batch_loop io_ok now (r # recs) seqs p = batch_loop io_ok now recs (seqs @ [pNextSeq p]) ?q"
        using False Inr ss(1) by (simp add: Let_def)
      then show ?thesis using new by (intro exI [of _ "normalised ?r # new"]) simp
    qed
  qed
qed

lemma AppendBatch_ok:
  assumes "part_ok p rs" and "room_for (length recs) p" and "\<forall>r \<in> set recs. headers_fit (rHeaders r)"
  shows "\<exists>new. part_ok (fst (AppendBatch io_ok now recs p)) (rs @ new)"
proof -
  obtain new where new: "part_ok (fst (batch_loop io_ok now recs [] p)) (rs @ new)"
    using batch_loop_ok [OF assms, of now "[]"] by blast
  show ?thesis
  proof (cases "recs = [] \<or> pClosed p \<or> pEnforceLeadership p \<and> \<not> pIsLeader p")
    case True
    then show ?thesis using assms(1) by (intro exI [of _ "[]"]) (auto simp: AppendBatch_def)
  next
    case False
    show ?thesis
    proof (cases "snd (batch_loop io_ok now recs [] p)")
      case (Inl e)
      then show ?thesis using new False by (intro exI [of _ new]) (auto simp: AppendBatch_def split: prod.splits)
    next
      case (Inr out)
      let ?q = "fst (batch_loop io_ok now recs [] p)"
      have "part_ok (?q\<lparr>pByteCount := pByteCount ?q + 0\<rparr>) (rs @ new)" using new by simp
      from finish_append_ok [OF this, of "length recs" out]
      obtain q where "finish_append io_ok (length recs) 0 out ?q = (q, Inr out)" "part_ok q (rs @ new)" by blast
      then show ?thesis
        using Inr False by (intro exI [of _ new]) (auto simp: AppendBatch_def split: prod.splits)
    qed
  qed
qed

subsection \<open>The log, whatever the terms\<close>

text \<open>
  \<open>has_log\<close>: the segments hold a gap-free log. Unlike \<open>part_ok\<close> it says nothing of the epoch history,
  so every operation keeps it whatever terms its records carry.
\<close>

lemma sync_active_rep:
  assumes "part_rep p rss"
  shows "part_rep (fst (sync_active io_ok p)) rss"
proof -
  have "seg_writable (active p)" using assms by (simp add: part_rep_def)
  then obtain s where s: "segment_sync io_ok (active p) = (s, Inr ())" "seg_rep s (last rss)"
    "sgBase s = sgBase (active p)" "seg_writable s"
    using segment_sync_rep [OF active_rep [OF assms]] by auto
  then show ?thesis using set_active_rep [OF assms s(2-4)] by (simp add: sync_active_def)
qed

lemma finish_append_rep:
  assumes "part_rep (p\<lparr>pByteCount := pByteCount p + b\<rparr>) rss"
  shows "part_rep (fst (finish_append io_ok n b x p)) rss"
proof -
  have "part_rep (count_append n b p) rss" using assms by (simp add: count_append_def part_rep_def active_def)
  then show ?thesis using sync_active_rep [of "count_append n b p" rss]
    by (auto simp: finish_append_def Let_def broadcast_def split: prod.splits sum.splits)
qed

definition has_log :: "partition \<Rightarrow> bool" where
  "has_log p \<longleftrightarrow> (\<exists>rss. part_rep p rss)"

lemma has_log_fields [simp]:
  "has_log (p\<lparr>pEpochs := e\<rparr>) = has_log p" "has_log (p\<lparr>pCurEpoch := x\<rparr>) = has_log p"
  "has_log (p\<lparr>pIsLeader := b\<rparr>) = has_log p" "has_log (p\<lparr>pEnforceLeadership := b\<rparr>) = has_log p"
  "has_log (p\<lparr>pBroadcasts := n\<rparr>) = has_log p"
  by (simp_all add: has_log_def)

lemma write_log:
  assumes "has_log p" and enc: "encode r = Inr f" and fit: "headers_fit (rHeaders r)"
    and seq: "rSeq r = pNextSeq p" and room: "room_for 1 p"
  shows "\<exists>ss. write_encoded io_ok f (rSeq r) p = (p\<lparr>pSegments := ss, pNextSeq := rSeq r + 1\<rparr>, Inr ()) \<and>
    has_log (p\<lparr>pSegments := ss, pNextSeq := rSeq r + 1, pByteCount := pByteCount p + int (length f)\<rparr>)"
proof -
  obtain rss where rss: "part_rep p rss" using assms(1) by (auto simp: has_log_def)
  have "unat (pFirstSeq p) + Suc (length (concat rss)) < 2 ^ 64" using room_rss [OF rss room] by simp
  then show ?thesis using write_encoded_rep [OF rss enc fit seq] by (fastforce simp: has_log_def)
qed

lemma finish_append_log:
  "has_log (p\<lparr>pByteCount := pByteCount p + b\<rparr>) \<Longrightarrow> has_log (fst (finish_append io_ok n b x p))"
  using finish_append_rep by (fastforce simp: has_log_def)

lemma Append_log:
  assumes "has_log p" and "headers_fit (rHeaders rec)" and "room_for 1 p"
  shows "has_log (fst (Append io_ok now rec p))"
proof (cases "encode (stamp now p rec)")
  case (Inr f)
  obtain ss where "write_encoded io_ok f (pNextSeq p) p = (p\<lparr>pSegments := ss, pNextSeq := pNextSeq p + 1\<rparr>, Inr ())"
    "has_log (p\<lparr>pSegments := ss, pNextSeq := pNextSeq p + 1, pByteCount := pByteCount p + int (length f)\<rparr>)"
    using write_log [OF assms(1) Inr _ _ assms(3)] assms(2) by auto
  then show ?thesis
    using assms(1) finish_append_log [of "p\<lparr>pSegments := ss, pNextSeq := pNextSeq p + 1\<rparr>" "int (length f)" 1 "pNextSeq p"]
    by (simp add: Append_def Let_def Inr)
qed (use assms(1) in \<open>simp add: Append_def Let_def\<close>)

lemma AppendReplicated_log:
  assumes "has_log p" and "headers_fit (rHeaders rec)" and "room_for 1 p"
  shows "has_log (fst (AppendReplicated io_ok rec p))"
proof -
  let ?pre = "if rEpoch rec > pCurEpoch p then
                (case assign io_ok (rEpoch rec) (rSeq rec) (pEpochs p) of
                   (c, Inl e) \<Rightarrow> (p\<lparr>pEpochs := c\<rparr>, Inl e)
                 | (c, Inr _) \<Rightarrow> (p\<lparr>pEpochs := c, pCurEpoch := rEpoch rec\<rparr>, Inr ()))
              else (p, Inr ())"
  obtain q res where pre: "?pre = (q, res)" by (cases ?pre)
  then have q: "has_log q" "pNextSeq q = pNextSeq p" using assms(1) by (auto split: if_splits prod.splits sum.splits)
  have "has_log (fst (case write_encoded io_ok f (rSeq rec) q of
      (p2, Inl e) \<Rightarrow> (p2, Inl e) | (p2, Inr _) \<Rightarrow> finish_append io_ok 1 (int (length f)) () p2))"
    if f: "encode rec = Inr f" and seq: "rSeq rec = pNextSeq p" for f
  proof -
    obtain ss where "write_encoded io_ok f (rSeq rec) q = (q\<lparr>pSegments := ss, pNextSeq := rSeq rec + 1\<rparr>, Inr ())"
      "has_log (q\<lparr>pSegments := ss, pNextSeq := rSeq rec + 1, pByteCount := pByteCount q + int (length f)\<rparr>)"
      using write_log [OF q(1) f assms(2)] q(2) seq assms(3) by (auto simp: room_for_def)
    then show ?thesis
      using finish_append_log [of "q\<lparr>pSegments := ss, pNextSeq := rSeq rec + 1\<rparr>" "int (length f)" 1 "()"] by simp
  qed
  then show ?thesis
    using assms(1) q(1) unfolding AppendReplicated_def pre by (auto split: sum.splits simp: not_less)
qed

lemma batch_loop_log:
  assumes "has_log p" and "room_for (length recs) p" and "\<forall>r \<in> set recs. headers_fit (rHeaders r)"
  shows "has_log (fst (batch_loop io_ok now recs seqs p))"
  using assms
proof (induction recs arbitrary: p seqs)
  case (Cons r recs)
  show ?case
  proof (cases "encode (stamp now p r)")
    case (Inr f)
    obtain ss where ss: "write_encoded io_ok f (pNextSeq p) p = (p\<lparr>pSegments := ss, pNextSeq := pNextSeq p + 1\<rparr>, Inr ())"
      "has_log (p\<lparr>pSegments := ss, pNextSeq := pNextSeq p + 1, pByteCount := pByteCount p + int (length f)\<rparr>)"
      using write_log [OF Cons.prems(1) Inr] Cons.prems(2,3) room_for_mono [of "length (r # recs)" p 1] by auto
    let ?q = "p\<lparr>pSegments := ss, pNextSeq := pNextSeq p + 1, pByteCount := pByteCount p + int (length f)\<rparr>"
    have "room_for (length recs) ?q" using room_for_next [of "length recs" p ?q] Cons.prems(2) by simp
    then show ?thesis using Cons.IH [OF ss(2), of "seqs @ [pNextSeq p]"] Cons.prems ss(1) Inr by (simp add: Let_def)
  qed (use Cons.prems in \<open>simp add: Let_def\<close>)
qed simp

lemma AppendBatch_log:
  assumes "has_log p" and "room_for (length recs) p" and "\<forall>r \<in> set recs. headers_fit (rHeaders r)"
  shows "has_log (fst (AppendBatch io_ok now recs p))"
  using batch_loop_log [OF assms, of now "[]"] assms(1)
    finish_append_log [of "fst (batch_loop io_ok now recs [] p)" 0 "length recs"]
  by (auto simp: AppendBatch_def split: prod.splits sum.splits)

lemma BecomeLeader_log: "has_log p \<Longrightarrow> has_log (fst (BecomeLeader io x p))"
  by (auto simp: BecomeLeader_def split: prod.splits sum.splits)

lemma TruncateTo_log:
  assumes "has_log p"
  shows "has_log (fst (TruncateTo io_ok q p))"
proof (cases "pNextSeq p \<le> q \<or> q \<le> pFirstSeq p")
  case True
  then show ?thesis using assms by (auto simp: TruncateTo_def)
next
  case False
  obtain rss where rss: "part_rep p rss" using assms by (auto simp: has_log_def)
  let ?k = "unat q - unat (pFirstSeq p)"
  have nx: "unat (pNextSeq p) = unat (pFirstSeq p) + length (concat rss)"
    using rss by (simp add: part_rep_def unat_word_ariths unat_of_nat take_bit_nat_def)
  have q: "q = pFirstSeq p + of_nat ?k" using False by (simp add: word_le_nat_alt of_nat_diff)
  have k: "0 < ?k" "?k < length (concat rss)" using False nx by (auto simp: word_le_nat_alt)
  obtain segs bc s1 s2 b rss' where t: "drop_segments io_ok q (rev (pSegments p)) (pByteCount p) = (rev segs, bc, Inr ())"
    "reopenWritable io_ok (last segs) = (s1, Inr ())" "segment_truncateTo io_ok q s1 = (s2, Inr b)"
    "part_rep (p\<lparr>pSegments := butlast segs @ [s2], pByteCount := bc + (segment_bytes s2 - segment_bytes s1), pNextSeq := q\<rparr>) rss'"
    using TruncateTo_segments [OF rss k q] by blast
  then show ?thesis
    using False assms unfolding TruncateTo_def t(1)
    by (auto simp: Let_def active_def set_active_def broadcast_def has_log_def part_rep_def split: prod.splits sum.splits)
qed

lemma Read_log:
  assumes "has_log p"
  shows "has_log (fst (Read io_ok x n b p))"
proof -
  obtain rss where rss: "part_rep p rss" using assms by (auto simp: has_log_def)
  have ch: "chain (pFirstSeq p) (pSegments p) rss" using rss by (simp add: part_rep_def)
  have "has_log (p\<lparr>pSegments := fst (read_segments io_ok m b y (pSegments p) [] 0)\<rparr>)" for m y
    using read_segments_rep [OF ch part_rep_numbered [OF rss], of m b y "[]" 0] chain_roles [OF rss]
    by (fastforce simp: has_log_def)
  then show ?thesis using assms by (auto simp: Read_def Let_def split: prod.splits) (metis fst_conv)+
qed

subsection \<open>The index files\<close>

definition all_synced :: "partition \<Rightarrow> bool" where
  "all_synced p \<longleftrightarrow> list_all index_synced (pSegments p)"

lemma all_synced_fields [simp]:
  "all_synced (p\<lparr>pIsLeader := b\<rparr>) = all_synced p" "all_synced (p\<lparr>pEnforceLeadership := b\<rparr>) = all_synced p"
  "all_synced (p\<lparr>pEpochs := e\<rparr>) = all_synced p" "all_synced (p\<lparr>pCurEpoch := x\<rparr>) = all_synced p"
  by (simp_all add: all_synced_def)

lemma all_synced_active: "all_synced p \<Longrightarrow> pSegments p \<noteq> [] \<Longrightarrow> index_synced (active p)"
  by (simp add: all_synced_def active_def list_all_iff)

lemma set_active_synced: "all_synced p \<Longrightarrow> index_synced s \<Longrightarrow> all_synced (set_active s p)"
  by (auto simp: all_synced_def set_active_def list_all_iff dest: in_set_butlastD)

lemma set_active_nonempty [simp]: "pSegments (set_active s p) \<noteq> []"
  by (simp add: set_active_def)

lemma rollLocked_synced:
  assumes "all_synced p" and "pSegments p \<noteq> []"
  shows "all_synced (fst (rollLocked io b p)) \<and> pSegments (fst (rollLocked io b p)) \<noteq> []"
proof -
  obtain s1 r1 where f: "segment_flush io (active p) = (s1, r1)" by (cases "segment_flush io (active p)")
  then have "index_synced s1" using segment_flush_synced [of io "active p"] all_synced_active [OF assms] by simp
  moreover obtain s2 r2 where g: "segment_sync io s1 = (s2, r2)" by (cases "segment_sync io s1")
  ultimately have "index_synced s2" "index_synced s1" using segment_sync_synced [of io s1] by simp_all
  then show ?thesis
    using set_active_synced [OF assms(1)] createSegment_synced f g
    by (auto simp: rollLocked_def all_synced_def split: sum.splits)
qed

lemma write_encoded_synced:
  assumes "all_synced p" and "pSegments p \<noteq> []"
  shows "all_synced (fst (write_encoded io f b p)) \<and> pSegments (fst (write_encoded io f b p)) \<noteq> []"
proof -
  let ?roll = "if segment_bytes (active p) + int (length f) > cSegmentBytes (pCfg p) \<and> \<not> isEmpty (active p)
            then rollLocked io b p else (p, Inr ())"
  obtain p1 r where p1: "?roll = (p1, r)" by (cases ?roll)
  then have s: "all_synced p1" "pSegments p1 \<noteq> []"
    using rollLocked_synced [OF assms, of io b] assms by (auto split: if_splits)
  obtain t r' where t: "segment_append io f b (active p1) = (t, r')" by (cases "segment_append io f b (active p1)")
  then have "index_synced t" using segment_append_synced [OF all_synced_active [OF s], of io f b] by simp
  then show ?thesis
    using s set_active_synced [OF s(1), of t] set_active_nonempty [of t p1] t unfolding write_encoded_def p1
    by (auto simp: all_synced_def split: sum.splits)
qed

lemma sync_active_synced:
  assumes "all_synced p" and "pSegments p \<noteq> []"
  shows "all_synced (fst (sync_active io p))"
  using set_active_synced [OF assms(1)] segment_sync_synced [of io "active p"] all_synced_active [OF assms]
  by (auto simp: sync_active_def split: prod.splits)

lemma finish_append_synced:
  assumes "all_synced p" and "pSegments p \<noteq> []"
  shows "all_synced (fst (finish_append io n b x p))"
proof -
  have "all_synced (count_append n b p)" "pSegments (count_append n b p) \<noteq> []"
    using assms by (simp_all add: count_append_def all_synced_def)
  then show ?thesis using sync_active_synced [of "count_append n b p" io]
    by (auto simp: finish_append_def Let_def broadcast_def all_synced_def split: prod.splits sum.splits)
qed

lemma Append_synced:
  assumes "all_synced p" and "pSegments p \<noteq> []"
  shows "all_synced (fst (Append io now rec p))"
proof (cases "encode (stamp now p rec)")
  case (Inr f)
  obtain p1 w where p1: "write_encoded io f (pNextSeq p) p = (p1, w)" by (cases "write_encoded io f (pNextSeq p) p")
  then have "all_synced p1" "pSegments p1 \<noteq> []" using write_encoded_synced [OF assms, of io f "pNextSeq p"] by simp_all
  then show ?thesis using assms(1) finish_append_synced [of p1 io 1 "int (length f)" "pNextSeq p"] Inr p1
    by (auto simp: Append_def Let_def split: sum.splits)
qed (use assms in \<open>simp add: Append_def Let_def\<close>)

lemma AppendReplicated_synced:
  assumes "all_synced p" and "pSegments p \<noteq> []"
  shows "all_synced (fst (AppendReplicated io rec p))"
proof -
  have w: "all_synced (fst (case write_encoded io f (rSeq rec) q of
      (p2, Inl e) \<Rightarrow> (p2, Inl e) | (p2, Inr _) \<Rightarrow> finish_append io 1 (int (length f)) () p2))"
    if "pSegments q = pSegments p" for f q
    using write_encoded_synced [of q io f "rSeq rec"] finish_append_synced [of "fst (write_encoded io f (rSeq rec) q)" io] that assms
    by (auto simp: all_synced_def split: prod.splits sum.splits)
  let ?pre = "if rEpoch rec > pCurEpoch p then
                (case assign io (rEpoch rec) (rSeq rec) (pEpochs p) of
                   (c, Inl e) \<Rightarrow> (p\<lparr>pEpochs := c\<rparr>, Inl e)
                 | (c, Inr _) \<Rightarrow> (p\<lparr>pEpochs := c, pCurEpoch := rEpoch rec\<rparr>, Inr ()))
              else (p, Inr ())"
  obtain q res where pre: "?pre = (q, res)" by (cases ?pre)
  then have q: "pSegments q = pSegments p" by (auto split: if_splits prod.splits sum.splits)
  then show ?thesis
    using assms w [OF q] unfolding AppendReplicated_def pre by (auto simp: all_synced_def split: sum.splits)
qed

lemma batch_loop_synced:
  "all_synced p \<Longrightarrow> pSegments p \<noteq> [] \<Longrightarrow>
     all_synced (fst (batch_loop io now recs seqs p)) \<and> pSegments (fst (batch_loop io now recs seqs p)) \<noteq> []"
proof (induction recs arbitrary: p seqs)
  case (Cons r recs)
  show ?case
  proof (cases "encode (stamp now p r)")
    case (Inr f)
    obtain p1 w where p1: "write_encoded io f (pNextSeq p) p = (p1, w)" by (cases "write_encoded io f (pNextSeq p) p")
    then have "all_synced p1" "pSegments p1 \<noteq> []" using write_encoded_synced [OF Cons.prems, of io f "pNextSeq p"] by simp_all
    then show ?thesis
      using Cons.IH [of "p1\<lparr>pByteCount := pByteCount p1 + int (length f)\<rparr>" "seqs @ [pNextSeq p]"] Cons.prems Inr p1
      by (auto simp: Let_def all_synced_def split: sum.splits)
  qed (use Cons.prems in \<open>simp add: Let_def\<close>)
qed simp

lemma AppendBatch_synced:
  assumes "all_synced p" and "pSegments p \<noteq> []"
  shows "all_synced (fst (AppendBatch io now recs p))"
  using batch_loop_synced [OF assms, of io now recs "[]"] assms
    finish_append_synced [of "fst (batch_loop io now recs [] p)" io "length recs" 0]
  by (auto simp: AppendBatch_def split: prod.splits sum.splits)

lemma drop_segments_synced:
  "list_all index_synced ss \<Longrightarrow> ss \<noteq> [] \<Longrightarrow> list_all index_synced (fst (drop_segments io_ok q ss bc)) \<and> fst (drop_segments io_ok q ss bc) \<noteq> []"
  by (induction io_ok q ss bc rule: drop_segments.induct) auto

lemma TruncateTo_synced:
  assumes "all_synced p" and "pSegments p \<noteq> []"
  shows "all_synced (fst (TruncateTo io_ok q p))"
proof -
  obtain segs bc r where d: "drop_segments io_ok q (rev (pSegments p)) (pByteCount p) = (segs, bc, r)"
    by (cases "drop_segments io_ok q (rev (pSegments p)) (pByteCount p)")
  let ?p1 = "p\<lparr>pSegments := rev segs, pByteCount := bc\<rparr>"
  have s: "all_synced ?p1" "pSegments ?p1 \<noteq> []"
    using drop_segments_synced [of "rev (pSegments p)" q "pByteCount p"] assms d by (auto simp: all_synced_def)
  obtain s1 r1 where s1: "reopenWritable io_ok (active ?p1) = (s1, r1)" by (cases "reopenWritable io_ok (active ?p1)")
  then have i1: "index_synced s1" using reopenWritable_synced [OF all_synced_active [OF s], of io_ok] by simp
  obtain s2 r2 where s2: "segment_truncateTo io_ok q s1 = (s2, r2)" by (cases "segment_truncateTo io_ok q s1")
  then have "index_synced s2" using segment_truncateTo_synced [OF i1, of q] by simp
  then show ?thesis
    using assms(1) s(1) set_active_synced [OF s(1), of s1] set_active_synced [OF s(1), of s2] i1 d s1 s2
    by (auto simp: TruncateTo_def Let_def all_synced_def broadcast_def split: sum.splits prod.splits)
qed

lemma firstTimestamp_synced: "index_synced s \<Longrightarrow> index_synced (fst (firstTimestamp io s))"
  using segment_read_synced [of io "sgBase s" 1 0 s] by (auto simp: firstTimestamp_def split: prod.splits)

lemma retention_loop_synced: "all_synced p \<Longrightarrow> all_synced (fst (retention_loop io cutoff p n))"
proof (induction io cutoff p n rule: retention_loop.induct)
  case (1 io cutoff p n)
  show ?case
  proof (cases "pClosed p \<or> length (pSegments p) \<le> 1")
    case True
    then show ?thesis using "1.prems" by (subst retention_loop.simps) simp
  next
    case False
    then obtain s0 s1 segs where segs: "pSegments p = s0 # s1 # segs" by (cases "pSegments p"; cases "tl (pSegments p)") auto
    obtain t ts where ft: "firstTimestamp io s1 = (t, ts)" by (cases "firstTimestamp io s1")
    have "index_synced t" using firstTimestamp_synced [of s1 io] "1.prems" segs ft by (simp add: all_synced_def)
    then show ?thesis
      using "1.IH" [OF False refl refl _ refl refl refl _ refl refl] "1.prems" segs ft False
      by (subst retention_loop.simps) (auto simp: Let_def all_synced_def split: prod.splits sum.splits)
  qed
qed

lemma EnforceRetention_synced: "all_synced p \<Longrightarrow> all_synced (fst (EnforceRetention io now p))"
  using retention_loop_synced by (auto simp: EnforceRetention_def Let_def)

lemma read_segments_synced:
  "list_all index_synced segs \<Longrightarrow> list_all index_synced (fst (read_segments io m b x segs out used))"
proof (induction segs arbitrary: x out used)
  case (Cons s segs)
  let ?read = "segment_read io x (m - int (length out)) (if b > 0 then b - used else 0) s"
  obtain s' recs e where r: "?read = (s', recs, e)" by (metis prod_cases3)
  have "index_synced s" and segs: "list_all index_synced segs" using Cons.prems by simp_all
  then have s': "index_synced s'" using segment_read_synced [of io x "m - int (length out)" "if b > 0 then b - used else 0" s] r by simp
  note IH = Cons.IH [OF segs]
  show ?case
    using Cons.prems s' IH [of x out used]
      IH [of "if recs \<noteq> [] then rSeq (last recs) + 1 else x" "out @ recs" "used + int (sum_list (map encodedSize recs))"]
    by (cases e; cases "recs = []") (simp_all add: r case_prod_beta)
qed simp

lemma Read_synced: "all_synced p \<Longrightarrow> all_synced (fst (Read io x n b p))"
  using read_segments_synced [of "pSegments p" io]
  by (auto simp: Read_def Let_def all_synced_def split: prod.splits) (metis fst_conv)+

subsection \<open>Reopening after a crash\<close>

text \<open>
  What a crash leaves of the segment files: the sealed segments whole, which the roll has synced,
  and of the active one any \<open>n\<close> bytes of its log and any \<open>m\<close> bytes of its index file.
\<close>

fun crash_disk :: "nat \<Rightarrow> nat \<Rightarrow> segment list \<Rightarrow> segment_files" where
  "crash_disk n m [] = []"
| "crash_disk n m (s # ss) =
     (if ss = [] then [(sgBase s, take n (seg_content s), map_option (take m) (sgIdxFile s))]
      else (sgBase s, seg_content s, sgIdxFile s) # crash_disk n m ss)"

lemma crash_disk_eq_Nil [simp]: "crash_disk n m ss = [] \<longleftrightarrow> ss = []"
  by (cases ss) auto

lemma open_segments_crash:
  assumes "chain b segs rss" and "segs \<noteq> []" and "length (frames (concat rss)) < 2 ^ 63" and "list_all index_synced segs"
  shows "\<exists>segs'. open_segments io_ok interval (crash_disk n m segs) = Inr segs' \<and>
    chain b segs' (butlast rss @ [whole n (last rss)]) \<and> segs' \<noteq> [] \<and> list_all seg_usable segs' \<and> seg_writable (last segs') \<and>
    sgBase (last segs') = sgBase (last segs)"
  using assms
proof (induction b segs rss rule: chain.induct)
  case (2 b s segs rs rss)
  have rep: "list_all storable rs" "numbered b rs" "index_ok b rs (sgIndex s)" "seg_content s = frames rs" "sgBase s = b"
    and idx: "sgIdxFile s = Some (encodeIndex (sgIndex s))"
    and len: "length (frames rs) < 2 ^ 63" "length (frames (concat rss)) < 2 ^ 63"
    using 2 by (auto simp: seg_rep_def index_synced_def)
  show ?case
  proof (cases "segs = []")
    case True
    moreover from this "2.prems"(1) have "rss = []" by (cases rss) auto
    moreover have "take m (encodeIndex (sgIndex s)) = take (min m (length (encodeIndex (sgIndex s)))) (encodeIndex (sgIndex s))"
      by (simp add: min_def)
    ultimately show ?thesis
      using openSegment_torn [OF rep(1-3) len(1), of False n "min m (length (encodeIndex (sgIndex s)))" interval] rep(4,5) idx
      by (auto simp: seg_usable_writable)
  next
    case False
    then have "rss \<noteq> []" using "2.prems"(1) by (cases segs; cases rss) auto
    obtain t where t: "openSegment io_ok b interval True (seg_content s) (sgIdxFile s) = Inr t"
        "seg_rep t rs" "sgBase t = b"
      using openSegment_torn [OF rep(1-3) len(1), of True "length (frames rs)" "length (encodeIndex (sgIndex s))" interval]
        whole_split [of "length rs" rs "length (frames rs)"] rep(4) idx by auto
    have us: "seg_usable t"
      using t(1) by (auto simp: openSegment_def Let_def loadIndex_def recover_segment_def seg_usable_def
          split: prod.splits if_splits sum.splits option.splits)
    obtain segs' where "open_segments io_ok interval (crash_disk n m segs) = Inr segs'"
        "chain (b + of_nat (length rs)) segs' (butlast rss @ [whole n (last rss)])" "segs' \<noteq> []" "list_all seg_usable segs'"
        "seg_writable (last segs')" "sgBase (last segs') = sgBase (last segs)"
      using 2 False len(2) by auto
    then show ?thesis using False \<open>rss \<noteq> []\<close> t us rep(5) by auto
  qed
qed simp_all

lemma OpenPartition_crash:
  assumes rep: "part_rep p rss" and idx: "all_synced p" and small: "length (frames (concat rss)) < 2 ^ 63"
    and ep: "openEpochCache io_ok ef = Inr c"
  shows "\<exists>q. OpenPartition io_ok cfg ef (crash_disk n m (pSegments p)) = Inr q \<and>
    part_rep q (butlast rss @ [whole n (last rss)]) \<and> pFirstSeq q = pFirstSeq p \<and> pEpochs q = c \<and>
    pCurEpoch q = fst (latest c) \<and> pNextSeq q = sgBase (active p) + of_nat (length (whole n (last rss)))"
proof -
  have ch: "chain (pFirstSeq p) (pSegments p) rss" and ne: "pSegments p \<noteq> []" "rss \<noteq> []"
    using rep chain_length [of "pFirstSeq p" "pSegments p" rss] by (auto simp: part_rep_def)
  let ?rss = "butlast rss @ [whole n (last rss)]"
  obtain segs where segs: "open_segments io_ok (cIndexInterval (applyDefaults cfg)) (crash_disk n m (pSegments p)) = Inr segs"
      "chain (pFirstSeq p) segs ?rss" "segs \<noteq> []" "list_all seg_usable segs" "seg_writable (last segs)"
      "sgBase (last segs) = sgBase (active p)"
    using open_segments_crash [OF ch ne(1) small, of "cIndexInterval (applyDefaults cfg)" n m] idx by (auto simp: active_def all_synced_def)
  have "sgBase (hd segs) = pFirstSeq p" using segs(2,3) by (cases segs; cases ?rss) auto
  moreover have last: "sgLastSeq (last segs) + 1 = sgBase (active p) + of_nat (length (whole n (last rss)))"
  proof -
    have "length segs = length ?rss" by (rule chain_length [OF segs(2)])
    then have "seg_rep (last segs) (last ?rss)"
      using chain_seg_rep [OF segs(2), of "length segs - 1"] segs(3) by (simp add: last_conv_nth nth_append)
    then show ?thesis using segs(6) by (simp add: seg_rep_def)
  qed
  moreover have "length (concat ?rss) \<le> length (concat rss)"
    using ne(2) length_whole [of n "last rss"] by (cases rss rule: rev_cases) auto
  moreover have "sgBase (active p) + of_nat (length (whole n (last rss))) = pFirstSeq p + of_nat (length (concat ?rss))"
    using chain_nth_base [OF ch, of "length (pSegments p) - 1"] chain_length [OF ch] ne
    by (simp add: active_def last_conv_nth butlast_conv_take)
  ultimately show ?thesis
    using segs rep ne chain_bytes [OF segs(2)]
    by (auto simp: OpenPartition_def Let_def ep part_rep_def active_def lastSequence_def)
qed

subsection \<open>The life of a partition\<close>

text \<open>
  One operation of a running partition with every system call succeeding. The guards are the
  ones the callers keep: headers that fit the record format and sequence space left. The parameter
  says which records a leader sends this follower: any record at all (\<open>any_term\<close>), or none with a
  term older than the one the follower already knows (\<open>newer_term\<close>).
\<close>

definition newer_term :: "partition \<Rightarrow> stream_record \<Rightarrow> bool" where
  "newer_term p r \<longleftrightarrow> pCurEpoch p \<le> rEpoch r"

definition any_term :: "partition \<Rightarrow> stream_record \<Rightarrow> bool" where
  "any_term p r \<longleftrightarrow> True"

inductive part_run :: "(partition \<Rightarrow> stream_record \<Rightarrow> bool) \<Rightarrow> partition \<Rightarrow> partition \<Rightarrow> bool" for guard where
  pr_append: "headers_fit (rHeaders rec) \<Longrightarrow> room_for 1 p \<Longrightarrow> part_run guard p (fst (Append io_ok now rec p))"
| pr_batch: "\<forall>r \<in> set recs. headers_fit (rHeaders r) \<Longrightarrow> room_for (length recs) p \<Longrightarrow>
    part_run guard p (fst (AppendBatch io_ok now recs p))"
| pr_replicated: "headers_fit (rHeaders rec) \<Longrightarrow> room_for 1 p \<Longrightarrow> guard p rec \<Longrightarrow>
    part_run guard p (fst (AppendReplicated io_ok rec p))"
| pr_leader: "part_run guard p (fst (BecomeLeader io_ok x p))"
| pr_reassert: "part_run guard p (fst (ReassertLeadership x p))"
| pr_resign: "part_run guard p (Resign p)"
| pr_enforce: "part_run guard p (EnforceLeadership on p)"
| pr_truncate: "part_run guard p (fst (TruncateTo io_ok q p))"
| pr_retention: "part_run guard p (fst (EnforceRetention io_ok now p))"
| pr_read: "part_run guard p (fst (Read io_ok x n b p))"
| pr_sync: "part_run guard p (fst (Sync io_ok p))"

text \<open>
  The life of a partition over its files: any operation, closing, and a restart after a crash with
  any configuration and any epoch file that the epoch cache accepts. A clean restart is the case where \<open>n\<close> and \<open>m\<close>
  cover both files. The files of a restart have to be intact in one respect, that each index file
  holds its segment's index: \<open>torn_index_destroys_segment\<close> shows what happens otherwise.
\<close>

definition disk_bytes :: "partition \<Rightarrow> nat" where
  "disk_bytes p = sum_list (map (\<lambda>s. length (seg_content s)) (pSegments p))"

inductive part_step :: "partition \<Rightarrow> partition \<Rightarrow> bool" where
  ps_run: "part_run any_term p q \<Longrightarrow> part_step p q"
| ps_close: "part_step p (fst (Close io_ok p))"
| ps_restart: "\<not> pClosed p \<Longrightarrow> all_synced p \<Longrightarrow> disk_bytes p < 2 ^ 63 \<Longrightarrow>
    OpenPartition io_ok cfg ef (crash_disk n m (pSegments p)) = Inr q \<Longrightarrow> part_step p q"

definition part_init :: "partition \<Rightarrow> bool" where
  "part_init p \<longleftrightarrow> (\<exists>cfg. OpenPartition io_ok cfg None [] = Inr p)"

definition part_inv :: "partition \<Rightarrow> bool" where
  "part_inv p \<longleftrightarrow> (\<exists>rs. part_ok p rs)"

lemma part_init_ok: "OpenPartition io_ok cfg None [] = Inr p \<Longrightarrow> part_ok p []"
proof -
  assume p: "OpenPartition io_ok cfg None [] = Inr p"
  obtain s where s: "createSegment io_ok 1 (cIndexInterval (applyDefaults cfg)) ([], []) = Inr s" "seg_rep s []" "sgBase s = 1" "seg_writable s"
    using createSegment_rep [of 1 "cIndexInterval (applyDefaults cfg)"] by auto
  have "part_rep p [[]]"
    using p s by (auto simp: OpenPartition_def Let_def openEpochCache_def part_rep_def active_def seg_usable_writable)
  moreover have "epoch_rep p []"
    using p s by (auto simp: OpenPartition_def Let_def openEpochCache_def epoch_rep_def)
  ultimately show "part_ok p []" by (auto simp: part_ok_def)
qed

lemma part_ok_flags [simp]:
  "part_ok (p\<lparr>pIsLeader := b\<rparr>) rs = part_ok p rs" "part_ok (p\<lparr>pEnforceLeadership := b\<rparr>) rs = part_ok p rs"
  by (simp_all add: part_ok_def epoch_rep_def)

lemma Append_inv:
  assumes "part_ok p rs" and "headers_fit (rHeaders rec)" and "room_for 1 p"
  shows "part_inv (fst (Append io_ok now rec p))"
proof (cases "rFlags rec AND FlagEphemeral = 0 \<and> IsLeader p \<and> (\<exists>f. encode (stamp now p rec) = Inr f)")
  case True
  then show ?thesis using Append_ok [OF assms(1,3,2)] by (force simp: part_inv_def)
next
  case False
  then have "fst (Append io_ok now rec p) = p"
    by (auto simp: Append_def IsLeader_def Let_def split: sum.splits)
  then show ?thesis using assms(1) by (auto simp: part_inv_def)
qed

lemma AppendReplicated_inv:
  assumes "part_ok p rs" and "headers_fit (rHeaders rec)" and "room_for 1 p" and "pCurEpoch p \<le> rEpoch rec"
  shows "part_inv (fst (AppendReplicated io_ok rec p))"
proof (cases "rFlags rec AND FlagEphemeral = 0 \<and> rSeq rec = pNextSeq p")
  case True
  show ?thesis
  proof (cases "encode rec")
    case (Inl e)
    have "\<exists>q. AppendReplicated io_ok rec p = (q, Inl e) \<and> part_ok q rs"
      using True part_ok_open [OF assms(1)] part_ok_next_nonzero [OF assms(1)] Inl assms(1) new_term_ok [OF assms(1), of "rEpoch rec"]
      by (cases "rEpoch rec > pCurEpoch p") (auto simp: AppendReplicated_def)
    then show ?thesis by (auto simp: part_inv_def)
  next
    case (Inr f)
    then show ?thesis using AppendReplicated_ok [OF assms(1,3,2) Inr] True assms(4) by (force simp: part_inv_def)
  qed
next
  case False
  then have "fst (AppendReplicated io_ok rec p) = p" by (auto simp: AppendReplicated_def)
  then show ?thesis using assms(1) by (auto simp: part_inv_def)
qed

lemma BecomeLeader_inv: "part_ok p rs \<Longrightarrow> part_inv (fst (BecomeLeader io_ok x p))"
  using BecomeLeader_ok [of p rs x] by (cases "x = UndefinedEpoch \<or> x \<le> pCurEpoch p") (force simp: part_inv_def BecomeLeader_def)+

lemma TruncateTo_inv:
  assumes "part_ok p rs"
  shows "part_inv (fst (TruncateTo io_ok q p))"
proof (cases "pNextSeq p \<le> q \<or> q \<le> pFirstSeq p")
  case True
  then have "fst (TruncateTo io_ok q p) = p" by (auto simp: TruncateTo_def)
  then show ?thesis using assms by (auto simp: part_inv_def)
next
  case False
  let ?k = "unat q - unat (pFirstSeq p)"
  have num: "numbered (pFirstSeq p) rs" "pNextSeq p = pFirstSeq p + of_nat (length rs)" using part_ok_numbered [OF assms] by auto
  have nx: "unat (pNextSeq p) = unat (pFirstSeq p) + length rs" using numbered_unat [OF num(1), of "length rs"] num(2) by simp
  have q: "pFirstSeq p + of_nat ?k = q"
    using False by (simp add: word_le_nat_alt of_nat_diff)
  have "0 < ?k" "?k < length rs" using False nx by (auto simp: word_le_nat_alt)
  then show ?thesis using TruncateTo_ok [OF assms, of ?k] unfolding q by (auto simp: part_inv_def)
qed

lemma part_invI: "part_rep p rss \<Longrightarrow> epoch_rep p (concat rss) \<Longrightarrow> part_inv p"
  by (auto simp: part_inv_def part_ok_def)

lemma AppendBatch_inv:
  "part_ok p rs \<Longrightarrow> \<forall>r \<in> set recs. headers_fit (rHeaders r) \<Longrightarrow> room_for (length recs) p \<Longrightarrow>
     part_inv (fst (AppendBatch io_ok now recs p))"
  using AppendBatch_ok [of p rs recs now] unfolding part_inv_def by blast

lemma EnforceRetention_inv:
  assumes "part_ok p rs"
  shows "part_inv (fst (EnforceRetention io_ok now p))"
proof -
  obtain rss where rss: "part_rep p rss" "epoch_rep p (concat rss)" using assms by (auto simp: part_ok_def)
  have "part_inv (fst (retention_loop io_ok c p 0))" for c
    using retention_loop_rep [OF rss(1), of c 0] rss(2) by (auto intro: part_invI)
  then show ?thesis using assms by (auto simp: EnforceRetention_def Let_def part_inv_def)
qed

lemma Read_inv: "part_ok p rs \<Longrightarrow> part_inv (fst (Read io_ok x n b p))"
proof (cases "x = 0 \<or> pFirstSeq p \<le> x")
  case True
  assume "part_ok p rs"
  from Read_ok [OF this True, of n b] show ?thesis by (auto simp: part_inv_def)
next
  case False
  assume "part_ok p rs"
  with False show ?thesis by (auto simp: Read_def Let_def part_inv_def not_le)
qed

lemma part_inv_flags [simp]:
  "part_inv (p\<lparr>pIsLeader := b\<rparr>) = part_inv p" "part_inv (p\<lparr>pEnforceLeadership := b\<rparr>) = part_inv p"
  by (simp_all add: part_inv_def)

lemma disk_bytes_rep: "part_rep p rss \<Longrightarrow> disk_bytes p = length (frames (concat rss))"
proof -
  have "chain b ss rs \<Longrightarrow> sum_list (map (\<lambda>s. length (seg_content s)) ss) = length (frames (concat rs))" for b ss rs
    by (induction b ss rs rule: chain.induct) (simp_all add: seg_rep_def)
  then show "part_rep p rss \<Longrightarrow> disk_bytes p = length (frames (concat rss))" by (auto simp: disk_bytes_def part_rep_def)
qed

definition log_inv :: "partition \<Rightarrow> bool" where
  "log_inv p \<longleftrightarrow> pClosed p \<or> has_log p"

lemma EnforceRetention_log:
  assumes "has_log p"
  shows "has_log (fst (EnforceRetention io_ok now p))"
proof -
  obtain rss where rss: "part_rep p rss" using assms by (auto simp: has_log_def)
  have "has_log (fst (retention_loop io_ok c p 0))" for c
    using retention_loop_rep [OF rss, of c 0] by (auto simp: has_log_def)
  then show ?thesis using assms by (auto simp: EnforceRetention_def Let_def)
qed

lemma part_run_open:
  assumes "part_run guard p q" and "has_log p"
  shows "has_log q"
  using assms(1)
proof cases
  case (pr_reassert x)
  then show ?thesis using assms(2) by (auto simp: ReassertLeadership_def)
next
  case pr_sync
  obtain rss where "part_rep p rss" using assms(2) by (auto simp: has_log_def)
  then show ?thesis using pr_sync assms(2) sync_active_rep by (auto simp: Sync_def has_log_def)
qed (use assms(2) in \<open>simp_all add: Append_log AppendBatch_log AppendReplicated_log BecomeLeader_log TruncateTo_log
  EnforceRetention_log Read_log Resign_def EnforceLeadership_def del: One_nat_def\<close>)

lemma part_run_closed: "part_run guard p q \<Longrightarrow> pClosed p \<Longrightarrow> pClosed q"
  by (induction rule: part_run.induct)
     (auto simp: Append_def AppendBatch_def AppendReplicated_def BecomeLeader_def ReassertLeadership_def Resign_def
        EnforceLeadership_def TruncateTo_def EnforceRetention_def Read_def Sync_def Let_def retention_loop.simps)

interpretation part: state_machine part_init part_step log_inv
proof unfold_locales
  show "log_inv p" if "part_init p" for p
    using that part_init_ok by (auto simp: part_init_def log_inv_def has_log_def part_ok_def)
  show "log_inv q" if inv: "log_inv p" and "part_step p q" for p q
    using that(2)
  proof cases
    case ps_run
    then show ?thesis using inv part_run_open part_run_closed by (auto simp: log_inv_def)
  next
    case ps_close
    then show ?thesis by (simp add: log_inv_def Close_def broadcast_def)
  next
    case (ps_restart cfg ef n m)
    then obtain rss where rss: "part_rep p rss" using inv by (auto simp: log_inv_def has_log_def)
    obtain c where c: "openEpochCache io_ok ef = Inr c"
      using ps_restart(4) by (cases "openEpochCache io_ok ef") (simp_all add: OpenPartition_def Let_def)
    then show ?thesis
      using OpenPartition_crash [OF rss ps_restart(2) _ c, of cfg n m] ps_restart(3,4) disk_bytes_rep [OF rss]
      by (auto simp: log_inv_def has_log_def)
  qed
qed

lemma part_run_synced:
  assumes "part_run guard p q" and "all_synced p" and "has_log p"
  shows "all_synced q"
proof -
  have ne: "pSegments p \<noteq> []" using assms(3) chain_length by (fastforce simp: has_log_def part_rep_def)
  show ?thesis using assms(1)
  proof cases
    case (pr_leader x)
    then show ?thesis using assms(2) by (auto simp: BecomeLeader_def split: prod.splits sum.splits)
  next
    case pr_sync
    then show ?thesis using assms(2) ne sync_active_synced by (auto simp: Sync_def)
  qed (use assms(2) ne in \<open>auto simp: Append_synced AppendBatch_synced AppendReplicated_synced TruncateTo_synced
    EnforceRetention_synced Read_synced Resign_def EnforceLeadership_def ReassertLeadership_def\<close>)
qed

lemma part_run_any: "part_run guard p q \<Longrightarrow> part_run any_term p q"
  by (induction rule: part_run.induct) (auto intro: part_run.intros simp: any_term_def)

lemma part_init_synced: "OpenPartition io_ok cfg None [] = Inr p \<Longrightarrow> all_synced p"
  using createSegment_synced by (auto simp: OpenPartition_def Let_def openEpochCache_def all_synced_def split: sum.splits)

interpretation runs: state_machine part_init "part_run any_term" "\<lambda>p. has_log p \<and> all_synced p"
proof unfold_locales
  show "has_log p \<and> all_synced p" if "part_init p" for p
    using that part_init_ok part_init_synced unfolding part_init_def has_log_def part_ok_def by blast
  show "has_log q \<and> all_synced q" if "has_log p \<and> all_synced p" "part_run any_term p q" for p q
    using that part_run_open part_run_synced by blast
qed

interpretation terms: state_machine part_init "part_run newer_term" part_inv
proof unfold_locales
  show "part_inv p" if "part_init p" for p
    using that part_init_ok by (auto simp: part_init_def part_inv_def)
  show "part_inv q" if inv: "part_inv p" and "part_run newer_term p q" for p q
  proof -
    obtain rs where rs: "part_ok p rs" using inv by (auto simp: part_inv_def)
    from that(2) show ?thesis
    proof cases
      case (pr_reassert x)
      then show ?thesis using rs by (auto simp: ReassertLeadership_def part_inv_def)
    next
      case pr_sync
      then show ?thesis using rs sync_active_ok [OF rs] by (auto simp: Sync_def part_inv_def)
    qed (use rs in \<open>auto intro: Append_inv AppendBatch_inv AppendReplicated_inv BecomeLeader_inv TruncateTo_inv EnforceRetention_inv Read_inv
        simp: newer_term_def Resign_def EnforceLeadership_def inv simp del: One_nat_def\<close>)
  qed
qed


lemma run_reachable: "reachable part_init (part_run guard) p \<Longrightarrow> reachable part_init part_step p"
  by (induction rule: reachable.induct) (auto intro: reachable.intros ps_run part_run_any)

lemma run_synced: "reachable part_init (part_run guard) p \<Longrightarrow> all_synced p"
proof -
  have "reachable part_init (part_run guard) p \<Longrightarrow> reachable part_init (part_run any_term) p"
    by (induction rule: reachable.induct) (auto intro: reachable.intros part_run_any)
  then show "reachable part_init (part_run guard) p \<Longrightarrow> all_synced p" using runs.reachable_inv by blast
qed

lemmas term_reachable = terms.reachable_inv [unfolded part_inv_def]

subsection \<open>Properties\<close>


lemma rollLocked_guards:
  "pEnforceLeadership (fst (rollLocked io b p)) = pEnforceLeadership p \<and> pCurEpoch (fst (rollLocked io b p)) = pCurEpoch p"
  by (auto simp: rollLocked_def set_active_def split: prod.splits sum.splits)

lemma write_encoded_guards:
  "pEnforceLeadership (fst (write_encoded io f b p)) = pEnforceLeadership p \<and> pCurEpoch (fst (write_encoded io f b p)) = pCurEpoch p"
  using rollLocked_guards [of io b p]
  by (auto simp: write_encoded_def set_active_def split: prod.splits sum.splits if_splits)

lemma finish_append_guards:
  "pEnforceLeadership (fst (finish_append io n b x p)) = pEnforceLeadership p \<and> pCurEpoch (fst (finish_append io n b x p)) = pCurEpoch p"
  by (auto simp: finish_append_def count_append_def sync_active_def set_active_def broadcast_def Let_def
      split: prod.splits sum.splits)

lemma Append_guards:
  "pEnforceLeadership (fst (Append io now rec p)) = pEnforceLeadership p \<and> pCurEpoch (fst (Append io now rec p)) = pCurEpoch p"
proof (cases "encode (stamp now p rec)")
  case (Inr f)
  show ?thesis
    using Inr write_encoded_guards [of io f "pNextSeq p" p] by (auto simp: Append_def Let_def finish_append_guards split: prod.splits sum.splits)
qed (simp add: Append_def Let_def)

lemma set_active_length: "pSegments p \<noteq> [] \<Longrightarrow> length (pSegments (set_active s p)) = length (pSegments p)"
  by (cases "pSegments p" rule: rev_cases) (simp_all add: set_active_def)

lemma finish_append_length:
  "pSegments p \<noteq> [] \<Longrightarrow> length (pSegments (fst (finish_append io n b x p))) = length (pSegments p)"
  using set_active_length [of "count_append n b p"]
  by (auto simp: finish_append_def count_append_def sync_active_def broadcast_def Let_def split: prod.splits sum.splits)

lemma Append_no_roll:
  assumes "isEmpty (active p)" and "pSegments p \<noteq> []"
  shows "length (pSegments (fst (Append io now rec p))) = length (pSegments p)"
proof -
  have w: "length (pSegments (fst (write_encoded io f b p))) = length (pSegments p)" for f b
    using assms set_active_length [OF assms(2)] by (auto simp: write_encoded_def split: prod.splits sum.splits)
  show ?thesis
  proof (cases "encode (stamp now p rec)")
    case (Inr f)
    obtain p1 r where p1: "write_encoded io f (pNextSeq p) p = (p1, r)" by (cases "write_encoded io f (pNextSeq p) p")
    then have "length (pSegments p1) = length (pSegments p)" using w [of f "pNextSeq p"] by simp
    moreover from this assms(2) have "pSegments p1 \<noteq> []" by auto
    ultimately show ?thesis
      using Inr p1 finish_append_length [of p1 io 1 "int (length f)" "pNextSeq p"] by (cases r) (simp_all add: Append_def Let_def)
  qed (simp add: Append_def Let_def)
qed

definition sample_partition :: partition where
  "sample_partition =
     (case OpenPartition io_ok DefaultPartitionConfig None [] of
        Inr p \<Rightarrow> fst (Append io_ok 5 sample_record (fst (BecomeLeader io_ok 1 p))))"

lemma open_sample: "\<exists>p. OpenPartition io_ok DefaultPartitionConfig None [] = Inr p"
  by (simp add: OpenPartition_def openEpochCache_def createSegment_def Let_def)

lemma sample_partition_ok:
  "reachable part_init (part_run newer_term) sample_partition \<and> pNextSeq sample_partition = 2 \<and> pFirstSeq sample_partition = 1 \<and>
    (\<exists>r. part_ok sample_partition [r] \<and> rPayload r = [1, 2, 3]) \<and> IsLeader sample_partition \<and>
    length (pSegments sample_partition) = 1 \<and> pCurEpoch sample_partition = 1"
proof -
  obtain p where p: "OpenPartition io_ok DefaultPartitionConfig None [] = Inr p" using open_sample by blast
  have p1: "pNextSeq p = 1" "pFirstSeq p = 1" "pCurEpoch p = 0" "\<not> pEnforceLeadership p"
    using p by (auto simp: OpenPartition_def openEpochCache_def createSegment_def Let_def latest_def UndefinedEpoch_def)
  obtain q where q: "BecomeLeader io_ok 1 p = (q, Inr ())" "part_ok q []" "pCurEpoch q = 1" "pNextSeq q = 1" "pIsLeader q"
    using BecomeLeader_ok [OF part_init_ok [OF p], of 1] p1 by auto
  have room: "room_for 1 q" using q(4) by (simp add: room_for_def)
  have enc: "\<exists>f. encode (stamp 5 q sample_record) = Inr f"
    using q(3) by (simp add: encode_def bodyHeaderSize_def record_sizes stamp_def Let_def) (simp add: sample_record_def encodeHeaders_def encodeHeader_def)
  obtain t where t: "Append io_ok 5 sample_record q = (t, Inr 1)"
    "part_ok t [normalised (stamp 5 q sample_record)]" "pNextSeq t = 2"
    using Append_ok [OF q(2) room sample_headers_fit] enc q(4,5)
    by (fastforce simp: IsLeader_def sample_record_def FlagEphemeral_def)
  have samp: "sample_partition = t" by (simp add: sample_partition_def p q(1) t(1))
  have "reachable part_init (part_run newer_term) p" by (rule reach_init) (use p in \<open>auto simp: part_init_def\<close>)
  then have "reachable part_init (part_run newer_term) q" using pr_leader [of newer_term p 1] q(1) by (auto intro: reach_step)
  then have "reachable part_init (part_run newer_term) t"
    using pr_append [OF sample_headers_fit room, of newer_term 5] t(1) by (auto intro: reach_step)
  moreover have "\<not> pEnforceLeadership q" using q(1) p1 by (auto simp: BecomeLeader_def split: prod.splits sum.splits if_splits)
  then have "IsLeader t" using Append_guards [of io_ok 5 sample_record q] t(1) by (simp add: IsLeader_def)
  moreover have "pCurEpoch t = 1" using Append_guards [of io_ok 5 sample_record q] t(1) q(3) by simp
  moreover have "length (pSegments t) = 1"
  proof -
    have "length (pSegments q) = 1" "isEmpty (active q)"
      using q(1) p by (auto simp: BecomeLeader_def OpenPartition_def openEpochCache_def createSegment_def Let_def isEmpty_def active_def
          split: prod.splits sum.splits if_splits)
    moreover from this have "pSegments q \<noteq> []" by auto
    ultimately show ?thesis using Append_no_roll [of q io_ok 5 sample_record] t(1) by simp
  qed
  moreover have "pFirstSeq t = 1" using part_ok_numbered [OF t(2)] t(3) by simp
  ultimately show ?thesis
    using t(2,3) unfolding samp by (intro conjI exI [of _ "normalised (stamp 5 q sample_record)"]) (simp_all add: sample_record_def)
qed

lemma chain_storable: "chain b segs rss \<Longrightarrow> list_all storable (concat rss)"
  by (induction b segs rss rule: chain.induct) (simp_all add: seg_rep_def)

lemma frames_length_bound:
  "list_all storable rs \<Longrightarrow> length (frames rs) \<le> (recordFrameHeaderSize + MaxRecordSize) * length rs"
proof (induction rs)
  case (Cons r rs)
  then show ?case using storable_bounds [of r] by (simp add: length_frame_of)
qed simp

lemma sample_partition_files:
  assumes "part_rep sample_partition rss" and "concat rss = [r]"
  shows "all_synced sample_partition" and "length (frames (concat rss)) < 2 ^ 63"
proof -
  show "all_synced sample_partition" using run_synced sample_partition_ok by blast
  have "list_all storable [r]" using assms chain_storable by (fastforce simp: part_rep_def)
  then show "length (frames (concat rss)) < 2 ^ 63" using frames_length_bound [of "[r]"] assms(2) by (simp add: record_sizes)
qed


text \<open>
  C8: an append to a partition this node may write gives the record the next sequence and the
  current term, keeps everything that was in the log, and moves the head by one. Client-supplied
  sequence and epoch never survive.
\<close>

theorem Append_extends:
  assumes "part_ok p rs" and "room_for 1 p" and "headers_fit (rHeaders rec)" and "encode (stamp now p rec) = Inr f"
    and "rFlags rec AND FlagEphemeral = 0" and "IsLeader p"
  shows "\<exists>p' r. Append io_ok now rec p = (p', Inr (pNextSeq p)) \<and> part_ok p' (rs @ [r]) \<and>
    pNextSeq p' = pNextSeq p + 1 \<and> rSeq r = pNextSeq p \<and> rEpoch r = pCurEpoch p \<and>
    rKey r = rKey rec \<and> rHeaders r = rHeaders rec \<and> rPayload r = rPayload rec"
proof -
  obtain p' where "Append io_ok now rec p = (p', Inr (pNextSeq p))"
    "part_ok p' (rs @ [normalised (stamp now p rec)])" "pNextSeq p' = pNextSeq p + 1"
    using Append_ok [OF assms] by (elim exE conjE)
  then show ?thesis by (intro exI [of _ p'] exI [of _ "normalised (stamp now p rec)"]) simp
qed

definition sample_partition2 :: partition where
  "sample_partition2 = fst (Append io_ok 9 sample_record sample_partition)"

lemma sample_append:
  "room_for 1 sample_partition" "\<exists>f. encode (stamp 9 sample_partition sample_record) = Inr f"
  "rFlags sample_record AND FlagEphemeral = 0" "IsLeader sample_partition" "pNextSeq sample_partition = 2"
  "pFirstSeq sample_partition = 1"
proof -
  show nx: "pNextSeq sample_partition = 2" and "pFirstSeq sample_partition = 1" using sample_partition_ok by blast+
  then show "room_for 1 sample_partition" by (simp add: room_for_def)
  show "\<exists>f. encode (stamp 9 sample_partition sample_record) = Inr f"
    by (simp add: encode_def bodyHeaderSize_def record_sizes stamp_def Let_def)
       (simp add: sample_record_def encodeHeaders_def encodeHeader_def)
  show "IsLeader sample_partition" using sample_partition_ok by blast
  show "rFlags sample_record AND FlagEphemeral = 0" by (simp add: sample_record_def FlagEphemeral_def)
qed

lemma sample_partition2_ok:
  "\<exists>r r'. part_ok sample_partition2 [r, r'] \<and> pFirstSeq sample_partition2 = 1 \<and> rPayload r = [1, 2, 3]"
proof -
  obtain r where ok: "part_ok sample_partition [r]" "rPayload r = [1, 2, 3]" using sample_partition_ok by blast
  obtain f where f: "encode (stamp 9 sample_partition sample_record) = Inr f" using sample_append(2) by blast
  obtain p' where p': "Append io_ok 9 sample_record sample_partition = (p', Inr 2)"
    "part_ok p' [r, normalised (stamp 9 sample_partition sample_record)]" "pNextSeq p' = 3"
    using Append_ok [OF ok(1) sample_append(1) sample_headers_fit f sample_append(3,4)] sample_append(5) by auto
  have "pFirstSeq p' = 1" using part_ok_numbered [OF p'(2)] p'(3) by simp
  then show ?thesis using p' ok(2) by (auto simp: sample_partition2_def)
qed

theorem Append_extends_witness:
  "\<exists>p' r. Append io_ok 9 sample_record sample_partition = (p', Inr 2) \<and> pNextSeq p' = 3 \<and> rSeq r = 2 \<and> rPayload r = [1, 2, 3] \<and>
     (\<exists>r0. part_ok p' [r0, r])"
proof -
  obtain r0 where ok: "part_ok sample_partition [r0]" using sample_partition_ok by blast
  obtain f where f: "encode (stamp 9 sample_partition sample_record) = Inr f" using sample_append(2) by blast
  have "rPayload sample_record = [1, 2, 3]" by (simp add: sample_record_def)
  then show ?thesis
    using Append_extends [OF ok sample_append(1) sample_headers_fit f sample_append(3,4)] sample_append(5) by auto
qed

text \<open>
  C10: a follower's write path is idempotent and never leaves a hole: a record below the head is
  skipped and nothing changes, a record past the head is refused with the gap it would leave, and
  the record at the head extends the log by itself, opening its term when it carries a newer one.
\<close>

theorem AppendReplicated_cases:
  assumes ok: "part_ok p rs" and "rFlags rec AND FlagEphemeral = 0" and "rSeq rec \<noteq> 0"
  shows "(rSeq rec < pNextSeq p \<longrightarrow> AppendReplicated io rec p = (p, Inr ())) \<and>
    (pNextSeq p < rSeq rec \<longrightarrow> AppendReplicated io rec p = (p, Inl (ErrReplicationGap (rSeq rec) (pNextSeq p)))) \<and>
    (rSeq rec = pNextSeq p \<and> room_for 1 p \<and> headers_fit (rHeaders rec) \<and> pCurEpoch p \<le> rEpoch rec \<and> (\<exists>f. encode rec = Inr f) \<longrightarrow>
      (\<exists>p'. AppendReplicated io_ok rec p = (p', Inr ()) \<and> part_ok p' (rs @ [normalised rec]) \<and> pNextSeq p' = pNextSeq p + 1))"
  using assms part_ok_open [OF ok] AppendReplicated_ok [OF ok, of rec]
  by (auto simp: AppendReplicated_def)

theorem AppendReplicated_cases_witness:
  "AppendReplicated io_ok (sample_record\<lparr>rSeq := 1\<rparr>) sample_partition = (sample_partition, Inr ()) \<and>
   AppendReplicated io_ok sample_record sample_partition = (sample_partition, Inl (ErrReplicationGap 7 2))"
proof -
  obtain r where ok: "part_ok sample_partition [r]" "pNextSeq sample_partition = 2"
    using sample_partition_ok by blast
  show ?thesis
    using AppendReplicated_cases [OF ok(1), of "sample_record\<lparr>rSeq := 1\<rparr>" io_ok]
      AppendReplicated_cases [OF ok(1), of sample_record io_ok] ok(2)
    by (simp add: sample_record_def FlagEphemeral_def)
qed

text \<open>
  C9: a read returns a run of consecutive records of the log that starts at the requested
  sequence, in log order and across segment boundaries, at most as many as asked for; it is empty
  only when the log holds nothing from there on. A sequence below the retention horizon is
  reported, not skipped.
\<close>

theorem Read_prefix:
  assumes ok: "part_ok p rs" and "x \<noteq> 0" and "0 < n"
  shows "(x < pFirstSeq p \<longrightarrow> Read io_ok x n b p = (p, [], Some (ErrSeqTruncated x (pFirstSeq p)))) \<and>
    (pFirstSeq p \<le> x \<longrightarrow>
      (\<exists>p' k. Read io_ok x n b p = (p', take k (filter (\<lambda>r. x \<le> rSeq r) rs), None) \<and> part_ok p' rs \<and>
        (filter (\<lambda>r. x \<le> rSeq r) rs \<noteq> [] \<longrightarrow> 0 < k) \<and> int (length (take k (filter (\<lambda>r. x \<le> rSeq r) rs))) \<le> n))"
proof (intro conjI impI)
  show "Read io_ok x n b p = (p, [], Some (ErrSeqTruncated x (pFirstSeq p)))" if "x < pFirstSeq p"
    using that assms part_ok_open [OF ok] by (simp add: Read_def Let_def)
  show "\<exists>p' k. Read io_ok x n b p = (p', take k (filter (\<lambda>r. x \<le> rSeq r) rs), None) \<and> part_ok p' rs \<and>
        (filter (\<lambda>r. x \<le> rSeq r) rs \<noteq> [] \<longrightarrow> 0 < k) \<and> int (length (take k (filter (\<lambda>r. x \<le> rSeq r) rs))) \<le> n"
    if "pFirstSeq p \<le> x"
    using Read_ok [OF ok, of x n b] that assms(2,3) by simp
qed

theorem Read_prefix_witness:
  "\<exists>p' r. Read io_ok 1 10 0 sample_partition = (p', [r], None) \<and> rPayload r = [1, 2, 3]"
proof -
  obtain r where ok: "part_ok sample_partition [r]" "rPayload r = [1, 2, 3]" "pFirstSeq sample_partition = 1"
    using sample_partition_ok by blast
  have "rSeq r = 1" using part_ok_numbered [OF ok(1)] numbered_nth [of 1 "[r]" 0] ok(3) by simp
  then obtain p' k where "Read io_ok 1 10 0 sample_partition = (p', take k [r], None)" "0 < k"
    using Read_prefix [OF ok(1), of 1 10 0] ok(3) by auto
  then show ?thesis using ok(2) by (cases k) auto
qed

text \<open>
  C11: truncating to a sequence inside the log removes exactly the records from it on, reports
  how many those were, and leaves a partition in which every remaining record still has its term.
\<close>

theorem TruncateTo_exact:
  assumes "part_ok p rs" and "0 < k" and "k < length rs"
  shows "\<exists>p'. TruncateTo io_ok (pFirstSeq p + of_nat k) p = (p', Inr (of_nat (length rs - k))) \<and> part_ok p' (take k rs)"
  using TruncateTo_ok [OF assms] by blast

theorem TruncateTo_exact_witness:
  "\<exists>p' r. TruncateTo io_ok 2 sample_partition2 = (p', Inr 1) \<and> part_ok p' [r] \<and> rPayload r = [1, 2, 3]"
proof -
  obtain r r' where ok: "part_ok sample_partition2 [r, r']" "pFirstSeq sample_partition2 = 1" "rPayload r = [1, 2, 3]"
    using sample_partition2_ok by blast
  show ?thesis using TruncateTo_exact [OF ok(1), of 1] ok(2,3) by auto
qed



text \<open>
  C31: retention drops whole segments from the front, one after another, exactly as long as the
  oldest is due and at least one more follows it: because the log is over the configured size, or
  because the next segment begins with a timestamp older than the configured age. It reports how
  many it dropped. The active segment always stays, and so do the head, the records of the other
  segments and their terms.
\<close>

theorem EnforceRetention_front:
  assumes "part_rep p rss" and "epoch_rep p (concat rss)"
    and "cutoff = (if cRetentionAge (pCfg p) > 0 then now - of_int (cRetentionAge (pCfg p)) else 0)"
  shows "\<exists>p' j. EnforceRetention io_ok now p = (p', j, None) \<and> j < length rss \<and> part_rep p' (drop j rss) \<and>
    epoch_rep p' (concat (drop j rss)) \<and> pNextSeq p' = pNextSeq p \<and>
    (\<forall>i < j. due (cRetentionBytes (pCfg p)) cutoff (drop i rss)) \<and>
    (j = length rss - 1 \<or> \<not> due (cRetentionBytes (pCfg p)) cutoff (drop j rss))"
proof (cases "cRetentionBytes (pCfg p) \<le> 0 \<and> cRetentionAge (pCfg p) \<le> 0")
  case True
  then have "EnforceRetention io_ok now p = (p, 0, None)" "\<not> due (cRetentionBytes (pCfg p)) cutoff rss"
    using assms(3) by (simp_all add: EnforceRetention_def due_def)
  then show ?thesis using assms(1,2) by (intro exI [of _ p] exI [of _ 0]) (simp add: part_rep_def)
next
  case False
  then have "EnforceRetention io_ok now p = retention_loop io_ok cutoff p 0" unfolding EnforceRetention_def assms(3) Let_def by (rule if_not_P)
  then show ?thesis using retention_loop_rep [OF assms(1), of cutoff 0] assms(2) by (elim exE conjE) auto
qed

lemma finish_append_cfg: "pCfg (fst (finish_append io n b x q)) = pCfg q"
  by (auto simp: finish_append_def count_append_def sync_active_def broadcast_def Let_def split: prod.splits sum.splits)

lemma write_encoded_cfg: "pCfg (fst (write_encoded io f b p)) = pCfg p"
proof -
  have roll: "pCfg (fst (rollLocked io b p)) = pCfg p" by (auto simp: rollLocked_def split: prod.splits sum.splits)
  then show ?thesis by (auto simp: write_encoded_def split: prod.splits sum.splits if_splits)
qed

lemma Append_cfg: "pCfg (fst (Append io now rec p)) = pCfg p"
proof (cases "encode (stamp now p rec)")
  case (Inr f)
  show ?thesis
    using Inr write_encoded_cfg [of io f "pNextSeq p" p] by (auto simp: Append_def Let_def finish_append_cfg split: prod.splits sum.splits)
qed (simp add: Append_def Let_def)

lemma Append_rolls:
  assumes rep: "part_rep p rss" and "last rss \<noteq> []" and enc: "encode (stamp now p rec) = Inr f"
    and big: "cSegmentBytes (pCfg p) < segment_bytes (active p) + int (length f)" and fl: "rFlags rec AND FlagEphemeral = 0" and ldr: "IsLeader p"
  shows "length (pSegments (fst (Append io_ok now rec p))) = Suc (length (pSegments p))"
proof -
  obtain ss where ss: "rollLocked io_ok (pNextSeq p) p = (p\<lparr>pSegments := ss\<rparr>, Inr ())" "part_rep (p\<lparr>pSegments := ss\<rparr>) (rss @ [[]])"
    using rollLocked_rep [OF assms(1,2)] by blast
  have "length (pSegments p) = length rss" "length ss = Suc (length rss)"
    using rep ss(2) chain_length by (fastforce simp: part_rep_def)+
  moreover from this have ne: "ss \<noteq> []" by auto
  moreover have "\<not> isEmpty (active p)" using isEmpty_rep [OF active_rep [OF rep]] assms(2) by simp
  moreover obtain p1 r where w: "write_encoded io_ok f (pNextSeq p) p = (p1, r)" by (cases "write_encoded io_ok f (pNextSeq p) p")
  ultimately have "length (pSegments p1) = Suc (length (pSegments p))"
    using ss(1) big set_active_length [of "p\<lparr>pSegments := ss\<rparr>"] ne by (auto simp: write_encoded_def split: prod.splits sum.splits)
  moreover from this have "pSegments p1 \<noteq> []" by auto
  ultimately show ?thesis
    using w enc fl ldr rep finish_append_length [of p1 io_ok 1 "int (length f)" "pNextSeq p"]
    by (cases r) (simp_all add: Append_def Let_def IsLeader_def part_rep_def)
qed

text \<open>The sample partition with a size limit, and segments so small that the second record rolls.\<close>

definition sample_partition3 :: partition where
  "sample_partition3 =
     fst (Append io_ok 9 sample_record (sample_partition\<lparr>pCfg := DefaultPartitionConfig\<lparr>cSegmentBytes := 1, cRetentionBytes := 10\<rparr>\<rparr>))"

lemma sample_partition3_ok:
  "\<exists>rss r r'. part_rep sample_partition3 rss \<and> epoch_rep sample_partition3 (concat rss) \<and> concat rss = [r, r'] \<and>
     length (pSegments sample_partition3) = 2 \<and> pNextSeq sample_partition3 = 3 \<and>
     pCfg sample_partition3 = DefaultPartitionConfig\<lparr>cSegmentBytes := 1, cRetentionBytes := 10\<rparr>"
proof -
  let ?p = "sample_partition\<lparr>pCfg := DefaultPartitionConfig\<lparr>cSegmentBytes := 1, cRetentionBytes := 10\<rparr>\<rparr>"
  obtain r where "part_ok sample_partition [r]" using sample_partition_ok by blast
  then have ok: "part_ok ?p [r]" by (auto simp: part_ok_def part_rep_def epoch_rep_def active_def)
  then obtain rss where rss: "part_rep ?p rss" "concat rss = [r]" by (auto simp: part_ok_def)
  have "stamp 9 ?p sample_record = stamp 9 sample_partition sample_record" by (simp add: stamp_def)
  then obtain f where f: "encode (stamp 9 ?p sample_record) = Inr f" using sample_append(2) by auto
  have side: "room_for 1 ?p" "IsLeader ?p" using sample_append(1,4) by (simp_all add: room_for_def IsLeader_def)
  have "Append io_ok 9 sample_record ?p = (sample_partition3, Inr 2) \<and>
    part_ok sample_partition3 [r, normalised (stamp 9 ?p sample_record)] \<and> pNextSeq sample_partition3 = 3"
    using Append_ok [OF ok side(1) sample_headers_fit f sample_append(3) side(2)] sample_append(5) by (auto simp: sample_partition3_def)
  moreover have "length (pSegments sample_partition3) = 2"
  proof -
    have "length (pSegments ?p) = 1" using sample_partition_ok by simp
    moreover from this have "length rss = 1" using rss(1) chain_length by (fastforce simp: part_rep_def)
    then have "last rss \<noteq> []" using rss(2) by (cases rss) auto
    moreover have "1 < int (length f)" using f by (auto simp: encode_Inr_iff length_frame_of record_sizes)
    then have "cSegmentBytes (pCfg ?p) < segment_bytes (active ?p) + int (length f)"
      using active_rep [OF rss(1)] by (simp add: segment_bytes_def seg_rep_def)
    ultimately show ?thesis
      using Append_rolls [OF rss(1) _ f _ sample_append(3) side(2)] by (simp add: sample_partition3_def)
  qed
  moreover have "pCfg sample_partition3 = pCfg ?p" unfolding sample_partition3_def by (rule Append_cfg)
  ultimately show ?thesis by (fastforce simp: part_ok_def)
qed

theorem EnforceRetention_front_witness:
  "\<exists>p'. length (pSegments sample_partition3) = 2 \<and> EnforceRetention io_ok 9 sample_partition3 = (p', 1, None) \<and>
     length (pSegments p') = 1 \<and> pNextSeq p' = 3"
proof -
  let ?p = sample_partition3
  obtain rss r r' where p: "part_rep ?p rss" "epoch_rep ?p (concat rss)" "concat rss = [r, r']" "length (pSegments ?p) = 2"
    "pNextSeq ?p = 3" "pCfg ?p = DefaultPartitionConfig\<lparr>cSegmentBytes := 1, cRetentionBytes := 10\<rparr>"
    using sample_partition3_ok by blast
  have len: "length rss = 2" using p(1,4) chain_length by (fastforce simp: part_rep_def)
  have due: "due (cRetentionBytes (pCfg ?p)) c rss" for c
    unfolding due_def p(3) using p(6) by (simp add: length_frame_of record_sizes)
  obtain p' j where e: "EnforceRetention io_ok 9 ?p = (p', j, None)" "j < length rss" "part_rep p' (drop j rss)" "pNextSeq p' = pNextSeq ?p"
    "j = length rss - 1 \<or> \<not> due (cRetentionBytes (pCfg ?p)) (if cRetentionAge (pCfg ?p) > 0 then 9 - of_int (cRetentionAge (pCfg ?p)) else 0) (drop j rss)"
    using EnforceRetention_front [OF p(1,2) refl, of 9] by blast
  have "j \<noteq> 0"
  proof
    assume "j = 0"
    then show False using e(5) due len by simp
  qed
  then have "j = 1" using e(2) len by simp
  moreover from this have "length (pSegments p') = 1" using e(3) len chain_length by (fastforce simp: part_rep_def)
  ultimately show ?thesis using e(1,4) p(4,5) by auto
qed

lemma BecomeLeader_file:
  assumes "cache_ordered (pEpochs p)" and "BecomeLeader io_ok x p = (p1, Inr ())"
    and "pCurEpoch p = fst (latest (pEpochs p))"
  shows "\<exists>c. openEpochCache io_ok (ecFile (pEpochs p1)) = Inr c \<and> ecEntries c \<noteq> [] \<and>
    last (ecEntries c) = \<lparr>eEpoch = x, eStartSeq = pNextSeq p\<rparr> \<and> pSegments p1 = pSegments p"
proof -
  obtain c where c: "assign io_ok x (pNextSeq p) (pEpochs p) = (c, Inr ())" "p1 = p\<lparr>pEpochs := c, pCurEpoch := x, pIsLeader := True\<rparr>"
    and x: "x \<noteq> UndefinedEpoch" "\<not> x \<le> fst (latest (pEpochs p))"
    using assms(2,3) by (auto simp: BecomeLeader_def split: prod.splits sum.splits if_splits)
  have ord: "cache_ordered c" using assign_ordered [OF assms(1), of io_ok x "pNextSeq p"] c(1) by simp
  have "ecEntries c = ecEntries (pEpochs p) @ [\<lparr>eEpoch = x, eStartSeq = pNextSeq p\<rparr>] \<and>
      ecFile c = Some (encodeEpochEntries (ecEntries c))"
    using c(1) x by (cases "ecEntries (pEpochs p) = []")
      (auto simp: assign_def flushLocked_def latest_def Let_def split: if_splits)
  then show ?thesis
    using c(2) sort_key_ordered [OF ord] by (simp add: openEpochCache_def)
qed

text \<open>
  C37: a term opened on a partition whose active segment is not yet on disk can outlive the
  records before it. When a crash loses that segment, the reopened partition's head is below the
  start of its newest term, and no later term can be opened on it: \<open>BecomeLeader\<close> fails for every
  epoch, because the history would no longer ascend.
\<close>

theorem leadership_blocked_after_crash:
  assumes rep: "part_rep p rss" and ep: "epoch_rep p (concat rss)" and act: "last rss \<noteq> []"
    and lead: "BecomeLeader io_ok x p = (p1, Inr ())" and y: "x < y"
    and small: "length (frames (concat rss)) < 2 ^ 63" and idx: "all_synced p"
  shows "\<exists>q. OpenPartition io_ok cfg (ecFile (pEpochs p1)) (crash_disk 0 0 (pSegments p1)) = Inr q \<and>
    snd (BecomeLeader io_ok y q) = Inl (ErrEpochOrder y (pNextSeq q) x (pNextSeq p))"
proof -
  have ord: "cache_ordered (pEpochs p)" and cur: "pCurEpoch p = fst (latest (pEpochs p))" using ep by (auto simp: epoch_rep_def)
  obtain c where c: "openEpochCache io_ok (ecFile (pEpochs p1)) = Inr c" "ecEntries c \<noteq> []"
    "last (ecEntries c) = \<lparr>eEpoch = x, eStartSeq = pNextSeq p\<rparr>" "pSegments p1 = pSegments p"
    using BecomeLeader_file [OF ord lead cur] by blast
  have "whole 0 (last rss) = []" using act by (cases "last rss") (simp_all add: length_frame_of record_sizes)
  then obtain q where q: "OpenPartition io_ok cfg (ecFile (pEpochs p1)) (crash_disk 0 0 (pSegments p)) = Inr q"
    "pEpochs q = c" "pCurEpoch q = fst (latest c)" "pNextSeq q = sgBase (active p)" "\<not> pClosed q"
    using OpenPartition_crash [OF rep idx small c(1), of cfg 0 0] by (auto simp: part_rep_def)
  have "pNextSeq p = sgBase (active p) + of_nat (length (last rss))" by (rule part_rep_split [OF rep]) simp
  moreover have "numbered (sgBase (active p)) (last rss)" using active_rep [OF rep] by (simp add: seg_rep_def)
  ultimately have "pNextSeq q < pNextSeq p"
    using numbered_less [of "sgBase (active p)" "last rss" 0 "length (last rss)"] act q(4) by simp
  moreover have "y \<noteq> UndefinedEpoch" using y by (auto simp: UndefinedEpoch_def)
  ultimately have "snd (BecomeLeader io_ok y q) = Inl (ErrEpochOrder y (pNextSeq q) x (pNextSeq p))"
    using q(2,3,5) c(2,3) y by (simp add: BecomeLeader_def latest_def assign_def Let_def not_le [symmetric])
  then show ?thesis using q(1) c(4) by auto
qed

theorem leadership_blocked_after_crash_witness:
  "\<exists>p1 q. BecomeLeader io_ok 5 sample_partition = (p1, Inr ()) \<and>
     OpenPartition io_ok DefaultPartitionConfig (ecFile (pEpochs p1)) (crash_disk 0 0 (pSegments p1)) = Inr q \<and>
     snd (BecomeLeader io_ok 6 q) = Inl (ErrEpochOrder 6 (pNextSeq q) 5 2)"
proof -
  obtain rss r where p: "part_rep sample_partition rss" "concat rss = [r]" "epoch_rep sample_partition (concat rss)"
    using sample_partition_ok by (auto simp: part_ok_def)
  have "length rss = 1" using p(1) chain_length sample_partition_ok by (fastforce simp: part_rep_def)
  then have "last rss \<noteq> []" using p(2) by (cases rss) auto
  moreover obtain p1 where p1: "BecomeLeader io_ok 5 sample_partition = (p1, Inr ())"
    using BecomeLeader_ok [of sample_partition "concat rss" 5] p sample_partition_ok by (auto simp: part_ok_def)
  moreover have "pNextSeq sample_partition = 2" using sample_partition_ok by blast
  ultimately show ?thesis
    using leadership_blocked_after_crash [OF p(1,3) _ p1 _ sample_partition_files(2,1) [OF p(1,2)], of 6 DefaultPartitionConfig] by fastforce
qed

end
