(* ===== verification/Cursor.thy ===== *)
theory Cursor
  imports Segment "HOL-Library.List_Lexorder" "HOL-Library.Char_ord" "HOL-Library.Sublist"
begin

section \<open>Cursors\<close>

text \<open>
  The cursor store of \<open>internal/stream/cursor.go\<close>: keys, the append-only log of positions, commits,
  groups, compaction and restart. Compaction is three steps, since it writes its file without the
  lock. A restart never finds a reader ahead of where it was, and finds every flushed position; the
  exceptions are a torn tail, behind which later commits are lost, and a commit whose write failed.
\<close>

subsection \<open>Keys\<close>

record CursorKey =
  ckTopic :: string
  ckPartition :: int
  ckGroup :: string
  ckMember :: string

definition nul :: char where "nul = CHR 0x00"

definition decimal_int :: "int \<Rightarrow> string" where
  "decimal_int i = (if i < 0 then CHR ''-'' # decimal (nat (- i)) else decimal (nat i))"

definition CursorKey_String :: "CursorKey \<Rightarrow> string" where
  "CursorKey_String k = ckTopic k @ nul # decimal_int (ckPartition k) @ nul # ckGroup k @ nul # ckMember k"

text \<open>
  \<open>fmt.Sscanf(s, "%d", &pid)\<close> for a 32-bit integer: blanks, a sign, the longest run of digits; what
  follows is not looked at.
\<close>

definition scan_int32 :: "string \<Rightarrow> int option" where
  "scan_int32 s =
     (let s1 = dropWhile (\<lambda>c. c = CHR '' '' \<or> c = CHR 0x09 \<or> c = CHR 0x0B \<or> c = CHR 0x0C \<or> c = CHR 0x0D) s;
          neg = (s1 \<noteq> [] \<and> hd s1 = CHR ''-'');
          s2 = (if s1 \<noteq> [] \<and> (hd s1 = CHR ''-'' \<or> hd s1 = CHR ''+'') then tl s1 else s1);
          ds = takeWhile (\<lambda>c. char_digit c \<noteq> None) s2
      in if ds = [] then None
         else case parse_digits 0 ds of
           None \<Rightarrow> None
         | Some n \<Rightarrow>
             let v = (if neg then - int n else int n) in
             if - (2 ^ 31) \<le> v \<and> v < 2 ^ 31 then Some v else None)"

definition parseCursorKey :: "string \<Rightarrow> CursorKey option" where
  "parseCursorKey s =
     (case split_on nul s of
        [topic, part, grp, member] \<Rightarrow>
          (case scan_int32 part of
             None \<Rightarrow> None
           | Some pid \<Rightarrow> Some \<lparr>ckTopic = topic, ckPartition = pid, ckGroup = grp, ckMember = member\<rparr>)
      | _ \<Rightarrow> None)"

subsection \<open>The store\<close>

text \<open>
  The file, the writer in front of it and whether its handle is usable; \<open>csCompacting\<close> is set while
  a background compaction is under way.
\<close>

record cursor_store =
  csPositions :: "(string \<times> u64) list"
  csFile :: bytes
  csWriter :: "bytes \<times> bool"
  csOpen :: bool
  csSize :: int
  csClosed :: bool
  csCompactBytes :: int
  csCompacting :: bool
  csDirty :: bool

definition cursorRecordHeader :: nat where "cursorRecordHeader = 8"
definition defaultCompactBytes :: int where "defaultCompactBytes = 8388608"
definition cursorWriterSize :: nat where "cursorWriterSize = 65536"

definition encodeCursorRecord :: "string \<Rightarrow> u64 \<Rightarrow> bytes" where
  "encodeCursorRecord key seq =
     (let body = put64 seq @ put16 (of_nat (length key)) @ str_bytes key in
      put32 (crc32 body) @ put32 (of_nat (10 + length key)) @ body)"

function cursor_load :: "bytes \<Rightarrow> (string \<times> u64) list \<Rightarrow> (string \<times> u64) list" where
  "cursor_load bs positions =
     (if length bs < cursorRecordHeader then positions
      else
        let checksum = get32 bs; bodyLen = unat (get32 (drop 4 bs)); rest = drop cursorRecordHeader bs in
        if bodyLen < 10 \<or> bodyLen > 65536 then positions
        else if length rest < bodyLen then positions
        else
          let body = take bodyLen rest in
          if crc32 body \<noteq> checksum then positions
          else
            let seq = get64 body; keyLen = unat (get16 (drop 8 body)) in
            if 10 + keyLen \<noteq> length body then positions
            else cursor_load (drop bodyLen rest) (AList.update (bytes_str (drop 10 body)) seq positions))"
  by pat_completeness auto
termination
  by (relation "measure (\<lambda>(bs, al). length bs)") (auto simp: cursorRecordHeader_def)

declare cursor_load.simps [simp del]

text \<open>\<open>disk\<close> is what the path holds, \<open>None\<close> when there is no file.\<close>

definition OpenCursorStore :: "io \<Rightarrow> bytes option \<Rightarrow> stream_error + cursor_store" where
  "OpenCursorStore io disk =
     (if \<not> io ''create cursor dir'' then Inl (ErrIO ''create cursor dir'')
      else if disk \<noteq> None \<and> \<not> io ''open cursor log for read'' then Inl (ErrIO ''open cursor log for read'')
      else
        let file = (case disk of None \<Rightarrow> [] | Some bs \<Rightarrow> bs) in
        if \<not> io ''open cursor log'' then Inl (ErrIO ''open cursor log'')
        else Inr \<lparr>csPositions = cursor_load file [], csFile = file, csWriter = ([], False), csOpen = True,
               csSize = (if io ''stat cursor log'' then int (length file) else 0), csClosed = False,
               csCompactBytes = defaultCompactBytes, csCompacting = False, csDirty = False\<rparr>)"

definition cursor_write :: "io \<Rightarrow> bytes \<Rightarrow> cursor_store \<Rightarrow> cursor_store \<times> bool" where
  "cursor_write io p c =
     (let (file, w) = bufio_write cursorWriterSize (csOpen c \<and> io ''write cursor'') p (csFile c) (csWriter c) in
      (c\<lparr>csFile := file, csWriter := w\<rparr>, \<not> snd w))"

definition cursor_flush :: "io \<Rightarrow> cursor_store \<Rightarrow> cursor_store \<times> bool" where
  "cursor_flush io c =
     (let (file, w) = bufio_flush (csOpen c \<and> io ''write cursor'') (csFile c) (csWriter c) in
      (c\<lparr>csFile := file, csWriter := w\<rparr>, \<not> snd w))"

text \<open>A commit past the threshold starts a compaction in the background unless one is running.\<close>

definition maybeCompact :: "cursor_store \<Rightarrow> cursor_store" where
  "maybeCompact c = c\<lparr>csCompacting := True\<rparr>"

definition Commit :: "io \<Rightarrow> CursorKey \<Rightarrow> u64 \<Rightarrow> cursor_store \<Rightarrow> cursor_store \<times> (stream_error + unit)" where
  "Commit io key seq c =
     (let k = CursorKey_String key in
      if csClosed c then (c, Inl ErrClosed)
      else if (case map_of (csPositions c) k of None \<Rightarrow> False | Some cur \<Rightarrow> seq \<le> cur) then (c, Inr ())
      else
        let c1 = c\<lparr>csPositions := AList.update k seq (csPositions c)\<rparr>;
            rec = encodeCursorRecord k seq
        in case cursor_write io rec c1 of
             (c2, False) \<Rightarrow> (c2, Inl (ErrIO ''write cursor''))
           | (c2, True) \<Rightarrow>
               let c3 = c2\<lparr>csSize := csSize c2 + int (length rec), csDirty := True\<rparr> in
               (if csSize c3 > csCompactBytes c3 then maybeCompact c3 else c3, Inr ()))"

definition Position :: "CursorKey \<Rightarrow> cursor_store \<Rightarrow> u64 option" where
  "Position key c = map_of (csPositions c) (CursorKey_String key)"

definition PositionOr :: "CursorKey \<Rightarrow> u64 \<Rightarrow> cursor_store \<Rightarrow> u64" where
  "PositionOr key d c = (case Position key c of Some seq \<Rightarrow> seq | None \<Rightarrow> d)"

definition TrimSuffix :: "string \<Rightarrow> string \<Rightarrow> string" where
  "TrimSuffix s suf = (if HasSuffix s suf then take (length s - length suf) s else s)"

definition GroupMembers :: "string \<Rightarrow> int \<Rightarrow> string \<Rightarrow> cursor_store \<Rightarrow> (string \<times> u64) list" where
  "GroupMembers topic part grp c =
     (let pre = TrimSuffix (CursorKey_String \<lparr>ckTopic = topic, ckPartition = part, ckGroup = grp, ckMember = []\<rparr>) [nul] @ [nul] in
      fold (\<lambda>(k, v) out.
          if \<not> HasPrefix k pre then out
          else case parseCursorKey k of None \<Rightarrow> out | Some key \<Rightarrow> AList.update (ckMember key) v out)
        (csPositions c) [])"

definition SlowestInGroup :: "string \<Rightarrow> int \<Rightarrow> string \<Rightarrow> cursor_store \<Rightarrow> u64 option" where
  "SlowestInGroup topic part grp c =
     (let members = GroupMembers topic part grp c in
      if length members = 0 then None else Some (fold (\<lambda>(_, v) m. if v < m then v else m) members (- 1)))"

definition cursor_Flush :: "io \<Rightarrow> cursor_store \<Rightarrow> cursor_store \<times> (stream_error + unit)" where
  "cursor_Flush io c =
     (if csClosed c then (c, Inr ())
      else case cursor_flush io c of (c1, ok) \<Rightarrow> (c1, if ok then Inr () else Inl (ErrIO ''write cursor'')))"

definition cursor_Sync :: "io \<Rightarrow> cursor_store \<Rightarrow> cursor_store \<times> (stream_error + unit)" where
  "cursor_Sync io c =
     (if csClosed c then (c, Inr ())
      else case cursor_flush io c of
             (c1, False) \<Rightarrow> (c1, Inl (ErrIO ''write cursor''))
           | (c1, True) \<Rightarrow> (c1, if csOpen c1 \<and> io ''sync cursor log'' then Inr () else Inl (ErrIO ''sync cursor log'')))"

text \<open>
  \<open>Compact\<close> in its three parts: the snapshot under the lock, the temporary file without the lock,
  and the swap under the lock again.
\<close>

definition compact_begin :: "io \<Rightarrow> cursor_store \<Rightarrow> cursor_store \<times> (stream_error + (string \<times> u64) list)" where
  "compact_begin io c =
     (if csClosed c then (c, Inl ErrClosed)
      else case cursor_flush io c of
             (c1, False) \<Rightarrow> (c1, Inl (ErrIO ''write cursor''))
           | (c1, True) \<Rightarrow> (c1, Inr (csPositions c)))"

definition sorted_snapshot :: "(string \<times> u64) list \<Rightarrow> (string \<times> u64) list" where
  "sorted_snapshot snapshot = map (\<lambda>k. (k, the (map_of snapshot k))) (sort (map fst snapshot))"

definition compact_file :: "(string \<times> u64) list \<Rightarrow> bytes" where
  "compact_file snapshot = concat (map (\<lambda>(k, v). encodeCursorRecord k v) (sorted_snapshot snapshot))"

definition compact_write :: "io \<Rightarrow> (string \<times> u64) list \<Rightarrow> stream_error + bytes" where
  "compact_write io snapshot =
     (if \<not> io ''create compaction temp'' then Inl (ErrIO ''create compaction temp'')
      else if \<not> io ''write compacted cursor'' then Inl (ErrIO ''write compacted cursor'')
      else if \<not> io ''sync compaction temp'' then Inl (ErrIO ''sync compaction temp'')
      else Inr (compact_file snapshot))"

fun replay_missed :: "io \<Rightarrow> (string \<times> u64) list \<Rightarrow> cursor_store \<Rightarrow> cursor_store \<times> (stream_error + unit)" where
  "replay_missed io [] c = (c, Inr ())"
| "replay_missed io ((k, v) # kvs) c =
     (let rec = encodeCursorRecord k v in
      case cursor_write io rec c of
        (c1, False) \<Rightarrow> (c1, Inl (ErrIO ''replay missed cursor''))
      | (c1, True) \<Rightarrow> replay_missed io kvs (c1\<lparr>csSize := csSize c1 + int (length rec)\<rparr>))"

definition compact_finish :: "io \<Rightarrow> (string \<times> u64) list \<Rightarrow> bytes \<Rightarrow> cursor_store \<Rightarrow> cursor_store \<times> (stream_error + unit)" where
  "compact_finish io snapshot tmp c =
     (if csClosed c then (c, Inl ErrClosed)
      else
        let missed = filter (\<lambda>(k, v). map_of snapshot k \<noteq> Some v) (csPositions c);
            c1 = fst (cursor_flush io c)
        in
        if \<not> io ''rename cursor log'' then
          (if io ''reopen cursor log'' then c1\<lparr>csOpen := True, csWriter := ([], False)\<rparr> else c1\<lparr>csOpen := False\<rparr>,
           Inl (ErrIO ''swap compacted cursor log''))
        else if \<not> io ''reopen cursor log'' then (c1\<lparr>csFile := tmp, csOpen := False\<rparr>, Inl (ErrIO ''reopen cursor log''))
        else
          case replay_missed io missed
                 (c1\<lparr>csFile := tmp, csOpen := True, csWriter := ([], False), csSize := int (length tmp)\<rparr>) of
            (c2, Inl e) \<Rightarrow> (c2, Inl e)
          | (c2, Inr _) \<Rightarrow>
              (case cursor_flush io c2 of (c3, ok) \<Rightarrow> (c3, if ok then Inr () else Inl (ErrIO ''write cursor''))))"

definition Compact :: "io \<Rightarrow> cursor_store \<Rightarrow> cursor_store \<times> (stream_error + unit)" where
  "Compact io c =
     (case compact_begin io c of
        (c1, Inl e) \<Rightarrow> (c1, Inl e)
      | (c1, Inr snapshot) \<Rightarrow>
          (case compact_write io snapshot of
             Inl e \<Rightarrow> (c1, Inl e)
           | Inr tmp \<Rightarrow> compact_finish io snapshot tmp c1))"

definition Delete :: "io \<Rightarrow> CursorKey \<Rightarrow> cursor_store \<Rightarrow> cursor_store \<times> (stream_error + unit)" where
  "Delete io key c =
     (let k = CursorKey_String key in
      if csClosed c then (c, Inl ErrClosed)
      else if map_of (csPositions c) k = None then (c, Inr ())
      else Compact io (c\<lparr>csPositions := AList.delete k (csPositions c), csDirty := True\<rparr>))"

definition cursor_Count :: "cursor_store \<Rightarrow> nat" where
  "cursor_Count c = length (csPositions c)"

text \<open>One tick of the flush loop of \<open>StartAutoFlush\<close>.\<close>

definition autoFlush_tick :: "io \<Rightarrow> cursor_store \<Rightarrow> cursor_store" where
  "autoFlush_tick io c = (if csDirty c then fst (cursor_Flush io (c\<lparr>csDirty := False\<rparr>)) else c)"

definition cursor_Close :: "io \<Rightarrow> cursor_store \<Rightarrow> cursor_store \<times> (stream_error + unit)" where
  "cursor_Close io c =
     (if csClosed c then (c, Inr ())
      else
        let c1 = fst (cursor_flush io (c\<lparr>csClosed := True\<rparr>)) in
        (c1\<lparr>csOpen := False\<rparr>, if csOpen c1 \<and> io ''close cursor log'' then Inr () else Inl (ErrIO ''close cursor log'')))"

subsection \<open>Frames\<close>

definition key_fits :: "string \<Rightarrow> bool" where
  "key_fits k \<longleftrightarrow> length k \<le> 65526"

abbreviation cursor_body :: "string \<Rightarrow> u64 \<Rightarrow> bytes" where
  "cursor_body key seq \<equiv> put64 seq @ put16 (of_nat (length key)) @ str_bytes key"

lemma encodeCursorRecord_split:
  "encodeCursorRecord key seq = put32 (crc32 (cursor_body key seq)) @ put32 (of_nat (10 + length key)) @ cursor_body key seq"
  by (simp add: encodeCursorRecord_def Let_def)

lemma length_encodeCursorRecord [simp]: "length (encodeCursorRecord key seq) = 18 + length key"
  by (simp add: encodeCursorRecord_split)

lemma cursor_header:
  assumes "key_fits key"
  shows "get32 (encodeCursorRecord key seq @ rest) = crc32 (cursor_body key seq)"
    and "unat (get32 (drop 4 (encodeCursorRecord key seq @ rest))) = 10 + length key"
    and "drop cursorRecordHeader (encodeCursorRecord key seq @ rest) = cursor_body key seq @ rest"
proof -
  have "unat (of_nat (10 + length key) :: u32) = 10 + length key"
    using assms by (intro unat_of_nat_32) (simp add: key_fits_def)
  then show "unat (get32 (drop 4 (encodeCursorRecord key seq @ rest))) = 10 + length key"
    by (simp add: encodeCursorRecord_split)
qed (simp_all add: encodeCursorRecord_split cursorRecordHeader_def)

lemma cursor_load_frame:
  assumes "key_fits key"
  shows "cursor_load (encodeCursorRecord key seq @ rest) al = cursor_load rest (AList.update key seq al)"
proof -
  have b: "take (10 + length key) (cursor_body key seq @ rest) = cursor_body key seq"
    "drop (10 + length key) (cursor_body key seq @ rest) = rest" by simp_all
  have k: "unat (of_nat (length key) :: u16) = length key"
    using assms by (intro unat_of_nat_16) (simp add: key_fits_def)
  show ?thesis
    using assms
    by (subst cursor_load.simps, unfold Let_def cursor_header [OF assms] b)
      (simp add: cursorRecordHeader_def k key_fits_def)
qed

lemma cursor_load_torn:
  assumes "key_fits key" and "n < length (encodeCursorRecord key seq)"
  shows "cursor_load (take n (encodeCursorRecord key seq)) al = al"
proof (cases "n < cursorRecordHeader")
  case True
  then show ?thesis by (subst cursor_load.simps) simp
next
  case False
  let ?r = "take n (encodeCursorRecord key seq)"
  have "unat (get32 (drop 4 ?r)) = 10 + length key"
    using cursor_header(2) [OF assms(1), of seq "[]"] False
    by (simp add: cursorRecordHeader_def drop_take min_def)
  moreover have "length (drop cursorRecordHeader ?r) < 10 + length key"
    using assms(2) by (simp add: cursorRecordHeader_def)
  ultimately show ?thesis by (subst cursor_load.simps) (simp add: Let_def)
qed

definition cursor_frames :: "(string \<times> u64) list \<Rightarrow> bytes" where
  "cursor_frames es = concat (map (\<lambda>(k, v). encodeCursorRecord k v) es)"

definition loaded :: "(string \<times> u64) list \<Rightarrow> (string \<times> u64) list \<Rightarrow> (string \<times> u64) list" where
  "loaded es al = fold (\<lambda>(k, v). AList.update k v) es al"

lemma cursor_frames_simps [simp]:
  "cursor_frames [] = []" "cursor_frames ((k, v) # es) = encodeCursorRecord k v @ cursor_frames es" "cursor_frames (xs @ ys) = cursor_frames xs @ cursor_frames ys"
  by (simp_all add: cursor_frames_def)

lemma loaded_simps [simp]:
  "loaded [] al = al" "loaded ((k, v) # es) al = loaded es (AList.update k v al)" "loaded (xs @ ys) al = loaded ys (loaded xs al)"
  by (simp_all add: loaded_def)

definition keys_fit :: "(string \<times> u64) list \<Rightarrow> bool" where
  "keys_fit es \<longleftrightarrow> (\<forall>(k, v) \<in> set es. key_fits k)"

lemma keys_fit_simps [simp]:
  "keys_fit []" "keys_fit ((k, v) # es) \<longleftrightarrow> key_fits k \<and> keys_fit es" "keys_fit (xs @ ys) \<longleftrightarrow> keys_fit xs \<and> keys_fit ys"
  by (auto simp: keys_fit_def)

lemma cursor_load_frames: "keys_fit es \<Longrightarrow> cursor_load (cursor_frames es @ rest) al = cursor_load rest (loaded es al)"
  by (induction es arbitrary: al) (auto simp: cursor_load_frame)

lemma cursor_load_Nil [simp]: "cursor_load [] al = al"
  by (subst cursor_load.simps) (simp add: cursorRecordHeader_def)

lemma cursor_load_prefix:
  assumes "keys_fit es" and "prefix bs (cursor_frames es)"
  shows "\<exists>n \<le> length es. cursor_load bs al = loaded (take n es) al \<and> (bs = cursor_frames es \<longrightarrow> n = length es)"
  using assms
proof (induction es arbitrary: bs al)
  case Nil
  then show ?case by auto
next
  case (Cons e es)
  obtain k v where e: "e = (k, v)" by (cases e)
  have fit: "key_fits k" "keys_fit es" using Cons.prems(1) by (simp_all add: e)
  let ?r = "encodeCursorRecord k v"
  obtain t where t: "?r @ cursor_frames es = bs @ t" using Cons.prems(2) by (auto simp: e prefix_def)
  show ?case
  proof (cases "length bs < length ?r")
    case True
    have "bs = take (length bs) ?r" using arg_cong [OF t, of "take (length bs)"] True by simp
    then have "cursor_load bs al = al" using cursor_load_torn [OF fit(1) True] by simp
    moreover have "bs \<noteq> cursor_frames (e # es)" using True by (auto simp: e)
    ultimately show ?thesis by (intro exI [of _ 0]) simp
  next
    case False
    define bs' where "bs' = drop (length ?r) bs"
    have "take (length ?r) (bs @ t) = take (length ?r) bs" using False by simp
    moreover have "take (length ?r) (bs @ t) = ?r" unfolding t [symmetric] by simp
    ultimately have "take (length ?r) bs = ?r" by (simp only:)
    then have bs: "bs = ?r @ bs'" unfolding bs'_def by (metis append_take_drop_id)
    then have bs': "bs = ?r @ bs'" "prefix bs' (cursor_frames es)" using t by (auto simp: prefix_def)
    obtain n where n: "n \<le> length es" "cursor_load bs' (AList.update k v al) = loaded (take n es) (AList.update k v al)"
        "bs' = cursor_frames es \<longrightarrow> n = length es"
      using Cons.IH [OF fit(2) bs'(2)] by blast
    then show ?thesis
      using bs' cursor_load_frame [OF fit(1)] by (intro exI [of _ "Suc n"]) (auto simp: e)
  qed
qed

subsection \<open>The store and its file\<close>

text \<open>
  The file is a prefix of the frames of the commits \<open>es\<close>, which with the buffered bytes is complete
  unless a write failed; later commits of a key are larger, no position in the file is ahead of the
  one in memory, and while the writer works the commits are all the positions.
\<close>

definition ascending :: "(string \<times> u64) list \<Rightarrow> bool" where
  "ascending es \<longleftrightarrow> sorted_wrt (\<lambda>x y. fst x = fst y \<longrightarrow> snd x < snd y) es"

definition behind :: "(string \<times> u64) list \<Rightarrow> (string \<times> u64) list \<Rightarrow> bool" where
  "behind al bl \<longleftrightarrow> (\<forall>k v. map_of al k = Some v \<longrightarrow> (\<exists>w. map_of bl k = Some w \<and> v \<le> w))"

definition cursor_rep :: "cursor_store \<Rightarrow> (string \<times> u64) list \<Rightarrow> bool" where
  "cursor_rep c es \<longleftrightarrow>
     keys_fit es \<and> keys_fit (csPositions c) \<and> ascending es \<and> distinct (map fst (csPositions c)) \<and>
     (\<forall>(k, v) \<in> set es. \<exists>w. map_of (csPositions c) k = Some w \<and> v \<le> w) \<and>
     prefix (csFile c) (cursor_frames es) \<and> length (fst (csWriter c)) \<le> cursorWriterSize \<and>
     (\<not> snd (csWriter c) \<longrightarrow> csFile c @ fst (csWriter c) = cursor_frames es) \<and>
     (\<not> snd (csWriter c) \<longrightarrow> csOpen c \<longrightarrow> map_of (loaded es []) = map_of (csPositions c))"

lemma behind_refl [simp]: "behind al al"
  by (auto simp: behind_def)

lemma behind_trans: "behind al bl \<Longrightarrow> behind bl cl \<Longrightarrow> behind al cl"
  unfolding behind_def by (meson order.trans)

lemma loaded_lookup: "map_of (loaded es []) k = map_of (rev es) k"
proof -
  have "map_of (loaded es al) k = (case map_of (rev es) k of Some v \<Rightarrow> Some v | None \<Rightarrow> map_of al k)" for al
    by (induction es arbitrary: al) (auto simp: update_conv' map_add_def split: option.splits)
  from this [of "[]"] show ?thesis by (simp split: option.splits)
qed

lemma loaded_mem: "map_of (loaded es []) k = Some v \<Longrightarrow> (k, v) \<in> set es"
  using map_of_SomeD [of "rev es" k v] by (simp add: loaded_lookup)

lemma rep_behind: "cursor_rep c es \<Longrightarrow> behind (loaded (take n es) []) (csPositions c)"
  unfolding behind_def cursor_rep_def by (auto dest!: loaded_mem in_set_takeD)

lemma bufio_write_prefix:
  assumes "bufio_write n ok p f w = (f', w')" and "length (fst w) \<le> n"
    and "prefix f fs" and "\<not> snd w \<longrightarrow> f @ fst w = fs"
  shows "prefix f' (fs @ p)" and "length (fst w') \<le> n" and "\<not> snd w' \<longrightarrow> f' @ fst w' = fs @ p"
proof -
  have "prefix f' (fs @ p) \<and> length (fst w') \<le> n \<and> (\<not> snd w' \<longrightarrow> f' @ fst w' = fs @ p)"
  proof (cases "snd w \<or> ok = False")
    case True
    then show ?thesis
      using assms by (cases w) (auto simp: bufio_write_def bufio_write_empty_def Let_def split: if_splits intro: prefix_prefix)
  next
    case False
    then obtain buf where w: "w = (buf, False)" "ok" by (cases w) auto
    obtain g' buf' where g: "bufio_write n ok p f (buf, False) = (g', (buf', False))" "g' @ buf' = f @ buf @ p" "length buf' \<le> n"
      by (rule bufio_write_ok [of ok buf n p f]) (use w assms(2) in auto)
    then have "fs @ p = f' @ buf'" "w' = (buf', False)" using assms(1,4) w by auto
    then show ?thesis using g(3) by (simp add: prefixI)
  qed
  then show "prefix f' (fs @ p)" "length (fst w') \<le> n" "\<not> snd w' \<longrightarrow> f' @ fst w' = fs @ p" by auto
qed

lemma bufio_flush_prefix:
  assumes "bufio_flush ok f w = (f', w')" and "prefix f fs" and "\<not> snd w \<longrightarrow> f @ fst w = fs"
  shows "prefix f' fs" and "\<not> snd w' \<longrightarrow> f' = fs \<and> fst w' = []" and "length (fst w') \<le> length (fst w)"
    and "\<not> snd w' \<Longrightarrow> \<not> snd w"
  using assms by (cases w; auto simp: bufio_flush_def split: if_splits)+

lemma ascending_snoc: "ascending es \<Longrightarrow> (\<forall>v. (k, v) \<in> set es \<longrightarrow> v < s) \<Longrightarrow> ascending (es @ [(k, s)])"
  by (auto simp: ascending_def sorted_wrt_append)

lemma cursor_write_rep:
  assumes "cursor_write io (encodeCursorRecord k s) c = (c', ok)"
    and "keys_fit es" and "prefix (csFile c) (cursor_frames es)" and "length (fst (csWriter c)) \<le> cursorWriterSize"
    and "\<not> snd (csWriter c) \<longrightarrow> csFile c @ fst (csWriter c) = cursor_frames es"
  shows "prefix (csFile c') (cursor_frames (es @ [(k, s)]))" and "length (fst (csWriter c')) \<le> cursorWriterSize"
    and "\<not> snd (csWriter c') \<longrightarrow> csFile c' @ fst (csWriter c') = cursor_frames (es @ [(k, s)])"
    and "csPositions c' = csPositions c" and "csClosed c' = csClosed c" and "ok = (\<not> snd (csWriter c'))" and "csOpen c' = csOpen c"
proof -
  obtain f w where b: "bufio_write cursorWriterSize (csOpen c \<and> io ''write cursor'') (encodeCursorRecord k s) (csFile c) (csWriter c) = (f, w)"
    by (cases "bufio_write cursorWriterSize (csOpen c \<and> io ''write cursor'') (encodeCursorRecord k s) (csFile c) (csWriter c)")
  then have c': "c' = c\<lparr>csFile := f, csWriter := w\<rparr>" "ok = (\<not> snd w)" using assms(1) by (simp_all add: cursor_write_def)
  then show "csPositions c' = csPositions c" "csClosed c' = csClosed c" "ok = (\<not> snd (csWriter c'))" "csOpen c' = csOpen c" by simp_all
  from bufio_write_prefix [OF b assms(4,3,5)] c'
  show "prefix (csFile c') (cursor_frames (es @ [(k, s)]))" "length (fst (csWriter c')) \<le> cursorWriterSize"
    "\<not> snd (csWriter c') \<longrightarrow> csFile c' @ fst (csWriter c') = cursor_frames (es @ [(k, s)])" by simp_all
qed

lemma cursor_write_err: "cursor_write io p c = (c', ok) \<Longrightarrow> \<not> snd (csWriter c') \<Longrightarrow> \<not> snd (csWriter c)"
  by (cases "csWriter c") (auto simp: cursor_write_def bufio_write_def split: prod.splits if_splits)

lemma cursor_flush_rep:
  assumes "cursor_flush io c = (c', ok)" and "cursor_rep c es"
  shows "cursor_rep c' es" and "ok = (\<not> snd (csWriter c'))" and "ok \<Longrightarrow> csFile c' = cursor_frames es \<and> csWriter c' = ([], False)"
    and "csPositions c' = csPositions c" and "csClosed c' = csClosed c" and "csOpen c' = csOpen c"
proof -
  obtain f w where b: "bufio_flush (csOpen c \<and> io ''write cursor'') (csFile c) (csWriter c) = (f, w)"
    by (cases "bufio_flush (csOpen c \<and> io ''write cursor'') (csFile c) (csWriter c)")
  then have c': "c' = c\<lparr>csFile := f, csWriter := w\<rparr>" "ok = (\<not> snd w)" using assms(1) by (simp_all add: cursor_flush_def)
  then show "csPositions c' = csPositions c" "csClosed c' = csClosed c" "ok = (\<not> snd (csWriter c'))" "csOpen c' = csOpen c" by simp_all
  have p: "prefix (csFile c) (cursor_frames es)" "\<not> snd (csWriter c) \<longrightarrow> csFile c @ fst (csWriter c) = cursor_frames es"
    using assms(2) by (simp_all add: cursor_rep_def)
  note q = bufio_flush_prefix [OF b p]
  show "cursor_rep c' es" using assms(2) q c' by (auto simp: cursor_rep_def)
  show "ok \<Longrightarrow> csFile c' = cursor_frames es \<and> csWriter c' = ([], False)" using q c' by (cases w) auto
qed

lemma Commit_rep:
  assumes "Commit io key seq c = (c', r)" and "cursor_rep c es" and "key_fits (CursorKey_String key)"
  shows "\<exists>es'. cursor_rep c' es'" and "behind (csPositions c) (csPositions c')"
    and "Position key c' = (if csClosed c then Position key c
       else case Position key c of None \<Rightarrow> Some seq | Some cur \<Rightarrow> Some (max cur seq))"
    and "key' \<noteq> CursorKey_String key \<Longrightarrow> map_of (csPositions c') key' = map_of (csPositions c) key'"
proof -
  let ?k = "CursorKey_String key"
  let ?skip = "csClosed c \<or> (case map_of (csPositions c) ?k of None \<Rightarrow> False | Some cur \<Rightarrow> seq \<le> cur)"
  let ?c1 = "c\<lparr>csPositions := AList.update ?k seq (csPositions c)\<rparr>"
  have rep: "keys_fit es" "keys_fit (csPositions c)" "ascending es" "distinct (map fst (csPositions c))"
      "\<forall>(k, v) \<in> set es. \<exists>w. map_of (csPositions c) k = Some w \<and> v \<le> w" "prefix (csFile c) (cursor_frames es)"
      "length (fst (csWriter c)) \<le> cursorWriterSize" "\<not> snd (csWriter c) \<longrightarrow> csFile c @ fst (csWriter c) = cursor_frames es"
      "\<not> snd (csWriter c) \<longrightarrow> csOpen c \<longrightarrow> map_of (loaded es []) = map_of (csPositions c)"
    using assms(2) unfolding cursor_rep_def by blast+
  have "(\<exists>es'. cursor_rep c' es') \<and> (c' = c \<and> ?skip \<or> \<not> ?skip \<and> csPositions c' = AList.update ?k seq (csPositions c))"
  proof (cases ?skip)
    case True
    then have "c' = c" using assms(1) unfolding Commit_def Let_def by (auto split: option.splits if_splits)
    then show ?thesis using assms(2) True by blast
  next
    case False
    obtain c2 ok where c2: "cursor_write io (encodeCursorRecord ?k seq) ?c1 = (c2, ok)" by fastforce
    have w: "prefix (csFile ?c1) (cursor_frames es)" "length (fst (csWriter ?c1)) \<le> cursorWriterSize"
      "\<not> snd (csWriter ?c1) \<longrightarrow> csFile ?c1 @ fst (csWriter ?c1) = cursor_frames es" using rep by simp_all
    note w2 = cursor_write_rep [OF c2 rep(1) w]
    have newer: "(?k, v) \<in> set es \<Longrightarrow> v < seq" for v
      using rep(5) False by (fastforce split: option.splits)
    have "csPositions c' = csPositions c2 \<and> csFile c' = csFile c2 \<and> csWriter c' = csWriter c2 \<and> csOpen c' = csOpen c2"
      using assms(1) False c2 by (auto simp: Commit_def Let_def maybeCompact_def split: option.splits bool.splits if_splits)
    moreover have "ascending (es @ [(?k, seq)])" using ascending_snoc [OF rep(3)] newer by blast
    moreover have "\<exists>w. map_of (AList.update ?k seq (csPositions c)) k = Some w \<and> v \<le> w"
      if "(k, v) \<in> set (es @ [(?k, seq)])" for k v
    proof (cases "k = ?k")
      case True
      then show ?thesis using that newer by (auto simp: update_conv' dest: less_imp_le)
    next
      case neq: False
      then have "(k, v) \<in> set es" using that by auto
      then show ?thesis using rep(5) neq by (fastforce simp: update_conv')
    qed
    then have "\<forall>(k, v) \<in> set (es @ [(?k, seq)]). \<exists>w. map_of (AList.update ?k seq (csPositions c)) k = Some w \<and> v \<le> w"
      by blast
    moreover have "keys_fit (AList.update ?k seq (csPositions c))"
      using rep(2) assms(3) update_all [of "csPositions c" "\<lambda>(k, v). key_fits k" ?k seq] by (simp add: keys_fit_def)
    moreover have "\<not> snd (csWriter c2) \<longrightarrow> csOpen c2 \<longrightarrow>
        map_of (loaded (es @ [(?k, seq)]) []) = map_of (AList.update ?k seq (csPositions c))"
      using rep(9) cursor_write_err [OF c2] w2(7) by (auto simp: update_conv')
    ultimately have "cursor_rep c' (es @ [(?k, seq)])"
      using rep(1,4) w2 assms(3) by (simp add: cursor_rep_def distinct_update)
    then show ?thesis using False \<open>csPositions c' = csPositions c2 \<and> _\<close> w2(4) by auto
  qed
  then have ex: "\<exists>es'. cursor_rep c' es'" and pos: "c' = c \<and> ?skip \<or> \<not> ?skip \<and> csPositions c' = AList.update ?k seq (csPositions c)" by auto
  show "\<exists>es'. cursor_rep c' es'" by (rule ex)
  show "behind (csPositions c) (csPositions c')" using pos by (auto simp: behind_def update_conv' split: option.splits)
  show "Position key c' = (if csClosed c then Position key c
       else case Position key c of None \<Rightarrow> Some seq | Some cur \<Rightarrow> Some (max cur seq))"
    using pos by (auto simp: Position_def update_conv' max_def split: option.splits)
  show "key' \<noteq> CursorKey_String key \<Longrightarrow> map_of (csPositions c') key' = map_of (csPositions c) key'"
    using pos by (auto simp: update_conv')
qed

subsection \<open>Compaction\<close>

lemma sorted_snapshot_facts:
  assumes "distinct (map fst al)"
  shows "map_of (sorted_snapshot al) = map_of al" and "distinct (map fst (sorted_snapshot al))"
    and "set (sorted_snapshot al) = set al"
proof -
  have fst: "map fst (sorted_snapshot al) = sort (map fst al)" by (simp add: sorted_snapshot_def comp_def)
  then show d: "distinct (map fst (sorted_snapshot al))" using assms by simp
  have "(k, v) \<in> set (sorted_snapshot al) \<longleftrightarrow> (k, v) \<in> set al" for k v
    using assms by (force simp: sorted_snapshot_def)
  then show s: "set (sorted_snapshot al) = set al" by auto
  show "map_of (sorted_snapshot al) = map_of al"
    using d assms s by (simp add: map_of_inject_set)
qed

lemma replay_missed_rep:
  assumes "replay_missed io kvs c = (c', r)" and "keys_fit es" and "prefix (csFile c) (cursor_frames es)"
    and "length (fst (csWriter c)) \<le> cursorWriterSize" and "\<not> snd (csWriter c) \<longrightarrow> csFile c @ fst (csWriter c) = cursor_frames es"
    and "keys_fit kvs"
  shows "prefix (csFile c') (cursor_frames (es @ kvs)) \<and> length (fst (csWriter c')) \<le> cursorWriterSize \<and>
    (\<not> snd (csWriter c') \<longrightarrow> csFile c' @ fst (csWriter c') = cursor_frames (es @ kvs)) \<and>
    csPositions c' = csPositions c \<and> csClosed c' = csClosed c \<and> csOpen c' = csOpen c"
  using assms
proof (induction kvs arbitrary: es c)
  case Nil
  then show ?case by auto
next
  case (Cons kv kvs)
  obtain k v where kv: "kv = (k, v)" by (cases kv)
  obtain c1 ok where c1: "cursor_write io (encodeCursorRecord k v) c = (c1, ok)" by (cases "cursor_write io (encodeCursorRecord k v) c")
  note w = cursor_write_rep [OF c1 Cons.prems(2-5)]
  show ?case
  proof (cases ok)
    case False
    then have "c' = c1" using Cons.prems(1) c1 by (simp add: kv)
    moreover have "prefix (csFile c1) (cursor_frames (es @ kv # kvs))"
      using w(1) by (simp add: kv) (metis append.assoc prefix_append prefix_order.refl prefix_prefix)
    ultimately show ?thesis using w False by simp
  next
    case True
    let ?c2 = "c1\<lparr>csSize := csSize c1 + int (length (encodeCursorRecord k v))\<rparr>"
    have "replay_missed io kvs ?c2 = (c', r)" using Cons.prems(1) c1 True by (simp add: kv)
    from Cons.IH [OF this, of "es @ [kv]"] show ?thesis using w Cons.prems(2,6) by (simp add: kv)
  qed
qed

text \<open>
  The state of a store and of a compaction that has taken its snapshot.
\<close>

definition cursor_inv :: "cursor_store \<times> (string \<times> u64) list option \<Rightarrow> bool" where
  "cursor_inv s \<longleftrightarrow> (\<exists>es. cursor_rep (fst s) es) \<and>
     (\<forall>snap. snd s = Some snap \<longrightarrow> distinct (map fst snap) \<and> keys_fit snap \<and> behind snap (csPositions (fst s)))"

lemma missed_complete:
  assumes "distinct (map fst al)" and "distinct (map fst snap)" and "behind snap al"
  shows "\<forall>(k, v) \<in> set (sorted_snapshot snap @ filter (\<lambda>(k, v). map_of snap k \<noteq> Some v) al). \<exists>w. map_of al k = Some w \<and> v \<le> w"
    and "ascending (sorted_snapshot snap @ filter (\<lambda>(k, v). map_of snap k \<noteq> Some v) al)"
    and "map_of (loaded (sorted_snapshot snap @ filter (\<lambda>(k, v). map_of snap k \<noteq> Some v) al) []) = map_of al"
proof -
  let ?m = "filter (\<lambda>(k, v). map_of snap k \<noteq> Some v) al"
  note ss = sorted_snapshot_facts [OF assms(2)]
  have mem: "(k, v) \<in> set al \<longleftrightarrow> map_of al k = Some v" for k v using assms(1) by simp
  have dm: "distinct (map fst ?m)" using assms(1) by (simp add: distinct_map_filter)
  show "\<forall>(k, v) \<in> set (sorted_snapshot snap @ ?m). \<exists>w. map_of al k = Some w \<and> v \<le> w"
    using assms(2,3) mem by (auto simp: ss(3) behind_def)
  have asc: "ascending xs" if "distinct (map fst xs)" for xs :: "(string \<times> u64) list"
    using that by (induction xs) (auto simp: ascending_def image_iff)
  have "snd x < snd y" if "x \<in> set (sorted_snapshot snap)" "y \<in> set ?m" "fst x = fst y" for x y
  proof -
    have x: "map_of snap (fst x) = Some (snd x)" using that(1) assms(2) by (simp add: ss(3))
    have y: "map_of al (fst x) = Some (snd y)" "map_of snap (fst x) \<noteq> Some (snd y)"
      using that(2,3) mem [of "fst y" "snd y"] by (auto simp: case_prod_beta)
    obtain w where "map_of al (fst x) = Some w" "snd x \<le> w" using assms(3) x unfolding behind_def by blast
    then have "snd x \<le> snd y" using y(1) by simp
    then show ?thesis using x y(2) by (auto simp: order.order_iff_strict)
  qed
  then show "ascending (sorted_snapshot snap @ ?m)"
    using asc [OF ss(2)] asc [OF dm] by (auto simp: ascending_def sorted_wrt_append)
  show "map_of (loaded (sorted_snapshot snap @ ?m) []) = map_of al"
  proof
    fix k
    have "map_of (rev xs) = map_of xs" if "distinct (map fst xs)" for xs :: "(string \<times> u64) list"
      using that by (metis map_of_inject_set distinct_rev rev_map set_rev)
    then have l: "map_of (loaded (sorted_snapshot snap @ ?m) []) k = (map_of snap ++ map_of ?m) k"
      using dm ss(1,2) by (simp add: loaded_lookup del: loaded_simps)
    show "map_of (loaded (sorted_snapshot snap @ ?m) []) k = map_of al k"
    proof (cases "map_of ?m k")
      case (Some v)
      then have "map_of al k = Some v" using mem dm by (auto dest: map_of_SomeD)
      then show ?thesis using l Some by (simp add: map_add_def)
    next
      case None
      then have "map_of al k = Some v \<Longrightarrow> map_of snap k = Some v" for v
        using mem [of k v] by (force simp: map_of_eq_None_iff image_iff)
      moreover have "map_of snap k = Some v \<Longrightarrow> map_of al k \<noteq> None" for v using assms(3) by (auto simp: behind_def)
      ultimately show ?thesis using l None by (cases "map_of al k"; cases "map_of snap k") (auto simp: map_add_def)
    qed
  qed
qed

lemma compact_finish_rep:
  assumes "compact_finish io snap (compact_file snap) c = (c', r)" and "cursor_inv (c, Some snap)"
    and "io ''rename cursor log'' \<or> snd (cursor_flush io c) \<and> csOpen c"
  shows "\<exists>es. cursor_rep c' es" and "csPositions c' = csPositions c"
proof -
  obtain es where es: "cursor_rep c es" using assms(2) by (auto simp: cursor_inv_def)
  have snap: "distinct (map fst snap)" "keys_fit snap" "behind snap (csPositions c)" using assms(2) by (simp_all add: cursor_inv_def)
  have pos: "distinct (map fst (csPositions c))" "keys_fit (csPositions c)" using es by (simp_all add: cursor_rep_def)
  obtain c1 ok where c1: "cursor_flush io c = (c1, ok)" by (cases "cursor_flush io c")
  note f = cursor_flush_rep [OF c1 es]
  let ?m = "filter (\<lambda>(k, v). map_of snap k \<noteq> Some v) (csPositions c)"
  let ?es = "sorted_snapshot snap @ ?m"
  note mc = missed_complete [OF pos(1) snap(1,3)]
  have fit: "keys_fit (sorted_snapshot snap)" "keys_fit ?m"
    using snap(1,2) pos(2) sorted_snapshot_facts(3) [OF snap(1)] by (auto simp: keys_fit_def)
  have tmp: "compact_file snap = cursor_frames (sorted_snapshot snap)" by (simp add: compact_file_def cursor_frames_def)
  have asc: "ascending (sorted_snapshot snap)" using mc(2) by (simp add: ascending_def sorted_wrt_append)
  have "(\<exists>es. cursor_rep c' es) \<and> csPositions c' = csPositions c"
  proof (cases "csClosed c")
    case True
    then show ?thesis using assms(1) es by (auto simp: compact_finish_def)
  next
    case still: False
    show ?thesis
    proof (cases "io ''rename cursor log''")
      case False
      then have "ok" "csOpen c" using assms(3) c1 by auto
      then have "cursor_rep (c1\<lparr>csOpen := True, csWriter := ([], False)\<rparr>) es" "cursor_rep (c1\<lparr>csOpen := False\<rparr>) es"
        using f by (auto simp: cursor_rep_def)
      then show ?thesis using assms(1) still False c1 f(4) by (auto simp: compact_finish_def Let_def split: if_splits)
    next
      case rename: True
      show ?thesis
      proof (cases "io ''reopen cursor log''")
        case False
        have "cursor_rep (c1\<lparr>csFile := compact_file snap, csOpen := False\<rparr>) (sorted_snapshot snap)"
          using f mc(1) fit asc pos tmp by (auto simp: cursor_rep_def)
        then show ?thesis using assms(1) still rename False c1 f(4) by (auto simp: compact_finish_def Let_def)
      next
        case True
        let ?c2 = "c1\<lparr>csFile := compact_file snap, csOpen := True, csWriter := ([], False), csSize := int (length (compact_file snap))\<rparr>"
        obtain c3 r3 where c3: "replay_missed io ?m ?c2 = (c3, r3)" by (cases "replay_missed io ?m ?c2")
        have "prefix (csFile c3) (cursor_frames ?es) \<and> length (fst (csWriter c3)) \<le> cursorWriterSize \<and>
            (\<not> snd (csWriter c3) \<longrightarrow> csFile c3 @ fst (csWriter c3) = cursor_frames ?es) \<and>
            csPositions c3 = csPositions ?c2 \<and> csClosed c3 = csClosed ?c2 \<and> csOpen c3 = csOpen ?c2"
          by (rule replay_missed_rep [OF c3 fit(1) _ _ _ fit(2)]) (simp_all add: tmp)
        then have rep3: "cursor_rep c3 ?es" "csPositions c3 = csPositions c"
          using mc fit pos f(4) unfolding cursor_rep_def by (simp_all del: loaded_simps)
        obtain c4 ok4 where c4: "cursor_flush io c3 = (c4, ok4)" by (cases "cursor_flush io c3")
        note f4 = cursor_flush_rep [OF c4 rep3(1)]
        have "c' = c3 \<or> c' = c4"
          using assms(1) still rename True c1 c3 c4 by (auto simp: compact_finish_def Let_def split: sum.splits)
        then show ?thesis using rep3 f4(1,4) by auto
      qed
    qed
  qed
  then show "\<exists>es. cursor_rep c' es" "csPositions c' = csPositions c" by auto
qed

subsection \<open>Restarts\<close>

text \<open>
  Any interleaving of commits, flushes and compactions with any failing system calls, except a
  rename that fails after a flush that failed, which drops bytes from the middle of the log.
\<close>

inductive cursor_step :: "cursor_store \<times> (string \<times> u64) list option \<Rightarrow> cursor_store \<times> (string \<times> u64) list option \<Rightarrow> bool" where
  commit: "key_fits (CursorKey_String key) \<Longrightarrow> Commit io key seq c = (c', r) \<Longrightarrow> cursor_step (c, sn) (c', sn)"
| flush: "cursor_Flush io c = (c', r) \<Longrightarrow> cursor_step (c, sn) (c', sn)"
| sync: "cursor_Sync io c = (c', r) \<Longrightarrow> cursor_step (c, sn) (c', sn)"
| tick: "cursor_step (c, sn) (autoFlush_tick io c, sn)"
| compact_start: "compact_begin io c = (c', Inr snap) \<Longrightarrow> cursor_step (c, None) (c', Some snap)"
| compact_refused: "compact_begin io c = (c', Inl e) \<Longrightarrow> cursor_step (c, None) (c', None)"
| compact_abandon: "compact_write io snap = Inl e \<Longrightarrow> cursor_step (c, Some snap) (c\<lparr>csCompacting := False\<rparr>, None)"
| compact_swap: "compact_write io snap = Inr tmp \<Longrightarrow> compact_finish io snap tmp c = (c', r) \<Longrightarrow>
    io ''rename cursor log'' \<or> snd (cursor_flush io c) \<and> csOpen c \<Longrightarrow>
    cursor_step (c, Some snap) (c'\<lparr>csCompacting := False\<rparr>, None)"
| close: "cursor_Close io c = (c', r) \<Longrightarrow> cursor_step (c, sn) (c', sn)"

definition cursor_init :: "cursor_store \<times> (string \<times> u64) list option \<Rightarrow> bool" where
  "cursor_init s \<longleftrightarrow> snd s = None \<and> (\<exists>io. OpenCursorStore io None = Inr (fst s))"

lemma OpenCursorStore_ok:
  assumes "OpenCursorStore io disk = Inr c"
  shows "csFile c = (case disk of None \<Rightarrow> [] | Some bs \<Rightarrow> bs)" and "csPositions c = cursor_load (csFile c) []"
    and "csWriter c = ([], False)" and "csOpen c" and "\<not> csClosed c"
  using assms unfolding OpenCursorStore_def Let_def by (auto split: if_splits)

lemma cursor_rep_frame:
  "cursor_rep c es \<Longrightarrow> csPositions c' = csPositions c \<Longrightarrow> csFile c' = csFile c \<Longrightarrow> csWriter c' = csWriter c \<Longrightarrow>
     csOpen c' \<longrightarrow> csOpen c \<Longrightarrow> cursor_rep c' es"
  by (auto simp: cursor_rep_def)

lemma cursor_flush_cases:
  assumes "cursor_rep c es"
  shows "cursor_Flush io c = (c', r) \<Longrightarrow> cursor_rep c' es \<and> csPositions c' = csPositions c"
    and "cursor_Sync io c = (c', r) \<Longrightarrow> cursor_rep c' es \<and> csPositions c' = csPositions c"
    and "compact_begin io c = (c', q) \<Longrightarrow> cursor_rep c' es \<and> csPositions c' = csPositions c \<and> (\<forall>snap. q = Inr snap \<longrightarrow> snap = csPositions c)"
    and "cursor_Close io c = (c', r) \<Longrightarrow> cursor_rep c' es \<and> csPositions c' = csPositions c"
proof -
  obtain c1 ok where c1: "cursor_flush io c = (c1, ok)" by (cases "cursor_flush io c")
  note f = cursor_flush_rep [OF c1 assms]
  show "cursor_Flush io c = (c', r) \<Longrightarrow> cursor_rep c' es \<and> csPositions c' = csPositions c"
    using assms f c1 by (auto simp: cursor_Flush_def split: if_splits)
  show "cursor_Sync io c = (c', r) \<Longrightarrow> cursor_rep c' es \<and> csPositions c' = csPositions c"
    using assms f c1 by (cases ok) (auto simp: cursor_Sync_def split: if_splits)
  show "compact_begin io c = (c', q) \<Longrightarrow> cursor_rep c' es \<and> csPositions c' = csPositions c \<and> (\<forall>snap. q = Inr snap \<longrightarrow> snap = csPositions c)"
    using assms f c1 by (cases ok) (auto simp: compact_begin_def split: if_splits)
  have cl: "cursor_rep (c\<lparr>csClosed := True\<rparr>) es" by (rule cursor_rep_frame [OF assms]) simp_all
  obtain c2 ok2 where c2: "cursor_flush io (c\<lparr>csClosed := True\<rparr>) = (c2, ok2)" by (cases "cursor_flush io (c\<lparr>csClosed := True\<rparr>)")
  note f2 = cursor_flush_rep [OF c2 cl]
  have "cursor_rep (c2\<lparr>csOpen := False\<rparr>) es" by (rule cursor_rep_frame [OF f2(1)]) simp_all
  then show "cursor_Close io c = (c', r) \<Longrightarrow> cursor_rep c' es \<and> csPositions c' = csPositions c"
    using assms c2 f2(4) by (auto simp: cursor_Close_def Let_def split: if_splits)
qed

lemma cursor_inv_keep:
  "cursor_inv (c, sn) \<Longrightarrow> cursor_rep c' es \<Longrightarrow> behind (csPositions c) (csPositions c') \<Longrightarrow>
     cursor_inv (c', sn) \<and> behind (csPositions (fst (c, sn))) (csPositions (fst (c', sn)))"
  by (auto simp: cursor_inv_def intro: behind_trans)

lemma autoFlush_tick_cases: "cursor_rep c es \<Longrightarrow> cursor_rep (autoFlush_tick io c) es \<and> csPositions (autoFlush_tick io c) = csPositions c"
proof -
  assume "cursor_rep c es"
  then have "cursor_rep (c\<lparr>csDirty := False\<rparr>) es" by (rule cursor_rep_frame) simp_all
  from cursor_flush_cases(1) [OF this] \<open>cursor_rep c es\<close> show ?thesis
    by (cases "cursor_Flush io (c\<lparr>csDirty := False\<rparr>)") (auto simp: autoFlush_tick_def)
qed

lemma cursor_inv_rep: "cursor_inv (c, sn) \<Longrightarrow> \<exists>es. cursor_rep c es"
  by (simp add: cursor_inv_def)

lemma cursor_inv_new:
  assumes "cursor_rep c' es" and "csPositions c' = csPositions c" and "sn' = None \<or> sn' = Some (csPositions c)"
  shows "cursor_inv (c', sn') \<and> behind (csPositions (fst (c, sn))) (csPositions (fst (c', sn')))"
proof -
  have "distinct (map fst (csPositions c))" "keys_fit (csPositions c)" using assms(1,2) by (simp_all add: cursor_rep_def)
  then show ?thesis using assms by (auto simp: cursor_inv_def)
qed

lemma cursor_step_inv:
  assumes "cursor_step s s'" and "cursor_inv s"
  shows "cursor_inv s' \<and> behind (csPositions (fst s)) (csPositions (fst s'))"
  using assms
proof (induction rule: cursor_step.induct)
  case (commit key io seq c c' r sn)
  obtain es where es: "cursor_rep c es" using cursor_inv_rep [OF commit(3)] by blast
  obtain es' where "cursor_rep c' es'" using Commit_rep(1) [OF commit(2) es commit(1)] by blast
  from cursor_inv_keep [OF commit(3) this Commit_rep(2) [OF commit(2) es commit(1)]] show ?case .
next
  case (flush io c c' r sn)
  obtain es where es: "cursor_rep c es" using cursor_inv_rep [OF flush(2)] by blast
  note r = cursor_flush_cases(1) [OF es flush(1)]
  show ?case using r by (intro cursor_inv_keep [OF flush(2), of _ es]) simp_all
next
  case (sync io c c' r sn)
  obtain es where es: "cursor_rep c es" using cursor_inv_rep [OF sync(2)] by blast
  note r = cursor_flush_cases(2) [OF es sync(1)]
  show ?case using r by (intro cursor_inv_keep [OF sync(2), of _ es]) simp_all
next
  case (tick c sn io)
  obtain es where es: "cursor_rep c es" using cursor_inv_rep [OF tick] by blast
  note r = autoFlush_tick_cases [OF es, of io]
  show ?case using r by (intro cursor_inv_keep [OF tick, of _ es]) simp_all
next
  case (compact_start io c c' snap)
  obtain es where es: "cursor_rep c es" using cursor_inv_rep [OF compact_start(2)] by blast
  note r = cursor_flush_cases(3) [OF es compact_start(1)]
  show ?case using r by (intro cursor_inv_new [of _ es]) simp_all
next
  case (compact_refused io c c' e)
  obtain es where es: "cursor_rep c es" using cursor_inv_rep [OF compact_refused(2)] by blast
  note r = cursor_flush_cases(3) [OF es compact_refused(1)]
  show ?case using r by (intro cursor_inv_new [of _ es]) simp_all
next
  case (compact_abandon io snap e c)
  obtain es where es: "cursor_rep c es" using cursor_inv_rep [OF compact_abandon(2)] by blast
  show ?case using cursor_rep_frame [OF es] by (intro cursor_inv_new [of _ es]) simp_all
next
  case (compact_swap io snap tmp c c' r)
  have tmp: "tmp = compact_file snap" using compact_swap(1) by (simp add: compact_write_def split: if_splits)
  note f = compact_finish_rep [OF compact_swap(2) [unfolded tmp] compact_swap(4,3)]
  then obtain es where es: "cursor_rep c' es" by blast
  show ?case using cursor_rep_frame [OF es] f(2) by (intro cursor_inv_new [of _ es]) simp_all
next
  case (close io c c' r sn)
  obtain es where es: "cursor_rep c es" using cursor_inv_rep [OF close(2)] by blast
  note r = cursor_flush_cases(4) [OF es close(1)]
  show ?case using r by (intro cursor_inv_keep [OF close(2), of _ es]) simp_all
qed

interpretation cursor_machine: state_machine cursor_init cursor_step cursor_inv
proof
  fix s assume "cursor_init s"
  then obtain io where "snd s = None" "OpenCursorStore io None = Inr (fst s)" by (auto simp: cursor_init_def)
  with OpenCursorStore_ok [of io None "fst s"] show "cursor_inv s"
    by (simp add: cursor_inv_def cursor_rep_def ascending_def cursorWriterSize_def exI [of _ "[]"])
next
  fix s s' assume "cursor_step s s'" "cursor_inv s"
  then show "cursor_inv s'" using cursor_step_inv by blast
qed

lemma cursor_restart_facts:
  assumes "reachable cursor_init cursor_step (c, sn)"
    and "OpenCursorStore io (Some (csFile c @ take n (fst (csWriter c)))) = Inr c'"
  shows "snd (csWriter c) \<longrightarrow> n = 0 \<Longrightarrow> Position key c' = Some s \<Longrightarrow> \<exists>s'. Position key c = Some s' \<and> s \<le> s'"
    and "\<not> snd (csWriter c) \<Longrightarrow> csOpen c \<Longrightarrow> length (fst (csWriter c)) \<le> n \<Longrightarrow> Position key c' = Position key c"
    and "cursor_step (c, sn) (c'', sn'') \<Longrightarrow> Position key c = Some s \<Longrightarrow> \<exists>s'. Position key c'' = Some s' \<and> s \<le> s'"
proof -
  have inv: "cursor_inv (c, sn)" by (rule cursor_machine.reachable_inv [OF assms(1)])
  then obtain es where es: "cursor_rep c es" by (auto simp: cursor_inv_def)
  let ?bs = "csFile c @ take n (fst (csWriter c))"
  have fit: "keys_fit es" and pre: "prefix (csFile c) (cursor_frames es)"
    and full: "\<not> snd (csWriter c) \<longrightarrow> csFile c @ fst (csWriter c) = cursor_frames es"
    using es by (simp_all add: cursor_rep_def)
  have pos: "csPositions c' = cursor_load ?bs []" using OpenCursorStore_ok(1,2) [OF assms(2)] by simp
  show "\<exists>s'. Position key c = Some s' \<and> s \<le> s'" if "snd (csWriter c) \<longrightarrow> n = 0" "Position key c' = Some s"
  proof -
    have "prefix ?bs (cursor_frames es)"
    proof (cases "snd (csWriter c)")
      case True
      then show ?thesis using that(1) pre by simp
    next
      case False
      then have "cursor_frames es = ?bs @ drop n (fst (csWriter c))" using full by (metis append.assoc append_take_drop_id)
      then show ?thesis by (rule prefixI)
    qed
    from cursor_load_prefix [OF fit this, of "[]"] obtain m where "cursor_load ?bs [] = loaded (take m es) []" by blast
    then show ?thesis using rep_behind [OF es, of m] that(2) pos unfolding Position_def behind_def by auto
  qed
  show "Position key c' = Position key c" if "\<not> snd (csWriter c)" "csOpen c" "length (fst (csWriter c)) \<le> n"
  proof -
    have "?bs = cursor_frames es" using full that by simp
    then have "csPositions c' = loaded es []" using pos cursor_load_frames [OF fit, of "[]" "[]"] by simp
    then show ?thesis using es that by (auto simp: cursor_rep_def Position_def)
  qed
  show "\<exists>s'. Position key c'' = Some s' \<and> s \<le> s'" if "cursor_step (c, sn) (c'', sn'')" "Position key c = Some s"
    using cursor_step_inv [OF that(1) inv] that(2) unfolding behind_def Position_def by auto
qed


subsection \<open>Keys and groups\<close>

definition clean_key :: "CursorKey \<Rightarrow> bool" where
  "clean_key k \<longleftrightarrow> nul \<notin> set (ckTopic k) \<and> nul \<notin> set (ckGroup k) \<and> nul \<notin> set (ckMember k) \<and>
     - (2 ^ 31) \<le> ckPartition k \<and> ckPartition k < 2 ^ 31"

lemma decimal_digits: "c \<in> set (decimal n) \<Longrightarrow> char_digit c \<noteq> None"
proof (induction n rule: decimal.induct)
  case (1 n)
  show ?case
  proof (cases "n < 10")
    case True
    then show ?thesis using 1 by (auto simp: decimal.simps [of n])
  next
    case False
    then show ?thesis using 1 by (auto simp: decimal.simps [of n])
  qed
qed

lemma digit_not_special: "char_digit c \<noteq> None \<Longrightarrow>
    c \<notin> {nul, CHR '' '', CHR 0x09, CHR 0x0B, CHR 0x0C, CHR 0x0D, CHR ''-'', CHR ''+''}"
  by (auto simp: char_digit_def nul_def Let_def)

lemma takeWhile_decimal: "takeWhile (\<lambda>c. \<exists>y. char_digit c = Some y) (decimal n) = decimal n"
  using decimal_digits by (auto simp: takeWhile_eq_all_conv)

lemma hd_decimal: "char_digit (hd (decimal n)) \<noteq> None"
  using decimal_digits hd_in_set [OF decimal_not_Nil] by blast

lemma scan_decimal_int: "- (2 ^ 31) \<le> i \<Longrightarrow> i < 2 ^ 31 \<Longrightarrow> scan_int32 (decimal_int i) = Some i"
proof -
  assume i: "- (2 ^ 31) \<le> i" "i < 2 ^ 31"
  have hd: "hd (decimal n) \<notin> {nul, CHR '' '', CHR 0x09, CHR 0x0B, CHR 0x0C, CHR 0x0D, CHR ''-'', CHR ''+''}" for n
    by (rule digit_not_special [OF hd_decimal])
  have dw: "dropWhile (\<lambda>c. c = CHR '' '' \<or> c = CHR 0x09 \<or> c = CHR 0x0B \<or> c = CHR 0x0C \<or> c = CHR 0x0D) (decimal n) = decimal n" for n
    using hd [of n] by (cases "decimal n") (auto simp: dropWhile_eq_Nil_conv)
  show ?thesis
  proof (cases "i < 0")
    case True
    then have "nat (- i) < 2 ^ 64" using i by auto
    then show ?thesis
      using True i by (simp add: scan_int32_def decimal_int_def Let_def takeWhile_decimal parse_digits_decimal)
  next
    case False
    then have "nat i < 2 ^ 64" using i by auto
    then show ?thesis
      using False i hd [of "nat i"]
      by (simp add: scan_int32_def decimal_int_def Let_def dw takeWhile_decimal parse_digits_decimal)
  qed
qed

lemma decimal_int_clean: "nul \<notin> set (decimal_int i)"
proof -
  have "nul \<notin> set (decimal n)" for n using decimal_digits [of nul n] digit_not_special [of nul] by blast
  then show ?thesis by (simp add: decimal_int_def) (simp add: nul_def)
qed

lemma split_key:
  assumes "clean_key k"
  shows "split_on nul (CursorKey_String k) = [ckTopic k, decimal_int (ckPartition k), ckGroup k, ckMember k]"
  using assms by (simp add: CursorKey_String_def clean_key_def split_on_append split_on_plain decimal_int_clean)

lemma parse_key_roundtrip: "clean_key k \<Longrightarrow> parseCursorKey (CursorKey_String k) = Some k"
  by (simp add: parseCursorKey_def split_key scan_decimal_int clean_key_def [of k])

lemma CursorKey_String_inject: "clean_key k \<Longrightarrow> clean_key k' \<Longrightarrow> CursorKey_String k = CursorKey_String k' \<longleftrightarrow> k = k'"
  by (metis option.inject parse_key_roundtrip)

definition group_prefix :: "string \<Rightarrow> int \<Rightarrow> string \<Rightarrow> string" where
  "group_prefix topic part grp = topic @ nul # decimal_int part @ nul # grp @ [nul]"

lemma group_prefix_eq:
  "TrimSuffix (CursorKey_String \<lparr>ckTopic = topic, ckPartition = part, ckGroup = grp, ckMember = []\<rparr>) [nul] @ [nul] =
     group_prefix topic part grp"
proof -
  have "CursorKey_String \<lparr>ckTopic = topic, ckPartition = part, ckGroup = grp, ckMember = []\<rparr> =
      (topic @ nul # decimal_int part @ nul # grp) @ [nul]" by (simp add: CursorKey_String_def)
  then show ?thesis unfolding group_prefix_def TrimSuffix_def HasSuffix_def by simp
qed

lemma has_group_prefix:
  assumes "clean_key k" and "clean_key \<lparr>ckTopic = t, ckPartition = p, ckGroup = g, ckMember = m\<rparr>"
  shows "HasPrefix (CursorKey_String k) (group_prefix t p g) \<longleftrightarrow> ckTopic k = t \<and> ckPartition k = p \<and> ckGroup k = g"
proof
  assume "HasPrefix (CursorKey_String k) (group_prefix t p g)"
  then obtain r where "CursorKey_String k = group_prefix t p g @ r" unfolding HasPrefix_iff by blast
  then have c: "CursorKey_String k = t @ nul # decimal_int p @ nul # g @ nul # r" by (simp add: group_prefix_def)
  have "split_on nul (t @ nul # decimal_int p @ nul # g @ nul # r) = [ckTopic k, decimal_int (ckPartition k), ckGroup k, ckMember k]"
    using split_key [OF assms(1)] unfolding c .
  then have eq: "t = ckTopic k" "decimal_int p = decimal_int (ckPartition k)" "g = ckGroup k"
    using assms(2) by (simp_all add: clean_key_def split_on_append decimal_int_clean)
  have sc: "scan_int32 (decimal_int p) = Some p" "scan_int32 (decimal_int (ckPartition k)) = Some (ckPartition k)"
    using assms by (simp_all add: clean_key_def scan_decimal_int)
  from sc(2) [folded eq(2)] have "ckPartition k = p" unfolding sc(1) by (rule option.inject [THEN iffD1, symmetric])
  then show "ckTopic k = t \<and> ckPartition k = p \<and> ckGroup k = g" by (simp only: eq)
next
  assume "ckTopic k = t \<and> ckPartition k = p \<and> ckGroup k = g"
  then have "CursorKey_String k = group_prefix t p g @ ckMember k" by (simp add: group_prefix_def CursorKey_String_def)
  then show "HasPrefix (CursorKey_String k) (group_prefix t p g)" by simp
qed

lemma group_fold:
  assumes "\<forall>x \<in> set al. \<exists>k. clean_key k \<and> fst x = CursorKey_String k" and "distinct (map fst al)"
    and "clean_key \<lparr>ckTopic = t, ckPartition = p, ckGroup = g, ckMember = m\<rparr>"
  shows "map_of (fold (\<lambda>(k, v) out. if \<not> HasPrefix k (group_prefix t p g) then out
      else case parseCursorKey k of None \<Rightarrow> out | Some key \<Rightarrow> AList.update (ckMember key) v out) al out) m =
    (case map_of al (CursorKey_String \<lparr>ckTopic = t, ckPartition = p, ckGroup = g, ckMember = m\<rparr>) of
       Some v \<Rightarrow> Some v | None \<Rightarrow> map_of out m)"
  using assms(1,2)
proof (induction al arbitrary: out)
  case (Cons x al)
  let ?K = "\<lparr>ckTopic = t, ckPartition = p, ckGroup = g, ckMember = m\<rparr>"
  obtain k v where x: "x = (CursorKey_String k, v)" "clean_key k" using Cons.prems(1) by (cases x) auto
  have fresh: "map_of al (CursorKey_String k) = None" using Cons.prems(2) x by (simp add: map_of_eq_None_iff)
  have eq: "CursorKey_String ?K = CursorKey_String k \<longleftrightarrow> ?K = k" by (rule CursorKey_String_inject [OF assms(3) x(2)])
  have pre: "HasPrefix (CursorKey_String k) (group_prefix t p g) \<longleftrightarrow> ckTopic k = t \<and> ckPartition k = p \<and> ckGroup k = g"
    by (rule has_group_prefix [OF x(2) assms(3)])
  show ?case
  proof (cases "?K = k")
    case True
    then show ?thesis using Cons fresh x pre parse_key_roundtrip [OF x(2)] by (auto simp: update_conv' split: option.splits)
  next
    case False
    then have "ckTopic k = t \<and> ckPartition k = p \<and> ckGroup k = g \<Longrightarrow> ckMember k \<noteq> m" by auto
    then show ?thesis using False Cons x pre eq parse_key_roundtrip [OF x(2)] by (auto simp: update_conv' split: option.splits)
  qed
qed simp

definition keys_clean :: "cursor_store \<Rightarrow> bool" where
  "keys_clean c \<longleftrightarrow> distinct (map fst (csPositions c)) \<and> (\<forall>x \<in> set (csPositions c). \<exists>k. clean_key k \<and> fst x = CursorKey_String k)"

lemma GroupMembers_lookup:
  assumes "keys_clean c" and "clean_key \<lparr>ckTopic = t, ckPartition = p, ckGroup = g, ckMember = m\<rparr>"
  shows "map_of (GroupMembers t p g c) m = Position \<lparr>ckTopic = t, ckPartition = p, ckGroup = g, ckMember = m\<rparr> c"
proof -
  have k: "\<forall>x \<in> set (csPositions c). \<exists>k. clean_key k \<and> fst x = CursorKey_String k" "distinct (map fst (csPositions c))"
    using assms(1) by (simp_all add: keys_clean_def)
  show ?thesis
    unfolding GroupMembers_def Let_def group_prefix_eq Position_def group_fold [OF k assms(2)] by (simp split: option.splits)
qed

lemma GroupMembers_clean:
  "keys_clean c \<Longrightarrow> (m, v) \<in> set (GroupMembers t p g c) \<Longrightarrow> nul \<notin> set m"
proof -
  assume "keys_clean c" and mv: "(m, v) \<in> set (GroupMembers t p g c)"
  then have c: "\<forall>x \<in> set (csPositions c). \<exists>k. clean_key k \<and> fst x = CursorKey_String k" by (simp add: keys_clean_def)
  have "\<forall>x \<in> set (fold (\<lambda>(k, v) out. if \<not> HasPrefix k pre then out
      else case parseCursorKey k of None \<Rightarrow> out | Some key \<Rightarrow> AList.update (ckMember key) v out) al out). nul \<notin> set (fst x)"
    if "\<forall>x \<in> set al. \<exists>k. clean_key k \<and> fst x = CursorKey_String k" "\<forall>x \<in> set out. nul \<notin> set (fst x)" for pre al and out :: "(string \<times> u64) list"
    using that
  proof (induction al arbitrary: out)
    case (Cons x al)
    obtain k v where x: "x = (CursorKey_String k, v)" "clean_key k" using Cons.prems(1) by (cases x) auto
    have "\<forall>y \<in> set (AList.update (ckMember k) v out). nul \<notin> set (fst y)"
      using x(2) by (intro update_all [OF Cons.prems(2)]) (simp add: clean_key_def)
    then show ?case using Cons x parse_key_roundtrip [OF x(2)] by simp
  qed simp
  from this [OF c, of "[]"] mv show ?thesis by (force simp: GroupMembers_def Let_def)
qed

lemma fold_least:
  fixes d :: u64
  shows "fold (\<lambda>(_, v) m. if v < m then v else m) al d = fold min (map snd al) d"
  by (induction al arbitrary: d) (auto simp: min_def not_less)

lemma SlowestInGroup_least_facts:
  assumes "keys_clean c" and "nul \<notin> set t" and "nul \<notin> set g" and "- (2 ^ 31) \<le> p" and "p < 2 ^ 31"
  shows "SlowestInGroup t p g c = Some s \<Longrightarrow>
      (\<exists>m. Position \<lparr>ckTopic = t, ckPartition = p, ckGroup = g, ckMember = m\<rparr> c = Some s) \<and>
      (\<forall>m v. nul \<notin> set m \<longrightarrow> Position \<lparr>ckTopic = t, ckPartition = p, ckGroup = g, ckMember = m\<rparr> c = Some v \<longrightarrow> s \<le> v)"
    and "SlowestInGroup t p g c = None \<longleftrightarrow>
      (\<forall>m. nul \<notin> set m \<longrightarrow> Position \<lparr>ckTopic = t, ckPartition = p, ckGroup = g, ckMember = m\<rparr> c = None)"
proof -
  let ?ms = "GroupMembers t p g c"
  have look: "map_of ?ms m = Position \<lparr>ckTopic = t, ckPartition = p, ckGroup = g, ckMember = m\<rparr> c" if "nul \<notin> set m" for m
    using that assms by (intro GroupMembers_lookup) (simp_all add: clean_key_def)
  have dist: "distinct (map fst ?ms)"
  proof -
    have "distinct (map fst (fold (\<lambda>(k, v) out. if \<not> HasPrefix k pre then out
      else case parseCursorKey k of None \<Rightarrow> out | Some key \<Rightarrow> AList.update (ckMember key) v out) al out))"
      if "distinct (map fst out)" for pre al and out :: "(string \<times> u64) list"
      using that by (induction al arbitrary: out) (auto simp: distinct_update split: option.splits)
    then show ?thesis by (simp add: GroupMembers_def)
  qed
  have none: "SlowestInGroup t p g c = None \<longleftrightarrow> ?ms = []" by (simp add: SlowestInGroup_def Let_def)
  show "SlowestInGroup t p g c = None \<longleftrightarrow>
      (\<forall>m. nul \<notin> set m \<longrightarrow> Position \<lparr>ckTopic = t, ckPartition = p, ckGroup = g, ckMember = m\<rparr> c = None)"
  proof (cases ?ms)
    case Nil
    then show ?thesis using none look by (metis map_of.simps(1))
  next
    case (Cons x xs)
    obtain m v where x: "x = (m, v)" by (cases x)
    have "nul \<notin> set m" using GroupMembers_clean [OF assms(1), of m v t p g] Cons x by simp
    moreover from this have "Position \<lparr>ckTopic = t, ckPartition = p, ckGroup = g, ckMember = m\<rparr> c = Some v"
      using look [of m] Cons x by simp
    ultimately show ?thesis using none Cons by auto
  qed
  assume "SlowestInGroup t p g c = Some s"
  then have ne: "?ms \<noteq> []" and s: "s = fold min (map snd ?ms) (- 1)"
    using none by (auto simp: SlowestInGroup_def Let_def fold_least)
  have "s = Min (insert (- 1) (snd ` set ?ms))"
    unfolding s using Min.set_eq_fold [of "- 1" "map snd ?ms"] by simp
  moreover have "Min (insert (- 1) (snd ` set ?ms)) = Min (snd ` set ?ms)"
    using ne by (simp add: Min_insert min_absorb2)
  ultimately have m: "s = Min (snd ` set ?ms)" by simp
  have "s \<in> snd ` set ?ms" unfolding m using ne by (intro Min_in) simp_all
  then obtain m where ms: "(m, s) \<in> set ?ms" by force
  then have "Position \<lparr>ckTopic = t, ckPartition = p, ckGroup = g, ckMember = m\<rparr> c = Some s"
    using look [OF GroupMembers_clean [OF assms(1) ms]] map_of_is_SomeI [OF dist ms] by simp
  moreover have "s \<le> v" if "nul \<notin> set m'" "Position \<lparr>ckTopic = t, ckPartition = p, ckGroup = g, ckMember = m'\<rparr> c = Some v" for m' v
  proof -
    have "(m', v) \<in> set ?ms" using look [OF that(1)] that(2) by (intro map_of_SomeD) simp
    then have "v \<in> snd ` set ?ms" by force
    then show ?thesis unfolding m by (intro Min_le) simp_all
  qed
  ultimately show "(\<exists>m. Position \<lparr>ckTopic = t, ckPartition = p, ckGroup = g, ckMember = m\<rparr> c = Some s) \<and>
      (\<forall>m v. nul \<notin> set m \<longrightarrow> Position \<lparr>ckTopic = t, ckPartition = p, ckGroup = g, ckMember = m\<rparr> c = Some v \<longrightarrow> s \<le> v)"
    by blast
qed

text \<open>
  The watermark of a group on a partition: no member of the group has committed less, and a member
  of the group has committed exactly it; there is none only when the group has no member there.
  Commits of other groups, topics or partitions do not count.
\<close>

theorem SlowestInGroup_least:
  assumes "keys_clean c" and "nul \<notin> set t" and "nul \<notin> set g" and "- (2 ^ 31) \<le> p" and "p < 2 ^ 31"
  shows "(SlowestInGroup t p g c = Some s \<longrightarrow>
      (\<exists>m. Position \<lparr>ckTopic = t, ckPartition = p, ckGroup = g, ckMember = m\<rparr> c = Some s) \<and>
      (\<forall>m v. nul \<notin> set m \<longrightarrow> Position \<lparr>ckTopic = t, ckPartition = p, ckGroup = g, ckMember = m\<rparr> c = Some v \<longrightarrow> s \<le> v)) \<and>
    (SlowestInGroup t p g c = None \<longleftrightarrow>
      (\<forall>m. nul \<notin> set m \<longrightarrow> Position \<lparr>ckTopic = t, ckPartition = p, ckGroup = g, ckMember = m\<rparr> c = None))"
  by (assumption | rule SlowestInGroup_least_facts [OF assms] | rule impI | rule conjI)+

lemma cursor_load_short_frame:
  assumes "key_fits key" and "b \<noteq> last (encodeCursorRecord key s)"
  shows "cursor_load (butlast (encodeCursorRecord key s) @ b # rest) al = al"
proof -
  let ?r = "encodeCursorRecord key s" and ?b = "cursor_body key s"
  have bne: "?b \<noteq> []" by (simp flip: length_0_conv)
  define h where "h = put32 (crc32 ?b) @ put32 (of_nat (10 + length key))"
  have r: "?r = h @ ?b" "length h = 8" by (simp_all add: h_def encodeCursorRecord_split)
  have butl: "butlast ?r @ b # rest = h @ (butlast ?b @ [b]) @ rest" unfolding r using bne by (simp add: butlast_append)
  have lastb: "last ?r = last ?b" unfolding r using bne by simp
  have len: "length (butlast ?b @ [b]) = 10 + length key" using bne by simp
  have h1: "get32 (h @ x) = crc32 ?b" "unat (get32 (drop 4 (h @ x))) = 10 + length key" for x
    using cursor_header(1,2) [OF assms(1), of s "[]"] unfolding r(1) append_Nil2 by (simp_all add: h_def)
  have "crc32 (butlast ?b @ [b]) \<noteq> crc32 (butlast ?b @ [last ?b])"
    using crc32_detects_one_byte [of b "last ?b" "butlast ?b" "[]"] assms(2) lastb by simp
  then have crc: "crc32 (butlast ?b @ [b]) \<noteq> crc32 ?b" using append_butlast_last_id [OF bne] by simp
  have tk: "take (10 + length key) ((butlast ?b @ [b]) @ rest) = butlast ?b @ [b]" using len by simp
  have dr: "drop cursorRecordHeader (h @ x) = x" for x using r(2) by (simp add: cursorRecordHeader_def)
  show ?thesis
    unfolding butl by (subst cursor_load.simps, unfold Let_def h1 dr tk) (use crc in simp)
qed

lemma Commit_ok:
  assumes "Commit io_ok key seq c = (c1, r1)" and "\<not> csClosed c" and "csOpen c" and "csWriter c = (buf0, False)"
    and "length buf0 \<le> cursorWriterSize" and "\<not> (\<exists>cur. Position key c = Some cur \<and> seq \<le> cur)"
  shows "r1 = Inr ()" and "csPositions c1 = AList.update (CursorKey_String key) seq (csPositions c)"
    and "csFile c1 @ fst (csWriter c1) = csFile c @ buf0 @ encodeCursorRecord (CursorKey_String key) seq"
    and "\<not> snd (csWriter c1)" and "csOpen c1" and "\<not> csClosed c1"
proof -
  let ?rec = "encodeCursorRecord (CursorKey_String key) seq"
  have new: "\<not> (case map_of (csPositions c) (CursorKey_String key) of None \<Rightarrow> False | Some cur \<Rightarrow> seq \<le> cur)"
    using assms(6) by (auto simp: Position_def split: option.splits)
  obtain g buf where w: "bufio_write cursorWriterSize True ?rec (csFile c) (buf0, False) = (g, (buf, False))" "g @ buf = csFile c @ buf0 @ ?rec"
    by (rule bufio_write_ok [of True buf0 cursorWriterSize ?rec "csFile c"]) (use assms(5) in auto)
  have "r1 = Inr () \<and> csPositions c1 = AList.update (CursorKey_String key) seq (csPositions c) \<and> csFile c1 = g \<and>
      csWriter c1 = (buf, False) \<and> csOpen c1 \<and> \<not> csClosed c1"
    using assms(1-4) new w(1) unfolding Commit_def Let_def cursor_write_def by (auto simp: maybeCompact_def split: if_splits)
  then show "r1 = Inr ()" "csPositions c1 = AList.update (CursorKey_String key) seq (csPositions c)"
    "csFile c1 @ fst (csWriter c1) = csFile c @ buf0 @ ?rec" "\<not> snd (csWriter c1)" "csOpen c1" "\<not> csClosed c1"
    using w(2) by simp_all
qed

lemma commits_after_torn_tail_lost_facts:
  assumes "keys_fit es" and "key_fits k"
    and "OpenCursorStore io (Some (cursor_frames es @ butlast (encodeCursorRecord k s))) = Inr c"
    and "Commit io_ok key seq c = (c1, r1)" and "cursor_Close io_ok c1 = (c2, r2)" and "OpenCursorStore io' (Some (csFile c2)) = Inr c3"
    and "\<not> (\<exists>cur. Position key c = Some cur \<and> seq \<le> cur)"
    and "hd (encodeCursorRecord (CursorKey_String key) seq) \<noteq> last (encodeCursorRecord k s)"
  shows "r1 = Inr ()" and "r2 = Inr ()" and "Position key c1 = Some seq" and "Position key c3 = Position key c"
proof -
  let ?bad = "butlast (encodeCursorRecord k s)" and ?rec = "encodeCursorRecord (CursorKey_String key) seq"
  note o = OpenCursorStore_ok [OF assms(3)]
  have f: "csFile c = cursor_frames es @ ?bad" using o(1) by simp
  have torn: "?bad = take (length (encodeCursorRecord k s) - 1) (encodeCursorRecord k s)" by (simp add: butlast_conv_take)
  have "cursor_load (cursor_frames es @ ?bad) [] = loaded es []"
    unfolding cursor_load_frames [OF assms(1)] torn by (intro cursor_load_torn [OF assms(2)]) simp
  then have pos: "csPositions c = loaded es []" using o(2) f by simp
  note c1 = Commit_ok [OF assms(4) o(5,4,3) _ assms(7)]
  show "r1 = Inr ()" "Position key c1 = Some seq" using c1(1,2) by (simp_all add: Position_def update_conv')
  have c2: "csFile c2 = csFile c1 @ fst (csWriter c1) \<and> r2 = Inr ()"
    using assms(5) c1(4-6) by (cases "csWriter c1") (auto simp: cursor_Close_def cursor_flush_def bufio_flush_def Let_def split: if_splits)
  then show "r2 = Inr ()" by simp
  have rne: "?rec \<noteq> []" by (simp flip: length_0_conv)
  have "csFile c2 = cursor_frames es @ ?bad @ hd ?rec # tl ?rec" using c2 c1(3) f rne by simp
  then have "csPositions c3 = cursor_load (cursor_frames es @ ?bad @ hd ?rec # tl ?rec) []"
    using OpenCursorStore_ok(1,2) [OF assms(6)] by simp
  also have "\<dots> = loaded es []"
    unfolding cursor_load_frames [OF assms(1)] by (rule cursor_load_short_frame [OF assms(2,8)])
  finally show "Position key c3 = Position key c" using pos by (simp add: Position_def)
qed


lemma commit_retry_not_persisted_facts:
  assumes "Commit io key seq c = (c1, Inl (ErrIO ''write cursor''))" and "Commit io' key seq c1 = (c2, r)"
  shows "r = Inr ()" and "csFile c2 = csFile c1" and "csWriter c2 = csWriter c1" and "Position key c2 = Some seq"
proof -
  have "\<not> csClosed c \<and> \<not> (case map_of (csPositions c) (CursorKey_String key) of None \<Rightarrow> False | Some cur \<Rightarrow> seq \<le> cur)"
    using assms(1) unfolding Commit_def Let_def by (auto split: if_splits option.splits)
  then have c1: "csPositions c1 = AList.update (CursorKey_String key) seq (csPositions c) \<and> \<not> csClosed c1"
    using assms(1) unfolding Commit_def Let_def cursor_write_def by (auto split: if_splits prod.splits bool.splits)
  then have "c2 = c1 \<and> r = Inr ()" using assms(2) unfolding Commit_def Let_def by (simp add: update_conv')
  then show "r = Inr ()" "csFile c2 = csFile c1" "csWriter c2 = csWriter c1" "Position key c2 = Some seq"
    using c1 by (simp_all add: Position_def update_conv')
qed

text \<open>
  A commit that could not be written has already moved the position in memory, so the retry finds
  nothing to do and reports success; the file stays behind.
\<close>

theorem commit_retry_not_persisted:
  assumes "Commit io key seq c = (c1, Inl (ErrIO ''write cursor''))" and "Commit io' key seq c1 = (c2, r)"
  shows "r = Inr () \<and>
    csFile c2 = csFile c1 \<and>
    csWriter c2 = csWriter c1 \<and>
    Position key c2 = Some seq"
  by (assumption | rule commit_retry_not_persisted_facts [OF assms] | rule impI | rule conjI)+


subsection \<open>Instances\<close>

definition sample_reader :: "string \<Rightarrow> CursorKey" where
  "sample_reader m = \<lparr>ckTopic = ''t'', ckPartition = 0, ckGroup = ''g'', ckMember = m\<rparr>"

definition fresh_store :: cursor_store where
  "fresh_store = \<lparr>csPositions = [], csFile = [], csWriter = ([], False), csOpen = True, csSize = 0, csClosed = False,
     csCompactBytes = defaultCompactBytes, csCompacting = False, csDirty = False\<rparr>"

lemma fresh_store_open: "OpenCursorStore io_ok None = Inr fresh_store"
  by (simp add: OpenCursorStore_def fresh_store_def)

lemma sample_reader_String: "CursorKey_String (sample_reader m) = ''t'' @ nul # ''0'' @ nul # ''g'' @ nul # m"
proof -
  have "decimal_int 0 = ''0''" by code_simp
  then show ?thesis by (simp add: CursorKey_String_def sample_reader_def)
qed

lemma fresh_commit:
  assumes "Commit io_ok (sample_reader []) 5 fresh_store = (c, r)"
  shows "reachable cursor_init cursor_step (c, None)" and "Position (sample_reader []) c = Some 5"
    and "csPositions c = [(CursorKey_String (sample_reader []), 5)]" and "\<not> snd (csWriter c)" and "csOpen c"
    and "csFile c @ fst (csWriter c) = encodeCursorRecord (CursorKey_String (sample_reader [])) 5"
proof -
  have "reachable cursor_init cursor_step (fresh_store, None)"
    by (rule reach_init) (use fresh_store_open in \<open>auto simp: cursor_init_def\<close>)
  moreover have "cursor_step (fresh_store, None) (c, None)"
    by (rule commit [OF _ assms]) (simp add: sample_reader_String key_fits_def)
  ultimately show "reachable cursor_init cursor_step (c, None)" by (rule reach_step)
  note k = Commit_ok [OF assms]
  show "csPositions c = [(CursorKey_String (sample_reader []), 5)]" "\<not> snd (csWriter c)" "csOpen c"
    "csFile c @ fst (csWriter c) = encodeCursorRecord (CursorKey_String (sample_reader [])) 5"
    "Position (sample_reader []) c = Some 5"
    using k by (simp_all add: fresh_store_def Position_def)
qed


theorem SlowestInGroup_least_witness:
  "SlowestInGroup ''t'' 0 ''g'' (fresh_store\<lparr>csPositions := [(CursorKey_String (sample_reader ''a''), 7), (CursorKey_String (sample_reader ''b''), 3)]\<rparr>)
     \<noteq> None"
proof -
  let ?c = "fresh_store\<lparr>csPositions := [(CursorKey_String (sample_reader ''a''), 7), (CursorKey_String (sample_reader ''b''), 3)]\<rparr>"
  have k: "clean_key (sample_reader ''a'')" "clean_key (sample_reader ''b'')" by (simp_all add: clean_key_def sample_reader_def nul_def)
  then have "keys_clean ?c" unfolding keys_clean_def by (auto simp: sample_reader_String)
  from SlowestInGroup_least [OF this, of "''t''" "''g''" 0] show ?thesis
    by (auto simp: nul_def Position_def sample_reader_def [symmetric] intro!: exI [of _ "''a''"])
qed


theorem commit_retry_not_persisted_witness:
  "\<exists>c1 c2. Commit (\<lambda>_. False) (sample_reader []) 5 (fresh_store\<lparr>csWriter := ([], True)\<rparr>) = (c1, Inl (ErrIO ''write cursor'')) \<and>
     Commit io_ok (sample_reader []) 5 c1 = (c2, Inr ()) \<and> csFile c2 = csFile c1 \<and> Position (sample_reader []) c2 = Some 5"
proof -
  obtain c1 r where c1: "Commit (\<lambda>_. False) (sample_reader []) 5 (fresh_store\<lparr>csWriter := ([], True)\<rparr>) = (c1, r)"
    by (cases "Commit (\<lambda>_. False) (sample_reader []) 5 (fresh_store\<lparr>csWriter := ([], True)\<rparr>)")
  then have r: "r = Inl (ErrIO ''write cursor'')"
    unfolding Commit_def Let_def cursor_write_def by (auto simp: fresh_store_def bufio_write_def)
  obtain c2 r2 where c2: "Commit io_ok (sample_reader []) 5 c1 = (c2, r2)" by (cases "Commit io_ok (sample_reader []) 5 c1")
  from commit_retry_not_persisted [OF c1 [unfolded r] c2] c1 c2 r show ?thesis by auto
qed

end
