(* ===== verification/Share.thy ===== *)
theory Share
  imports Partition_Contract Cursor
begin

section \<open>The delivery window of a queue over a log\<close>

text \<open>
  The delivery window of \<open>internal/queuelog/share.go\<close>: competing consumers over one stream partition,
  with leases, acknowledgements, rejections, redelivery, dead letters and the committed base. The
  loop of \<open>acquire\<close> has no bound of its own and is a partial function that is shown to return.
  The order in which a loop runs over the window is that of the association list.
\<close>

subsection \<open>State\<close>

datatype queuelog_error =
    ErrUnknownDelivery u64
  | ErrNotHolder u64 string
  | ErrStream stream_error
  | ErrNotQueueLeader int
  | ErrNoPartition int

datatype deliveryState = stateAvailable | stateAcquired

text \<open>The deadline of an entry that is not leased is the zero time, \<open>None\<close>.\<close>

record entry =
  enRec :: stream_record
  enState :: deliveryState
  enCount :: int
  enDeadline :: "int option"
  enHolder :: string

record shareConfig =
  scGroup :: string
  scAckTimeout :: int
  scMaxDelivery :: int
  scMaxInFlight :: int

definition share_applyDefaults :: "shareConfig \<Rightarrow> shareConfig" where
  "share_applyDefaults c =
     c\<lparr>scAckTimeout := (if scAckTimeout c \<le> 0 then 30000000000 else scAckTimeout c),
       scMaxDelivery := (if scMaxDelivery c \<le> 0 then 5 else scMaxDelivery c),
       scMaxInFlight := (if scMaxInFlight c \<le> 0 then 1000 else scMaxInFlight c)\<rparr>"

text \<open>
  The window. The available sequences, a min-heap in the source, are kept in ascending order: only
  the order in which they are popped is observable. \<open>spDead\<close> is what was handed to the dead-letter
  route, the only effect a window has outside of itself and the cursor.
\<close>

record sharePartition =
  spTopic :: string
  spPartID :: int
  spCfg :: shareConfig
  spBase :: u64
  spNext :: u64
  spEntries :: "(u64 \<times> entry) list"
  spRetired :: "u64 list"
  spAvailable :: "u64 list"
  spClosed :: bool
  spDelivered :: u64
  spAcked :: u64
  spNacked :: u64
  spExpired :: u64
  spDlqCount :: u64
  spDead :: "(stream_record \<times> string) list"

text \<open>A dead-letter route either takes a record or fails; \<open>None\<close> is no route.\<close>

type_synonym dead_letter_route = "(stream_record \<Rightarrow> string \<Rightarrow> bool) option"

record Delivery =
  dlTopic :: string
  dlPartition :: int
  dlSeq :: u64
  dlRecord :: stream_record
  dlCount :: int
  dlConsumer :: string
  dlDeadline :: int

definition cursorKey :: "sharePartition \<Rightarrow> CursorKey" where
  "cursorKey sp = \<lparr>ckTopic = spTopic sp, ckPartition = spPartID sp, ckGroup = scGroup (spCfg sp), ckMember = []\<rparr>"

definition openSharePartition ::
  "string \<Rightarrow> int \<Rightarrow> partition \<Rightarrow> cursor_store option \<Rightarrow> shareConfig \<Rightarrow> sharePartition" where
  "openSharePartition topic partID part cursors cfg =
     (let sp = \<lparr>spTopic = topic, spPartID = partID, spCfg = share_applyDefaults cfg, spBase = 0, spNext = 0, spEntries = [],
                spRetired = [], spAvailable = [], spClosed = False, spDelivered = 0, spAcked = 0, spNacked = 0,
                spExpired = 0, spDlqCount = 0, spDead = []\<rparr>;
          base = (case cursors of None \<Rightarrow> FirstSeq part | Some cs \<Rightarrow> PositionOr (cursorKey sp) (FirstSeq part) cs);
          base = (if base < FirstSeq part then FirstSeq part else base)
      in sp\<lparr>spBase := base, spNext := base\<rparr>)"

subsection \<open>Leases\<close>

definition leaseLocked :: "u64 \<Rightarrow> entry \<Rightarrow> string \<Rightarrow> int \<Rightarrow> sharePartition \<Rightarrow> sharePartition \<times> Delivery" where
  "leaseLocked seq e consumer now sp =
     (let e' = e\<lparr>enState := stateAcquired, enCount := enCount e + 1, enHolder := consumer,
                 enDeadline := Some (now + scAckTimeout (spCfg sp))\<rparr> in
      (sp\<lparr>spEntries := AList.update seq e' (spEntries sp)\<rparr>,
       \<lparr>dlTopic = spTopic sp, dlPartition = spPartID sp, dlSeq = seq, dlRecord = enRec e, dlCount = enCount e + 1,
        dlConsumer = consumer, dlDeadline = now + scAckTimeout (spCfg sp)\<rparr>))"

definition releaseLocked :: "u64 \<Rightarrow> entry \<Rightarrow> sharePartition \<Rightarrow> sharePartition" where
  "releaseLocked seq e sp =
     sp\<lparr>spEntries := AList.update seq (e\<lparr>enState := stateAvailable, enHolder := [], enDeadline := None\<rparr>) (spEntries sp),
        spAvailable := insort seq (spAvailable sp)\<rparr>"

definition retireLocked :: "u64 \<Rightarrow> sharePartition \<Rightarrow> sharePartition" where
  "retireLocked seq sp =
     sp\<lparr>spEntries := AList.delete seq (spEntries sp), spRetired := List.insert seq (spRetired sp)\<rparr>"

definition deadLetterLocked :: "dead_letter_route \<Rightarrow> u64 \<Rightarrow> entry \<Rightarrow> string \<Rightarrow> sharePartition \<Rightarrow> sharePartition" where
  "deadLetterLocked dl seq e reason sp =
     (case dl of
        None \<Rightarrow> retireLocked seq (sp\<lparr>spDlqCount := spDlqCount sp + 1\<rparr>)
      | Some route \<Rightarrow>
          if \<not> route (enRec e) reason then releaseLocked seq e sp
          else retireLocked seq (sp\<lparr>spDlqCount := spDlqCount sp + 1, spDead := spDead sp @ [(enRec e, reason)]\<rparr>))"

text \<open>The loop of \<open>advanceLocked\<close>; each round takes a sequence out of the retired ones.\<close>

function advance_loop :: "u64 \<Rightarrow> u64 list \<Rightarrow> bool \<Rightarrow> u64 \<times> u64 list \<times> bool" where
  "advance_loop base retired moved =
     (if base \<in> set retired then advance_loop (base + 1) (removeAll base retired) True else (base, retired, moved))"
  by pat_completeness auto
termination
  by (relation "measure (\<lambda>(b, r, m). length r)") (auto simp: length_removeAll_less)

declare advance_loop.simps [simp del]

definition commit_base :: "io \<Rightarrow> sharePartition \<Rightarrow> cursor_store option \<Rightarrow> cursor_store option \<times> (stream_error + unit)" where
  "commit_base io sp cursors =
     (case cursors of
        None \<Rightarrow> (None, Inr ())
      | Some cs \<Rightarrow> (case Commit io (cursorKey sp) (spBase sp) cs of (cs', r) \<Rightarrow> (Some cs', r)))"

definition advanceLocked ::
  "io \<Rightarrow> cursor_store option \<times> sharePartition \<Rightarrow> (cursor_store option \<times> sharePartition) \<times> (queuelog_error + unit)" where
  "advanceLocked io s =
     (case s of (cursors, sp) \<Rightarrow>
        case advance_loop (spBase sp) (spRetired sp) False of
          (base, retired, moved) \<Rightarrow>
            let sp' = sp\<lparr>spBase := base, spRetired := retired\<rparr> in
            if \<not> moved \<or> cursors = None then ((cursors, sp'), Inr ())
            else case commit_base io sp' cursors of
                   (cursors', r) \<Rightarrow> ((cursors', sp'), case r of Inl e \<Rightarrow> Inl (ErrStream e) | Inr _ \<Rightarrow> Inr ()))"

definition skipToLocked :: "io \<Rightarrow> u64 \<Rightarrow> cursor_store option \<times> sharePartition \<Rightarrow> cursor_store option \<times> sharePartition" where
  "skipToLocked io seq s =
     (case s of (cursors, sp) \<Rightarrow>
        if seq \<le> spBase sp then s
        else
          let sp' = sp\<lparr>spEntries := filter (\<lambda>(x, _). \<not> x < seq) (spEntries sp),
                       spRetired := filter (\<lambda>x. \<not> x < seq) (spRetired sp), spBase := seq,
                       spNext := (if spNext sp < seq then seq else spNext sp)\<rparr>
          in (fst (commit_base io sp' cursors), sp'))"

text \<open>The body of the loop of \<open>reapExpiredLocked\<close> for one entry, and the loop over the window.\<close>

definition reap_entry :: "dead_letter_route \<Rightarrow> int \<Rightarrow> u64 \<times> entry \<Rightarrow> sharePartition \<Rightarrow> sharePartition" where
  "reap_entry dl now x sp =
     (case x of (seq, e) \<Rightarrow>
        if enState e \<noteq> stateAcquired \<or> (case enDeadline e of None \<Rightarrow> False | Some d \<Rightarrow> now < d) then sp
        else
          let sp1 = sp\<lparr>spExpired := spExpired sp + 1\<rparr> in
          if scMaxDelivery (spCfg sp) > 0 \<and> enCount e \<ge> scMaxDelivery (spCfg sp)
          then deadLetterLocked dl seq e (''lease expired after '' @ decimal_int (enCount e) @ '' deliveries'') sp1
          else releaseLocked seq e sp1)"

definition reapExpiredLocked ::
  "io \<Rightarrow> dead_letter_route \<Rightarrow> int \<Rightarrow> cursor_store option \<times> sharePartition \<Rightarrow> cursor_store option \<times> sharePartition" where
  "reapExpiredLocked io dl now s =
     (case s of (cursors, sp) \<Rightarrow> fst (advanceLocked io (cursors, fold (reap_entry dl now) (spEntries sp) sp)))"

subsection \<open>Acquiring\<close>

text \<open>The first phase of \<open>acquire\<close>: the released records, oldest first, as long as there is room.\<close>

fun redeliver :: "string \<Rightarrow> int \<Rightarrow> int \<Rightarrow> u64 list \<Rightarrow> sharePartition \<Rightarrow> Delivery list \<Rightarrow> sharePartition \<times> Delivery list" where
  "redeliver consumer n now [] sp out = (sp\<lparr>spAvailable := []\<rparr>, out)"
| "redeliver consumer n now (seq # heap) sp out =
     (if int (length out) < n then
        case map_of (spEntries sp) seq of
          None \<Rightarrow> redeliver consumer n now heap sp out
        | Some e \<Rightarrow>
            if enState e \<noteq> stateAvailable then redeliver consumer n now heap sp out
            else (case leaseLocked seq e consumer now sp of (sp', d) \<Rightarrow> redeliver consumer n now heap sp' (out @ [d]))
      else (sp\<lparr>spAvailable := seq # heap\<rparr>, out))"

text \<open>The second phase: the records just read, and the loop that reads them.\<close>

fun lease_records :: "string \<Rightarrow> int \<Rightarrow> int \<Rightarrow> stream_record list \<Rightarrow> sharePartition \<Rightarrow> Delivery list \<Rightarrow> sharePartition \<times> Delivery list" where
  "lease_records consumer n now [] sp out = (sp, out)"
| "lease_records consumer n now (rec # recs) sp out =
     (if int (length out) \<ge> n then (sp, out)
      else
        let e = \<lparr>enRec = rec, enState = stateAvailable, enCount = 0, enDeadline = None, enHolder = []\<rparr>;
            sp1 = sp\<lparr>spEntries := AList.update (rSeq rec) e (spEntries sp),
                     spNext := (if rSeq rec \<ge> spNext sp then rSeq rec + 1 else spNext sp)\<rparr>
        in case leaseLocked (rSeq rec) e consumer now sp1 of
             (sp2, d) \<Rightarrow> lease_records consumer n now recs sp2 (out @ [d]))"

type_synonym share_world = "partition \<times> cursor_store option \<times> sharePartition"

definition is_truncated :: "stream_error \<Rightarrow> bool" where
  "is_truncated e = (case e of ErrSeqTruncated _ _ \<Rightarrow> True | _ \<Rightarrow> False)"

partial_function (option) acquire_fresh ::
  "io \<Rightarrow> string \<Rightarrow> int \<Rightarrow> int \<Rightarrow> share_world \<Rightarrow> Delivery list \<Rightarrow> (share_world \<times> (queuelog_error + Delivery list)) option" where
  "acquire_fresh io consumer n now w out =
     (case w of (part, cursors, sp) \<Rightarrow>
        let done = ((part, cursors, sp\<lparr>spDelivered := spDelivered sp + of_nat (length out)\<rparr>), Inr out);
            room = scMaxInFlight (spCfg sp) - sint (spNext sp - spBase sp);
            want = min (n - int (length out)) room
        in
        if \<not> int (length out) < n then Some done
        else if room \<le> 0 then Some done
        else case ReadFrom io (spNext sp) want part of
          (part', recs, err) \<Rightarrow>
            (case err of
               Some e \<Rightarrow>
                 if is_truncated e then
                   (case skipToLocked io (FirstSeq part') (cursors, sp) of
                      (cursors', sp') \<Rightarrow> acquire_fresh io consumer n now (part', cursors', sp') out)
                 else if length out > 0 then Some ((part', cursors, sp), Inr out)
                 else Some ((part', cursors, sp), Inl (ErrStream e))
             | None \<Rightarrow>
                 if length recs = 0 then Some ((part', cursors, sp\<lparr>spDelivered := spDelivered sp + of_nat (length out)\<rparr>), Inr out)
                 else case lease_records consumer n now recs sp out of
                        (sp', out') \<Rightarrow> acquire_fresh io consumer n now (part', cursors, sp') out'))"

definition acquire ::
  "io \<Rightarrow> dead_letter_route \<Rightarrow> string \<Rightarrow> int \<Rightarrow> int \<Rightarrow> share_world \<Rightarrow> (share_world \<times> (queuelog_error + Delivery list)) option" where
  "acquire io dl consumer n now w =
     (case w of (part, cursors, sp) \<Rightarrow>
        if n \<le> 0 then Some (w, Inr [])
        else if spClosed sp then Some (w, Inl (ErrStream ErrClosed))
        else case reapExpiredLocked io dl now (cursors, sp) of
          (cursors', sp1) \<Rightarrow>
            (case redeliver consumer n now (spAvailable sp1) sp1 [] of
               (sp2, out) \<Rightarrow> acquire_fresh io consumer n now (part, cursors', sp2) out))"

subsection \<open>Settling\<close>

definition share_ack ::
  "io \<Rightarrow> string \<Rightarrow> u64 \<Rightarrow> cursor_store option \<times> sharePartition \<Rightarrow> (cursor_store option \<times> sharePartition) \<times> (queuelog_error + unit)" where
  "share_ack io consumer seq s =
     (case s of (cursors, sp) \<Rightarrow>
        if spClosed sp then (s, Inl (ErrStream ErrClosed))
        else case map_of (spEntries sp) seq of
          None \<Rightarrow> (s, Inl (ErrUnknownDelivery seq))
        | Some e \<Rightarrow>
            if enState e \<noteq> stateAcquired then (s, Inl (ErrUnknownDelivery seq))
            else if enHolder e \<noteq> consumer then (s, Inl (ErrNotHolder seq (enHolder e)))
            else
              let sp1 = retireLocked seq sp in
              advanceLocked io (cursors, sp1\<lparr>spAcked := spAcked sp1 + 1\<rparr>))"

definition share_nack ::
  "io \<Rightarrow> dead_letter_route \<Rightarrow> string \<Rightarrow> u64 \<Rightarrow> bool \<Rightarrow> cursor_store option \<times> sharePartition \<Rightarrow>
     (cursor_store option \<times> sharePartition) \<times> (queuelog_error + unit)" where
  "share_nack io dl consumer seq requeue s =
     (case s of (cursors, sp) \<Rightarrow>
        if spClosed sp then (s, Inl (ErrStream ErrClosed))
        else case map_of (spEntries sp) seq of
          None \<Rightarrow> (s, Inl (ErrUnknownDelivery seq))
        | Some e \<Rightarrow>
            if enState e \<noteq> stateAcquired then (s, Inl (ErrUnknownDelivery seq))
            else if enHolder e \<noteq> consumer then (s, Inl (ErrNotHolder seq (enHolder e)))
            else
              let sp1 = sp\<lparr>spNacked := spNacked sp + 1\<rparr> in
              if \<not> requeue then advanceLocked io (cursors, deadLetterLocked dl seq e ''rejected by consumer'' sp1)
              else if scMaxDelivery (spCfg sp) > 0 \<and> enCount e \<ge> scMaxDelivery (spCfg sp)
              then advanceLocked io (cursors,
                     deadLetterLocked dl seq e (''delivered '' @ decimal_int (enCount e) @ '' times without ack'') sp1)
              else ((cursors, releaseLocked seq e sp1), Inr ()))"

text \<open>The loops of \<open>releaseAll\<close> and \<open>releaseConsumer\<close>, with the number of leases they return.\<close>

definition release_where :: "(entry \<Rightarrow> bool) \<Rightarrow> sharePartition \<Rightarrow> sharePartition \<times> int" where
  "release_where P sp =
     fold (\<lambda>(seq, e) (s, n). if enState e = stateAcquired \<and> P e then (releaseLocked seq e s, n + 1) else (s, n))
       (spEntries sp) (sp, 0)"

definition releaseAll :: "sharePartition \<Rightarrow> sharePartition \<times> int" where
  "releaseAll sp = release_where (\<lambda>_. True) sp"

definition releaseConsumer :: "string \<Rightarrow> sharePartition \<Rightarrow> sharePartition \<times> int" where
  "releaseConsumer consumer sp = release_where (\<lambda>e. enHolder e = consumer) sp"

definition share_close :: "sharePartition \<Rightarrow> sharePartition" where
  "share_close sp = sp\<lparr>spClosed := True\<rparr>"

record shareStats =
  stPartition :: int
  stBase :: u64
  stNext :: u64
  stLogEnd :: u64
  stBacklog :: u64
  stInFlight :: int
  stAvailable :: int
  stDelivered :: u64
  stAcked :: u64
  stNacked :: u64
  stExpired :: u64
  stDeadLettered :: u64

definition share_stats :: "partition \<Rightarrow> sharePartition \<Rightarrow> shareStats" where
  "share_stats part sp =
     \<lparr>stPartition = spPartID sp, stBase = spBase sp, stNext = spNext sp, stLogEnd = NextSeq part,
      stBacklog = (if NextSeq part > spBase sp then NextSeq part - spBase sp else 0),
      stInFlight = int (length (filter (\<lambda>(_, e). enState e = stateAcquired) (spEntries sp))),
      stAvailable = int (length (filter (\<lambda>(_, e). enState e \<noteq> stateAcquired) (spEntries sp))),
      stDelivered = spDelivered sp, stAcked = spAcked sp, stNacked = spNacked sp, stExpired = spExpired sp,
      stDeadLettered = spDlqCount sp\<rparr>"

subsection \<open>The invariant of a window\<close>

abbreviation held :: "sharePartition \<Rightarrow> u64 set" where "held sp \<equiv> fst ` set (spEntries sp)"

text \<open>
  The sequences of the window are those held with an entry and those retired, no sequence is both,
  and every entry that can be handed out is in the heap.
\<close>

definition window_ok :: "sharePartition \<Rightarrow> bool" where
  "window_ok sp \<longleftrightarrow>
     0 < scMaxInFlight (spCfg sp) \<and> scMaxInFlight (spCfg sp) < 2 ^ 63 \<and>
     0 < spBase sp \<and> spBase sp \<le> spNext sp \<and> distinct (map fst (spEntries sp)) \<and>
     held sp \<union> set (spRetired sp) = {s. spBase sp \<le> s \<and> s < spNext sp} \<and> held sp \<inter> set (spRetired sp) = {} \<and>
     int (unat (spNext sp)) - int (unat (spBase sp)) \<le> scMaxInFlight (spCfg sp) \<and>
     (\<forall>s e. map_of (spEntries sp) s = Some e \<longrightarrow> rSeq (enRec e) = s \<and> (enState e = stateAvailable \<longrightarrow> s \<in> set (spAvailable sp))) \<and>
     sorted (spAvailable sp)"

text \<open>A sequence is settled when the window has passed it and holds no entry for it.\<close>

definition settled :: "sharePartition \<Rightarrow> u64 \<Rightarrow> bool" where
  "settled sp s \<longleftrightarrow> s < spNext sp \<and> s \<notin> held sp"

lemma held_map_of: "s \<in> held sp \<longleftrightarrow> (\<exists>e. map_of (spEntries sp) s = Some e)"
  by (metis domIff dom_map_of_conv_image_fst not_Some_eq)

lemma unat_incr: "(b :: u64) < n \<Longrightarrow> unat (b + 1) = unat b + 1"
  using unsigned_less [of n, where 'a = nat] by (simp add: word_less_nat_alt unat_word_ariths)

lemma below_incr: "(b :: u64) < n \<Longrightarrow> s < b + 1 \<longleftrightarrow> s \<le> b"
  and incr_below: "(b :: u64) < n \<Longrightarrow> b + 1 \<le> s \<longleftrightarrow> b < s"
  using unat_incr [of b n] by (auto simp: word_less_nat_alt word_le_nat_alt)

lemma settled_iff:
  assumes "window_ok sp"
  shows "settled sp s \<longleftrightarrow> s < spBase sp \<or> s \<in> set (spRetired sp)"
proof -
  have w: "held sp \<union> set (spRetired sp) = {s. spBase sp \<le> s \<and> s < spNext sp}" "held sp \<inter> set (spRetired sp) = {}"
    "spBase sp \<le> spNext sp" using assms unfolding window_ok_def by blast+
  show ?thesis
  proof (cases "s < spBase sp")
    case True
    then have "s < spNext sp" using w(3) by simp
    moreover have "s \<notin> held sp"
    proof
      assume "s \<in> held sp"
      then have "s \<in> {s. spBase sp \<le> s \<and> s < spNext sp}" using w(1) by blast
      then show False using True by auto
    qed
    ultimately show ?thesis using True by (simp add: settled_def)
  next
    case False
    have "s \<in> held sp \<union> set (spRetired sp) \<longleftrightarrow> spBase sp \<le> s \<and> s < spNext sp" by (simp only: w(1) mem_Collect_eq)
    moreover have "\<not> (s \<in> held sp \<and> s \<in> set (spRetired sp))" using w(2) by blast
    moreover have "spBase sp \<le> s" using False by simp
    ultimately show ?thesis using False unfolding settled_def Un_iff by blast
  qed
qed

lemma window_in:
  assumes "window_ok sp" and "map_of (spEntries sp) s = Some e"
  shows "spBase sp \<le> s" and "s < spNext sp" and "rSeq (enRec e) = s" and "s \<notin> set (spRetired sp)"
    and "enState e = stateAvailable \<Longrightarrow> s \<in> set (spAvailable sp)"
proof -
  have h: "s \<in> held sp" using assms(2) by (auto simp: held_map_of)
  moreover have w: "held sp \<union> set (spRetired sp) = {s. spBase sp \<le> s \<and> s < spNext sp}" "held sp \<inter> set (spRetired sp) = {}"
    using assms(1) unfolding window_ok_def by blast+
  ultimately show "spBase sp \<le> s" "s < spNext sp" "s \<notin> set (spRetired sp)" by blast+
  show "rSeq (enRec e) = s" "enState e = stateAvailable \<Longrightarrow> s \<in> set (spAvailable sp)"
    using assms unfolding window_ok_def by blast+
qed

lemma window_span:
  assumes "window_ok sp"
  shows "sint (spNext sp - spBase sp) = int (unat (spNext sp)) - int (unat (spBase sp))"
proof -
  have w: "spBase sp \<le> spNext sp" "int (unat (spNext sp)) - int (unat (spBase sp)) < 2 ^ 63"
    using assms unfolding window_ok_def by auto
  then have u: "unat (spNext sp - spBase sp) = unat (spNext sp) - unat (spBase sp)" by (simp add: unat_sub)
  have le: "unat (spBase sp) \<le> unat (spNext sp)" using w(1) by (simp add: word_le_nat_alt)
  have "int (unat (spNext sp - spBase sp)) = int (unat (spNext sp)) - int (unat (spBase sp))"
    using u le by (simp only: of_nat_diff)
  moreover have "sint (word_of_int (int (unat (spNext sp - spBase sp))) :: u64) = int (unat (spNext sp - spBase sp))"
    using calculation w by (intro sint_pos) (simp_all add: word_le_def)
  ultimately show ?thesis by simp
qed

subsection \<open>Every operation keeps the window\<close>

text \<open>Replacing the entry of a held sequence.\<close>

lemma held_update: "map_of (spEntries sp) s = Some e \<Longrightarrow> fst ` set (AList.update s e' (spEntries sp)) = held sp"
  unfolding dom_map_of_conv_image_fst [symmetric] update_conv' by auto

lemma window_update:
  assumes w: "window_ok sp" and m: "map_of (spEntries sp) s = Some e" and "rSeq (enRec e') = s"
    and "enState e' = stateAvailable \<longrightarrow> s \<in> set av" and "set (spAvailable sp) \<subseteq> insert s (set av)" and "sorted av"
  shows "window_ok (sp\<lparr>spEntries := AList.update s e' (spEntries sp), spAvailable := av\<rparr>)"
proof -
  have "distinct (map fst (AList.update s e' (spEntries sp)))" using w by (simp add: window_ok_def distinct_update)
  moreover have "rSeq (enRec f) = t \<and> (enState f = stateAvailable \<longrightarrow> t \<in> set av)"
    if "map_of (AList.update s e' (spEntries sp)) t = Some f" for t f
    using that window_in(3,5) [OF w, of t f] assms(3-5) by (cases "t = s") (auto simp: update_conv')
  ultimately show ?thesis using w held_update [OF m, of e'] assms(6) unfolding window_ok_def by simp
qed

lemma window_retire:
  assumes w: "window_ok sp" and m: "map_of (spEntries sp) s = Some e"
  shows "window_ok (retireLocked s sp)"
proof -
  have f: "held sp \<union> set (spRetired sp) = {s. spBase sp \<le> s \<and> s < spNext sp}" "held sp \<inter> set (spRetired sp) = {}"
    "distinct (map fst (spEntries sp))" using w unfolding window_ok_def by blast+
  have h: "fst ` set (AList.delete s (spEntries sp)) = held sp - {s}"
    using arg_cong [OF delete_keys [of s "spEntries sp"], of set] by simp
  have "s \<in> held sp" using m by (auto simp: held_map_of)
  then have "(held sp - {s}) \<union> insert s (set (spRetired sp)) = {s. spBase sp \<le> s \<and> s < spNext sp}"
    "(held sp - {s}) \<inter> insert s (set (spRetired sp)) = {}" using f(1,2) by blast+
  moreover have "distinct (map fst (AList.delete s (spEntries sp)))" using f(3) by (rule distinct_delete)
  moreover have "rSeq (enRec f) = t \<and> (enState f = stateAvailable \<longrightarrow> t \<in> set (spAvailable sp))"
    if "map_of (AList.delete s (spEntries sp)) t = Some f" for t f
    using that window_in(3,5) [OF w, of t f] by (auto simp: delete_conv' split: if_splits)
  ultimately show ?thesis using w h unfolding window_ok_def retireLocked_def by simp
qed

lemma window_release:
  assumes "window_ok sp" and "map_of (spEntries sp) s = Some e"
  shows "window_ok (releaseLocked s e sp)"
  unfolding releaseLocked_def using assms window_in(3) [OF assms]
  by (intro window_update) (auto simp: set_insort_key sorted_insort window_ok_def)

text \<open>Counters and the dead-letter trace do not matter.\<close>

lemma window_counters [simp]:
  "window_ok (sp\<lparr>spDelivered := x\<rparr>) = window_ok sp" "window_ok (sp\<lparr>spAcked := x\<rparr>) = window_ok sp"
  "window_ok (sp\<lparr>spNacked := x\<rparr>) = window_ok sp" "window_ok (sp\<lparr>spExpired := x\<rparr>) = window_ok sp"
  "window_ok (sp\<lparr>spDlqCount := x\<rparr>) = window_ok sp" "window_ok (sp\<lparr>spDead := d\<rparr>) = window_ok sp"
  "window_ok (sp\<lparr>spClosed := c\<rparr>) = window_ok sp"
  by (simp_all add: window_ok_def)

lemma window_dead_letter:
  assumes "window_ok sp" and "map_of (spEntries sp) s = Some e"
  shows "window_ok (deadLetterLocked dl s e reason sp)"
  unfolding deadLetterLocked_def using assms
  by (auto split: option.splits intro!: window_retire window_release)

text \<open>The window base slides over retired sequences only, and stops at one that is not.\<close>

lemma advance_loop_facts:
  assumes "advance_loop b r m = (b', r', m')" and "window_ok (sp\<lparr>spBase := b, spRetired := r\<rparr>)"
  shows "window_ok (sp\<lparr>spBase := b', spRetired := r'\<rparr>) \<and> b \<le> b' \<and> b' \<notin> set r' \<and> (m' \<longrightarrow> m \<or> b < b')"
  using assms
proof (induction b r m rule: advance_loop.induct)
  case (1 b r m)
  show ?case
  proof (cases "b \<in> set r")
    case False
    then show ?thesis using 1 by (simp add: advance_loop.simps [of b])
  next
    case True
    let ?s = "sp\<lparr>spBase := b, spRetired := r\<rparr>"
    have w: "held ?s \<union> set (spRetired ?s) = {s. spBase ?s \<le> s \<and> s < spNext ?s}" "held ?s \<inter> set (spRetired ?s) = {}"
      using 1(3) unfolding window_ok_def by blast+
    have "b \<in> {s. b \<le> s \<and> s < spNext sp}" using True w(1) by auto
    then have n: "b < spNext sp" by simp
    have le: "s < b + 1 \<longleftrightarrow> s \<le> b" "b + 1 \<le> s \<longleftrightarrow> b < s" for s using below_incr [OF n] incr_below [OF n] by blast+
    have "b + 1 \<le> spNext sp" "unat (b + 1) = unat b + 1" using n unat_incr [OF n] le(2) by blast+
    moreover have "b \<notin> held sp" using True w(2) by auto
    then have "held sp \<union> set (removeAll b r) = {s. b + 1 \<le> s \<and> s < spNext sp}"
      using w(1) True by (auto simp: le set_eq_iff order.strict_iff_order)
    moreover have "0 < b + 1" using le(1) [of 0] by simp
    ultimately have "window_ok (sp\<lparr>spBase := b + 1, spRetired := removeAll b r\<rparr>)"
      using 1(3) w(2) unfolding window_ok_def by auto
    moreover have "advance_loop (b + 1) (removeAll b r) True = (b', r', m')"
      using 1(2) True by (simp add: advance_loop.simps [of b])
    ultimately show ?thesis using 1(1) [OF True] le(2) by (metis order.strict_implies_order)
  qed
qed

lemma advance_facts:
  assumes "advanceLocked io (cursors, sp) = ((cursors', sp'), res)" and "window_ok sp"
  shows "window_ok sp' \<and> spBase sp \<le> spBase sp' \<and> spBase sp' \<notin> set (spRetired sp') \<and>
    (\<exists>b r. sp' = sp\<lparr>spBase := b, spRetired := r\<rparr>) \<and> (cursors' = cursors \<or> cursors' = fst (commit_base io sp' cursors))"
proof -
  obtain b r m where l: "advance_loop (spBase sp) (spRetired sp) False = (b, r, m)"
    by (cases "advance_loop (spBase sp) (spRetired sp) False")
  then have "sp' = sp\<lparr>spBase := b, spRetired := r\<rparr>" "cursors' = cursors \<or> cursors' = fst (commit_base io sp' cursors)"
    using assms(1) unfolding advanceLocked_def by (auto simp: Let_def split: if_splits prod.splits)
  then show ?thesis using advance_loop_facts [OF l, of sp] assms(2) by auto
qed

subsection \<open>What stays of a window\<close>

text \<open>No operation brings a settled sequence back or moves the window backwards.\<close>

definition grows :: "sharePartition \<Rightarrow> sharePartition \<Rightarrow> bool" where
  "grows sp sp' \<longleftrightarrow> spCfg sp' = spCfg sp \<and> cursorKey sp' = cursorKey sp \<and> spBase sp \<le> spBase sp' \<and> spNext sp \<le> spNext sp' \<and>
     (\<forall>s. settled sp s \<longrightarrow> settled sp' s)"

definition unexpired :: "int \<Rightarrow> entry \<Rightarrow> bool" where
  "unexpired now e \<longleftrightarrow> enState e = stateAcquired \<and> (\<exists>d. enDeadline e = Some d \<and> now < d)"

text \<open>In addition, acquiring leaves every running lease as it is, unless retention removed the record.\<close>

definition kept :: "int \<Rightarrow> sharePartition \<Rightarrow> sharePartition \<Rightarrow> bool" where
  "kept now sp sp' \<longleftrightarrow> grows sp sp' \<and>
     (\<forall>s e. map_of (spEntries sp) s = Some e \<longrightarrow> unexpired now e \<longrightarrow> map_of (spEntries sp') s = Some e \<or> s < spBase sp')"

lemma grows_refl: "grows sp sp"
  by (simp add: grows_def)

lemma grows_trans: "grows a b \<Longrightarrow> grows b c \<Longrightarrow> grows a c"
  unfolding grows_def by (auto intro: order_trans)

lemma kept_refl: "kept now sp sp"
  by (simp add: kept_def grows_refl)

lemma kept_trans:
  assumes "kept now a b" and "kept now b c"
  shows "kept now a c"
proof -
  have g: "grows a c" "spBase b \<le> spBase c"
    using assms grows_trans [of a b c] unfolding kept_def grows_def by blast+
  have "map_of (spEntries c) s = Some e \<or> s < spBase c" if "map_of (spEntries a) s = Some e" "unexpired now e" for s e
    using assms that g(2) unfolding kept_def by (meson less_le_trans)
  then show ?thesis using g(1) by (simp add: kept_def)
qed

lemma kept_advance: "spBase sp \<le> b \<Longrightarrow> kept now sp (sp\<lparr>spBase := b, spRetired := r\<rparr>)"
  by (simp add: kept_def grows_def cursorKey_def settled_def)

text \<open>One loop over the entries of the window, whose body touches only the entry it is given.\<close>

lemma fold_window:
  assumes refl: "\<And>sp. R sp sp" and trans: "\<And>a b c. R a b \<Longrightarrow> R b c \<Longrightarrow> R a c"
    and step: "\<And>s e sp. window_ok sp \<Longrightarrow> map_of (spEntries sp) s = Some e \<Longrightarrow> (s, e) \<in> set xs \<Longrightarrow>
      window_ok (f (s, e) sp) \<and> R sp (f (s, e) sp) \<and> (\<forall>t. t \<noteq> s \<longrightarrow> map_of (spEntries (f (s, e) sp)) t = map_of (spEntries sp) t)"
    and "window_ok sp" and "distinct (map fst xs)" and "\<And>s e. (s, e) \<in> set xs \<Longrightarrow> map_of (spEntries sp) s = Some e"
  shows "window_ok (fold f xs sp) \<and> R sp (fold f xs sp)"
  using assms(3-6)
proof (induction xs arbitrary: sp)
  case Nil
  then show ?case using refl by simp
next
  case (Cons x xs)
  obtain s e where x: "x = (s, e)" by (cases x)
  have one: "window_ok (f x sp)" "R sp (f x sp)" "\<forall>t. t \<noteq> s \<longrightarrow> map_of (spEntries (f x sp)) t = map_of (spEntries sp) t"
    using Cons.prems(1) [OF Cons.prems(2), of s e] Cons.prems(4) [of s e] x by auto
  have "window_ok (fold f xs (f x sp)) \<and> R (f x sp) (fold f xs (f x sp))"
  proof (rule Cons.IH)
    show "window_ok (f (t, d) sp') \<and> R sp' (f (t, d) sp') \<and> (\<forall>u. u \<noteq> t \<longrightarrow> map_of (spEntries (f (t, d) sp')) u = map_of (spEntries sp') u)"
      if "window_ok sp'" "map_of (spEntries sp') t = Some d" "(t, d) \<in> set xs" for t d sp'
      using Cons.prems(1) [OF that(1,2)] that(3) by simp
    show "map_of (spEntries (f x sp)) t = Some d" if "(t, d) \<in> set xs" for t d
    proof -
      have "t \<noteq> s" using Cons.prems(3) that x by (auto simp: image_iff)
      then show ?thesis using one(3) Cons.prems(4) [of t d] that by simp
    qed
  qed (use one(1) Cons.prems(3) in simp_all)
  then show ?case using trans one(2) by simp
qed

lemma map_of_entries:
  assumes "window_ok sp"
  shows "distinct (map fst (spEntries sp))" and "(s, e) \<in> set (spEntries sp) \<Longrightarrow> map_of (spEntries sp) s = Some e"
proof -
  show d: "distinct (map fst (spEntries sp))" using assms unfolding window_ok_def by blast
  show "(s, e) \<in> set (spEntries sp) \<Longrightarrow> map_of (spEntries sp) s = Some e" using d by simp
qed

lemma release_entries [simp]:
  "map_of (spEntries (releaseLocked s e sp)) = (map_of (spEntries sp))(s \<mapsto> e\<lparr>enState := stateAvailable, enHolder := [], enDeadline := None\<rparr>)"
  "spNext (releaseLocked s e sp) = spNext sp" "spBase (releaseLocked s e sp) = spBase sp" "spCfg (releaseLocked s e sp) = spCfg sp"
  "cursorKey (releaseLocked s e sp) = cursorKey sp" "spClosed (releaseLocked s e sp) = spClosed sp"
  by (simp_all add: releaseLocked_def update_conv' cursorKey_def)

lemma retire_entries [simp]:
  "map_of (spEntries (retireLocked s sp)) = (map_of (spEntries sp))(s := None)"
  "spNext (retireLocked s sp) = spNext sp" "spBase (retireLocked s sp) = spBase sp" "spCfg (retireLocked s sp) = spCfg sp"
  "cursorKey (retireLocked s sp) = cursorKey sp" "spClosed (retireLocked s sp) = spClosed sp"
  by (simp_all add: retireLocked_def delete_conv' cursorKey_def)

text \<open>An operation that changes or drops one entry only lets the window grow.\<close>

lemma grows_one:
  assumes "map_of (spEntries sp) s = Some e" and "\<forall>t. t \<noteq> s \<longrightarrow> map_of (spEntries sp') t = map_of (spEntries sp) t"
    and "spCfg sp' = spCfg sp" "cursorKey sp' = cursorKey sp" "spBase sp' = spBase sp" "spNext sp' = spNext sp"
  shows "grows sp sp'" and "\<not> unexpired now e \<Longrightarrow> kept now sp sp'"
proof -
  have "settled sp' t" if "settled sp t" for t
  proof -
    have t: "t < spNext sp" "map_of (spEntries sp) t = None" using that unfolding settled_def held_map_of by auto
    then have "map_of (spEntries sp') t = None" using assms(1,2) by (cases "t = s") auto
    then show ?thesis using t(1) assms(6) unfolding settled_def held_map_of by simp
  qed
  then show g: "grows sp sp'" using assms(3-6) by (simp add: grows_def)
  show "kept now sp sp'" if "\<not> unexpired now e"
    unfolding kept_def using g that assms(1,2) by (metis option.inject)
qed

lemma dead_letter_entries:
  assumes "map_of (spEntries sp) s = Some e"
  shows "\<forall>t. t \<noteq> s \<longrightarrow> map_of (spEntries (deadLetterLocked dl s e reason sp)) t = map_of (spEntries sp) t"
    and "spNext (deadLetterLocked dl s e reason sp) = spNext sp" "spBase (deadLetterLocked dl s e reason sp) = spBase sp"
    and "spCfg (deadLetterLocked dl s e reason sp) = spCfg sp" "cursorKey (deadLetterLocked dl s e reason sp) = cursorKey sp"
    and "spClosed (deadLetterLocked dl s e reason sp) = spClosed sp"
  by (auto simp: deadLetterLocked_def cursorKey_def retireLocked_def releaseLocked_def update_conv' delete_conv' split: option.splits)

definition waiting_kept :: "sharePartition \<Rightarrow> sharePartition \<Rightarrow> bool" where
  "waiting_kept sp sp' \<longleftrightarrow>
     (\<forall>s e. map_of (spEntries sp) s = Some e \<longrightarrow> enState e = stateAvailable \<longrightarrow> map_of (spEntries sp') s = Some e)"

lemma waiting_one:
  assumes "map_of (spEntries sp) s = Some e" and "enState e \<noteq> stateAvailable"
    and "\<forall>t. t \<noteq> s \<longrightarrow> map_of (spEntries sp') t = map_of (spEntries sp) t"
  shows "waiting_kept sp sp'"
  unfolding waiting_kept_def
proof (intro allI impI)
  fix t f assume f: "map_of (spEntries sp) t = Some f" "enState f = stateAvailable"
  then have "t \<noteq> s" using assms(1,2) by auto
  then show "map_of (spEntries sp') t = Some f" using assms(3) f(1) by simp
qed

lemma reap_entry_facts:
  assumes "window_ok sp" and "map_of (spEntries sp) s = Some e"
  shows "window_ok (reap_entry dl now (s, e) sp) \<and> (kept now sp (reap_entry dl now (s, e) sp) \<and>
      spClosed (reap_entry dl now (s, e) sp) = spClosed sp \<and> spNext (reap_entry dl now (s, e) sp) = spNext sp \<and>
      waiting_kept sp (reap_entry dl now (s, e) sp)) \<and>
    (\<forall>t. t \<noteq> s \<longrightarrow> map_of (spEntries (reap_entry dl now (s, e) sp)) t = map_of (spEntries sp) t)"
proof (cases "enState e \<noteq> stateAcquired \<or> (case enDeadline e of None \<Rightarrow> False | Some d \<Rightarrow> now < d)")
  case True
  then show ?thesis using assms(1) kept_refl by (simp add: reap_entry_def waiting_kept_def)
next
  case False
  let ?s = "sp\<lparr>spExpired := spExpired sp + 1\<rparr>"
  have u: "\<not> unexpired now e" using False by (auto simp: unexpired_def)
  have m: "map_of (spEntries ?s) s = Some e" and w: "window_ok ?s" using assms by simp_all
  define reason where "reason = ''lease expired after '' @ decimal_int (enCount e) @ '' deliveries''"
  have r: "reap_entry dl now (s, e) sp = deadLetterLocked dl s e reason ?s \<or> reap_entry dl now (s, e) sp = releaseLocked s e ?s"
    unfolding reason_def using False by (simp add: reap_entry_def Let_def)
  note d = dead_letter_entries [OF m, of dl reason]
  have "kept now sp (deadLetterLocked dl s e reason ?s)" "kept now sp (releaseLocked s e ?s)"
    using u d by (auto intro!: grows_one(2) [OF assms(2)] simp: cursorKey_def [of ?s] cursorKey_def [of sp])
  moreover have "waiting_kept sp (deadLetterLocked dl s e reason ?s)" "waiting_kept sp (releaseLocked s e ?s)"
    using d(1) False by (auto intro!: waiting_one [OF assms(2)])
  ultimately show ?thesis using r d window_dead_letter [OF w m] window_release [OF w m] by auto
qed

lemma reap_facts:
  assumes "reapExpiredLocked io dl now (cursors, sp) = (cursors', sp')" and w: "window_ok sp"
  shows "window_ok sp' \<and> kept now sp sp' \<and> spClosed sp' = spClosed sp \<and> spNext sp' = spNext sp \<and> waiting_kept sp sp' \<and>
    (cursors' = cursors \<or> cursors' = fst (commit_base io sp' cursors))"
proof -
  let ?f = "fold (reap_entry dl now) (spEntries sp) sp"
  have f: "window_ok ?f \<and> (kept now sp ?f \<and> spClosed ?f = spClosed sp \<and> spNext ?f = spNext sp \<and> waiting_kept sp ?f)"
    using map_of_entries [OF w] w reap_entry_facts kept_refl
    by (intro fold_window [where R = "\<lambda>a b. kept now a b \<and> spClosed b = spClosed a \<and> spNext b = spNext a \<and> waiting_kept a b"])
      (auto intro: kept_trans simp: waiting_kept_def)
  obtain c sp2 r where a: "advanceLocked io (cursors, ?f) = ((c, sp2), r)" by (metis surj_pair)
  then have e: "c = cursors'" "sp2 = sp'" using assms(1) by (simp_all add: reapExpiredLocked_def)
  have g: "window_ok sp' \<and> spBase ?f \<le> spBase sp' \<and> spBase sp' \<notin> set (spRetired sp') \<and>
      (\<exists>b r. sp' = ?f\<lparr>spBase := b, spRetired := r\<rparr>) \<and> (cursors' = cursors \<or> cursors' = fst (commit_base io sp' cursors))"
    using advance_facts [OF a] f unfolding e by blast
  then obtain b r where b: "sp' = ?f\<lparr>spBase := b, spRetired := r\<rparr>" by blast
  then have "kept now ?f sp'" using g kept_advance [of ?f b now r] by simp
  then have "kept now sp sp'" using f kept_trans by blast
  then show ?thesis using g f b by (simp add: waiting_kept_def)
qed

subsection \<open>Acquiring\<close>

text \<open>The state of an acquire in progress, against the window it started from.\<close>

definition free_for :: "int \<Rightarrow> sharePartition \<Rightarrow> u64 \<Rightarrow> bool" where
  "free_for now sp s \<longleftrightarrow> \<not> settled sp s \<and> (\<forall>e. map_of (spEntries sp) s = Some e \<longrightarrow> \<not> unexpired now e)"

definition leased_to :: "string \<Rightarrow> sharePartition \<Rightarrow> Delivery \<Rightarrow> bool" where
  "leased_to consumer sp d \<longleftrightarrow> (\<exists>e. map_of (spEntries sp) (dlSeq d) = Some e \<and> enState e = stateAcquired \<and> enHolder e = consumer \<and>
     enDeadline e = Some (dlDeadline d) \<and> enCount e = dlCount d \<and> enRec e = dlRecord d)"

definition acquiring :: "string \<Rightarrow> int \<Rightarrow> sharePartition \<Rightarrow> sharePartition \<Rightarrow> Delivery list \<Rightarrow> bool" where
  "acquiring consumer now sp0 sp out \<longleftrightarrow> window_ok sp0 \<and> window_ok sp \<and> kept now sp0 sp \<and> distinct (map dlSeq out) \<and>
     (\<forall>d \<in> set out. dlPartition d = spPartID sp0 \<and> free_for now sp0 (dlSeq d) \<and> dlSeq d < spNext sp \<and> (leased_to consumer sp d \<or> dlSeq d < spBase sp))"

text \<open>Leasing a record that is available, taken off the heap.\<close>

lemma lease_available:
  assumes a: "acquiring consumer now sp0 (sp\<lparr>spAvailable := s # heap\<rparr>) out" and m: "map_of (spEntries sp) s = Some e"
    and st: "enState e = stateAvailable" and l: "leaseLocked s e consumer now sp = (sp', d)"
  shows "acquiring consumer now sp0 (sp'\<lparr>spAvailable := heap\<rparr>) (out @ [d])"
proof -
  let ?sp = "sp\<lparr>spAvailable := s # heap\<rparr>"
  let ?e = "e\<lparr>enState := stateAcquired, enCount := enCount e + 1, enHolder := consumer, enDeadline := Some (now + scAckTimeout (spCfg sp))\<rparr>"
  have w0: "window_ok sp0" and w: "window_ok ?sp" and k: "kept now sp0 ?sp" and di: "distinct (map dlSeq out)"
    and o: "\<And>d. d \<in> set out \<Longrightarrow> dlPartition d = spPartID sp0 \<and> free_for now sp0 (dlSeq d) \<and> dlSeq d < spNext ?sp \<and> (leased_to consumer ?sp d \<or> dlSeq d < spBase ?sp)"
    using a unfolding acquiring_def by blast+
  have m': "map_of (spEntries ?sp) s = Some e" using m by simp
  have sp': "sp' = sp\<lparr>spEntries := AList.update s ?e (spEntries sp)\<rparr>" and d: "dlSeq d = s" "dlDeadline d = now + scAckTimeout (spCfg sp)"
      "dlCount d = enCount e + 1" "dlRecord d = enRec e" and dp: "dlPartition d = spPartID sp"
    using l by (auto simp: leaseLocked_def Let_def)
  have "window_ok (?sp\<lparr>spEntries := AList.update s ?e (spEntries ?sp), spAvailable := heap\<rparr>)"
    using w window_in(3) [OF w m'] by (intro window_update [OF w m']) (auto simp: window_ok_def)
  then have w': "window_ok (sp'\<lparr>spAvailable := heap\<rparr>)" by (simp add: sp')
  have u: "\<not> unexpired now e" using st by (simp add: unexpired_def)
  then have "kept now ?sp (sp'\<lparr>spAvailable := heap\<rparr>)"
    by (intro grows_one(2) [OF m']) (auto simp: sp' update_conv' cursorKey_def)
  then have k': "kept now sp0 (sp'\<lparr>spAvailable := heap\<rparr>)" using k kept_trans by blast
  have dp0: "dlPartition d = spPartID sp0" using k dp unfolding kept_def grows_def cursorKey_def by simp
  have in_w: "spBase sp \<le> s" "s < spNext sp" using window_in(1,2) [OF w m'] by simp_all
  have free: "free_for now sp0 s"
    unfolding free_for_def
  proof (intro conjI allI impI notI)
    assume "settled sp0 s"
    then have "settled ?sp s" using k unfolding kept_def grows_def by blast
    then show False using m' unfolding settled_def held_map_of by simp
  next
    fix f assume "map_of (spEntries sp0) s = Some f" "unexpired now f"
    then have "map_of (spEntries ?sp) s = Some f \<or> s < spBase ?sp" using k unfolding kept_def by blast
    then show False using m' in_w u \<open>unexpired now f\<close> by auto
  qed
  have new: "s \<notin> dlSeq ` set out" using o st m in_w by (fastforce simp: leased_to_def)
  have "leased_to consumer (sp'\<lparr>spAvailable := heap\<rparr>) c \<or> dlSeq c < spBase sp" if "c \<in> set out" for c
    using o [OF that] new that by (auto simp: leased_to_def sp' update_conv')
  moreover have "leased_to consumer (sp'\<lparr>spAvailable := heap\<rparr>) d" using d by (simp add: leased_to_def sp' update_conv')
  ultimately show ?thesis
    unfolding acquiring_def using w0 w' k' di new o free in_w d(1) dp0 by (auto simp: sp')
qed

lemma heap_irrelevant [simp]:
  "kept now sp0 (sp\<lparr>spAvailable := h\<rparr>) = kept now sp0 sp" "leased_to consumer (sp\<lparr>spAvailable := h\<rparr>) d = leased_to consumer sp d"
  by (simp_all add: kept_def grows_def cursorKey_def settled_def leased_to_def)

lemma window_pop:
  assumes w: "window_ok (sp\<lparr>spAvailable := s # heap\<rparr>)" and "\<not> (\<exists>e. map_of (spEntries sp) s = Some e \<and> enState e = stateAvailable)"
  shows "window_ok (sp\<lparr>spAvailable := heap\<rparr>)"
proof -
  have "rSeq (enRec e) = t \<and> (enState e = stateAvailable \<longrightarrow> t \<in> set heap)" if "map_of (spEntries sp) t = Some e" for t e
    using window_in(3,5) [OF w, of t e] assms(2) that by auto
  then show ?thesis using w unfolding window_ok_def by simp
qed

lemma redeliver_facts:
  assumes "redeliver consumer n now heap sp out = (sp', out')" and "acquiring consumer now sp0 (sp\<lparr>spAvailable := heap\<rparr>) out"
  shows "acquiring consumer now sp0 sp' out' \<and> length out \<le> length out' \<and>
    (int (length out) \<le> n \<longrightarrow> int (length out') \<le> n) \<and> spNext sp' = spNext sp \<and> spBase sp' = spBase sp \<and>
    (int (length out) < n \<and> (\<exists>s \<in> set heap. \<exists>e. map_of (spEntries sp) s = Some e \<and> enState e = stateAvailable) \<longrightarrow>
      length out < length out')"
  using assms
proof (induction heap arbitrary: sp out)
  case Nil
  then show ?case by auto
next
  case (Cons s heap)
  show ?case
  proof (cases "int (length out) < n")
    case False
    then show ?thesis using Cons.prems by auto
  next
    case True
    show ?thesis
    proof (cases "\<exists>e. map_of (spEntries sp) s = Some e \<and> enState e = stateAvailable")
      case False
      then have r: "redeliver consumer n now heap sp out = (sp', out')"
        using Cons.prems(1) True by (auto split: option.splits if_splits)
      have "acquiring consumer now sp0 (sp\<lparr>spAvailable := heap\<rparr>) out"
        using Cons.prems(2) window_pop [OF _ False, of heap] unfolding acquiring_def by simp
      then show ?thesis using Cons.IH [OF r] False by auto
    next
      case True
      then obtain e where e: "map_of (spEntries sp) s = Some e" "enState e = stateAvailable" by blast
      obtain sp1 d where l: "leaseLocked s e consumer now sp = (sp1, d)" by (cases "leaseLocked s e consumer now sp")
      have r: "redeliver consumer n now heap sp1 (out @ [d]) = (sp', out')"
        using Cons.prems(1) \<open>int (length out) < n\<close> e l by simp
      have "spNext sp1 = spNext sp" "spBase sp1 = spBase sp" using l by (auto simp: leaseLocked_def Let_def)
      then show ?thesis
        using Cons.IH [OF r lease_available [OF Cons.prems(2) e l]] \<open>int (length out) < n\<close> by auto
    qed
  qed
qed

text \<open>Leasing the next record of the log.\<close>

lemma window_extend:
  assumes w: "window_ok sp" and s: "s = spNext sp" and fit: "unat s + 1 < 2 ^ 64"
    and room: "int (unat (spNext sp)) - int (unat (spBase sp)) < scMaxInFlight (spCfg sp)"
    and es: "distinct (map fst es)" "fst ` set es = insert s (held sp)" "map_of es = (map_of (spEntries sp))(s \<mapsto> e)"
    and e: "rSeq (enRec e) = s" "enState e = stateAcquired"
  shows "window_ok (sp\<lparr>spEntries := es, spNext := s + 1\<rparr>)"
proof -
  have n: "s < s + 1" and u: "unat (s + 1) = unat s + 1" using fit by (simp_all add: word_less_nat_alt unat_word_ariths)
  have le: "t < s + 1 \<longleftrightarrow> t \<le> s" for t using u by (simp add: word_less_nat_alt word_le_nat_alt less_Suc_eq_le)
  have f: "held sp \<union> set (spRetired sp) = {t. spBase sp \<le> t \<and> t < s}" "held sp \<inter> set (spRetired sp) = {}" "spBase sp \<le> s"
    using w s unfolding window_ok_def by blast+
  have "s \<notin> set (spRetired sp)" using f(1) by auto
  moreover have "insert s (held sp) \<union> set (spRetired sp) = {t. spBase sp \<le> t \<and> t < s + 1}"
    using f(1,3) by (auto simp: le)
  moreover have "rSeq (enRec f) = t \<and> (enState f = stateAvailable \<longrightarrow> t \<in> set (spAvailable sp))" if "map_of es t = Some f" for t f
    using that window_in(3,5) [OF w, of t f] e es(3) by (cases "t = s") auto
  moreover have "int (unat (s + 1)) - int (unat (spBase sp)) \<le> scMaxInFlight (spCfg sp)"
    using room unfolding u s [symmetric] of_nat_add by linarith
  moreover have "spBase sp \<le> s + 1" using f(3) n by (meson less_imp_le order_trans)
  ultimately show ?thesis using w f(2) es(1,2) unfolding window_ok_def by auto
qed

lemma lease_next:
  assumes a: "acquiring consumer now sp0 sp out" and s: "rSeq rec = spNext sp" and fit: "unat (spNext sp) + 1 < 2 ^ 64"
    and room: "int (unat (spNext sp)) - int (unat (spBase sp)) < scMaxInFlight (spCfg sp)"
    and l: "leaseLocked (rSeq rec) e0 consumer now (sp\<lparr>spEntries := AList.update (rSeq rec) e0 (spEntries sp), spNext := rSeq rec + 1\<rparr>) = (sp', d)"
    and e0: "enRec e0 = rec"
  shows "acquiring consumer now sp0 sp' (out @ [d]) \<and> spNext sp' = spNext sp + 1 \<and> spBase sp' = spBase sp \<and> spCfg sp' = spCfg sp"
proof -
  let ?s = "spNext sp"
  let ?e = "e0\<lparr>enState := stateAcquired, enCount := enCount e0 + 1, enHolder := consumer, enDeadline := Some (now + scAckTimeout (spCfg sp))\<rparr>"
  let ?es = "AList.update ?s ?e (AList.update ?s e0 (spEntries sp))"
  have w0: "window_ok sp0" and w: "window_ok sp" and k: "kept now sp0 sp" and di: "distinct (map dlSeq out)"
    and o: "\<And>d. d \<in> set out \<Longrightarrow> dlPartition d = spPartID sp0 \<and> free_for now sp0 (dlSeq d) \<and> dlSeq d < ?s \<and> (leased_to consumer sp d \<or> dlSeq d < spBase sp)"
    using a unfolding acquiring_def by blast+
  have sp': "sp' = sp\<lparr>spEntries := ?es, spNext := ?s + 1\<rparr>" and d: "dlSeq d = ?s" "leased_to consumer sp' d" and dp: "dlPartition d = spPartID sp"
    using l s e0 by (auto simp: leaseLocked_def Let_def leased_to_def update_conv')
  have m: "map_of ?es = (map_of (spEntries sp))(?s \<mapsto> ?e)" by (simp add: update_conv')
  have h: "fst ` set ?es = insert ?s (held sp)"
    unfolding dom_map_of_conv_image_fst [symmetric] m by (simp add: dom_map_of_conv_image_fst)
  have "window_ok (sp\<lparr>spEntries := ?es, spNext := ?s + 1\<rparr>)"
    using map_of_entries(1) [OF w] s e0 fit room h m by (intro window_extend [OF w]) (auto intro!: distinct_update)
  then have w': "window_ok sp'" by (simp only: sp')
  have n: "?s < ?s + 1" using fit by (simp add: word_less_nat_alt unat_word_ariths)
  have "?s \<notin> held sp" using window_in(2) [OF w] unfolding held_map_of by blast
  moreover have hs: "held sp' = insert ?s (held sp)" "spNext sp' = ?s + 1" using h unfolding sp' by simp_all
  have "settled sp' t" if "settled sp t" for t using that n unfolding settled_def hs by auto
  moreover have "map_of (spEntries sp') t = Some e" if "map_of (spEntries sp) t = Some e" for t e
    using m that window_in(2) [OF w that] unfolding sp' by auto
  ultimately have "kept now sp sp'"
    using n unfolding kept_def grows_def cursorKey_def hs(2) by (simp add: sp')
  then have k': "kept now sp0 sp'" using k kept_trans by blast
  have "spNext sp0 \<le> ?s" using k unfolding kept_def grows_def by blast
  then have free: "free_for now sp0 ?s" using window_in(2) [OF w0] unfolding free_for_def settled_def by (meson not_less)
  have new: "?s \<notin> dlSeq ` set out" using o by force
  have "dlSeq c < ?s + 1 \<and> (leased_to consumer sp' c \<or> dlSeq c < spBase sp)" if "c \<in> set out" for c
    using o [OF that] n m unfolding leased_to_def sp' by (auto intro: less_trans)
  moreover have "dlPartition d = spPartID sp0" using k dp unfolding kept_def grows_def cursorKey_def by simp
  ultimately have "\<forall>c \<in> set (out @ [d]). dlPartition c = spPartID sp0 \<and> free_for now sp0 (dlSeq c) \<and> dlSeq c < spNext sp' \<and> (leased_to consumer sp' c \<or> dlSeq c < spBase sp')"
    using o free d n by (auto simp: sp')
  then show ?thesis unfolding acquiring_def using w0 w' k' di new d(1) by (auto simp: sp')
qed

lemma lease_records_facts:
  assumes "lease_records consumer n now recs sp out = (sp', out')" and "acquiring consumer now sp0 sp out"
    and "numbered (spNext sp) recs"
    and "int (unat (spNext sp)) - int (unat (spBase sp)) + int (length recs) \<le> scMaxInFlight (spCfg sp)"
  shows "acquiring consumer now sp0 sp' out' \<and> (int (length out) \<le> n \<longrightarrow> int (length out') \<le> n) \<and> spBase sp' = spBase sp \<and>
    spNext sp \<le> spNext sp' \<and> length out \<le> length out' \<and> (int (length out) < n \<and> recs \<noteq> [] \<longrightarrow> length out < length out')"
  using assms
proof (induction recs arbitrary: sp out)
  case Nil
  then show ?case by auto
next
  case (Cons rec recs)
  show ?case
  proof (cases "int (length out) \<ge> n")
    case True
    then show ?thesis using Cons.prems by auto
  next
    case False
    let ?e = "\<lparr>enRec = rec, enState = stateAvailable, enCount = 0, enDeadline = None, enHolder = []\<rparr>"
    let ?sp = "sp\<lparr>spEntries := AList.update (rSeq rec) ?e (spEntries sp), spNext := rSeq rec + 1\<rparr>"
    have s: "rSeq rec = spNext sp" using numbered_nth [OF Cons.prems(3), of 0] by simp
    have fit: "unat (spNext sp) + 1 < 2 ^ 64" using Cons.prems(3) by (simp add: numbered_def)
    have room: "int (unat (spNext sp)) - int (unat (spBase sp)) < scMaxInFlight (spCfg sp)" using Cons.prems(4) by simp
    obtain sp2 d where l: "leaseLocked (rSeq rec) ?e consumer now ?sp = (sp2, d)" by (cases "leaseLocked (rSeq rec) ?e consumer now ?sp")
    have r: "lease_records consumer n now recs sp2 (out @ [d]) = (sp', out')"
      using Cons.prems(1) False l by (simp add: s Let_def)
    have nx: "acquiring consumer now sp0 sp2 (out @ [d])" "spNext sp2 = spNext sp + 1" "spBase sp2 = spBase sp" "spCfg sp2 = spCfg sp"
      using lease_next [OF Cons.prems(2) s fit room l] by auto
    have u: "unat (spNext sp + 1) = unat (spNext sp) + 1" using fit by (simp add: unat_word_ariths)
    have num: "numbered (spNext sp2) recs" using numbered_append2 [of "spNext sp" "[rec]" recs] Cons.prems(3) nx(2) by simp
    have fits: "int (unat (spNext sp2)) - int (unat (spBase sp2)) + int (length recs) \<le> scMaxInFlight (spCfg sp2)"
      using Cons.prems(4) unfolding nx(2-4) u by simp
    have "spNext sp \<le> spNext sp2" using u unfolding nx(2) word_le_nat_alt by simp
    then show ?thesis using Cons.IH [OF r nx(1) num fits] False nx(3) by (auto intro: order_trans)
  qed
qed

text \<open>Skipping over what retention removed.\<close>

lemma skip_facts:
  assumes a: "acquiring consumer now sp0 sp out" and sk: "skipToLocked io seq (cursors, sp) = (cursors', sp')" and n: "spNext sp < seq"
  shows "acquiring consumer now sp0 sp' out \<and> spBase sp' = seq \<and> spNext sp' = seq \<and> cursors' = fst (commit_base io sp' cursors)"
proof -
  have w0: "window_ok sp0" and w: "window_ok sp" and k: "kept now sp0 sp" and di: "distinct (map dlSeq out)"
    and o: "\<And>d. d \<in> set out \<Longrightarrow> dlPartition d = spPartID sp0 \<and> free_for now sp0 (dlSeq d) \<and> dlSeq d < spNext sp \<and> (leased_to consumer sp d \<or> dlSeq d < spBase sp)"
    using a unfolding acquiring_def by blast+
  have b: "spBase sp < seq" using n w unfolding window_ok_def by (meson le_less_trans)
  have low: "t < seq" if "t \<in> held sp \<union> set (spRetired sp)" for t
  proof -
    have "held sp \<union> set (spRetired sp) = {s. spBase sp \<le> s \<and> s < spNext sp}" using w unfolding window_ok_def by blast
    then have "t < spNext sp" using that by blast
    then show ?thesis using n by (rule less_trans)
  qed
  have "filter (\<lambda>(x, _). \<not> x < seq) (spEntries sp) = []" "filter (\<lambda>x. \<not> x < seq) (spRetired sp) = []"
    using low by (force simp: filter_empty_conv)+
  then have sp': "sp' = sp\<lparr>spEntries := [], spRetired := [], spBase := seq, spNext := seq\<rparr>" and c: "cursors' = fst (commit_base io sp' cursors)"
    using sk n b unfolding skipToLocked_def Let_def prod.case if_not_P [OF less_le_not_le [THEN iffD1, THEN conjunct2, OF b]] by auto
  have "window_ok sp'" using w b unfolding window_ok_def sp' by (auto simp: word_gt_0)
  moreover have "kept now sp sp'"
    using b n low window_in(2) [OF w] less_trans [OF _ n] unfolding kept_def grows_def cursorKey_def settled_def sp' by (auto intro: less_imp_le)
  ultimately show ?thesis
    using w0 k kept_trans di o c less_trans [OF _ n] unfolding acquiring_def by (fastforce simp: sp')
qed

text \<open>What a read of a partition gives.\<close>

lemma filter_numbered:
  assumes "numbered b rs" and "b \<le> x"
  shows "filter (\<lambda>r. x \<le> rSeq r) rs = drop (unat x - unat b) rs"
  using assms
proof (induction rs arbitrary: b)
  case (Cons r rs)
  have r: "rSeq r = b" and fit: "unat b + 1 < 2 ^ 64" using Cons.prems(1) numbered_nth [OF Cons.prems(1), of 0] by (simp_all add: numbered_def)
  have num: "numbered (b + 1) rs" using numbered_append2 [of b "[r]" rs] Cons.prems(1) by simp
  have u: "unat (b + 1) = unat b + 1" using fit by (simp add: unat_word_ariths)
  show ?case
  proof (cases "x = b")
    case True
    have "b \<le> rSeq t" if mem: "t \<in> set (r # rs)" for t
    proof -
      obtain i where i: "i < length (r # rs)" "t = (r # rs) ! i" using mem unfolding in_set_conv_nth by blast
      then show ?thesis using numbered_nth [OF Cons.prems(1) i(1)] numbered_le_iff [OF Cons.prems(1), of 0 i] by simp
    qed
    then show ?thesis using True by (simp add: filter_id_conv)
  next
    case False
    then have "b < x" using Cons.prems(2) by simp
    then have "b + 1 \<le> x" using u by (simp add: word_less_nat_alt word_le_nat_alt)
    moreover have "unat x - unat b = Suc (unat x - unat (b + 1))" using \<open>b < x\<close> u by (simp add: word_less_nat_alt)
    moreover have "\<not> x \<le> rSeq r" using \<open>b < x\<close> r by simp
    ultimately show ?thesis using Cons.IH [OF num] by simp
  qed
qed simp

lemma ReadFrom_run:
  assumes ok: "part_ok p rs" and x: "FirstSeq p \<le> x" and n: "0 < n"
  shows "\<exists>p' recs. ReadFrom io_ok x n p = (p', recs, None) \<and> part_ok p' rs \<and> FirstSeq p' = FirstSeq p \<and> numbered x recs \<and>
    int (length recs) \<le> n \<and> (x < NextSeq p \<longrightarrow> recs \<noteq> [])"
proof -
  have num: "numbered (pFirstSeq p) rs" "pNextSeq p = pFirstSeq p + of_nat (length rs)" using part_ok_numbered [OF ok] by blast+
  have x0: "x \<noteq> 0" using num(1) x unfolding FirstSeq_def numbered_def by (metis word_le_0_iff)
  obtain p' k where r: "Read io_ok x n 4194304 p = (p', take k (filter (\<lambda>r. x \<le> rSeq r) rs), None)" "part_ok p' rs"
      "filter (\<lambda>r. x \<le> rSeq r) rs \<noteq> [] \<longrightarrow> 0 < k" "int (length (take k (filter (\<lambda>r. x \<le> rSeq r) rs))) \<le> n"
    using Read_ok [OF ok, of x n 4194304] x n x0 unfolding FirstSeq_def by auto
  have f: "filter (\<lambda>r. x \<le> rSeq r) rs = drop (unat x - unat (pFirstSeq p)) rs"
    using filter_numbered [OF num(1)] x by (simp add: FirstSeq_def)
  let ?j = "unat x - unat (pFirstSeq p)"
  have ux: "unat (pFirstSeq p) \<le> unat x" using x by (simp add: FirstSeq_def word_le_nat_alt)
  have "numbered x (drop ?j rs)"
  proof (cases "?j \<le> length rs")
    case True
    then have "unat (pFirstSeq p + of_nat ?j) = unat x" using numbered_unat [OF num(1), of ?j] ux by simp
    then have "pFirstSeq p + of_nat ?j = x" by (rule word_unat_eq_iff [THEN iffD2])
    then show ?thesis using numbered_append2 [of "pFirstSeq p" "take ?j rs" "drop ?j rs"] num(1) True by (simp add: min_absorb2)
  next
    case False
    then show ?thesis using x0 unsigned_less [of x, where 'a = nat] by (simp add: numbered_def)
  qed
  moreover have "FirstSeq p' = FirstSeq p" using r(1) by (auto simp: Read_def Let_def FirstSeq_def split: if_splits prod.splits)
  moreover have "filter (\<lambda>r. x \<le> rSeq r) rs \<noteq> []" if "x < NextSeq p"
    using that numbered_unat [OF num(1), of "length rs"] num(2) ux unfolding f NextSeq_def by (simp add: word_less_nat_alt)
  ultimately show ?thesis
    using r unfolding ReadFrom_def f by (intro exI [of _ p'] exI [of _ "take k (drop (unat x - unat (pFirstSeq p)) rs)"]) (auto intro: numbered_take)
qed

text \<open>The committed position of the group never runs ahead of the window.\<close>

definition cursor_behind :: "cursor_store option \<Rightarrow> sharePartition \<Rightarrow> bool" where
  "cursor_behind cursors sp \<longleftrightarrow> (\<forall>cs pos. cursors = Some cs \<longrightarrow> Position (cursorKey sp) cs = Some pos \<longrightarrow> pos \<le> spBase sp)"

lemma Commit_position:
  assumes "Position k (fst (Commit io k s c)) = Some pos"
  shows "pos = s \<or> Position k c = Some pos"
  using assms unfolding Commit_def Let_def Position_def cursor_write_def maybeCompact_def
  by (auto simp: update_conv' split: if_splits option.splits prod.splits bool.splits)

lemma commit_base_behind: "cursor_behind cursors sp \<Longrightarrow> cursor_behind (fst (commit_base io sp cursors)) sp"
  using Commit_position [of "cursorKey sp" io "spBase sp"] unfolding cursor_behind_def commit_base_def
  by (auto split: option.splits prod.splits) (metis fst_conv order_refl)

text \<open>A window commits under its own key only.\<close>

definition only_key :: "CursorKey \<Rightarrow> cursor_store option \<Rightarrow> cursor_store option \<Rightarrow> bool" where
  "only_key k cs cs' \<longleftrightarrow>
     (\<forall>c'. cs' = Some c' \<longrightarrow> (\<exists>c. cs = Some c \<and> (\<forall>k'. CursorKey_String k' \<noteq> CursorKey_String k \<longrightarrow> Position k' c' = Position k' c)))"

lemma only_key_refl: "only_key k cs cs"
  by (simp add: only_key_def)

lemma only_key_trans: "only_key k a b \<Longrightarrow> only_key k b c \<Longrightarrow> only_key k a c"
  unfolding only_key_def by force

lemma Commit_other: "CursorKey_String k' \<noteq> CursorKey_String k \<Longrightarrow> Position k' (fst (Commit io k s c)) = Position k' c"
  unfolding Commit_def Let_def Position_def cursor_write_def maybeCompact_def
  by (auto simp: update_conv' split: if_splits option.splits prod.splits bool.splits)

lemma commit_base_only: "only_key (cursorKey sp) cs (fst (commit_base io sp cs))"
  using Commit_other unfolding only_key_def commit_base_def
  by (auto split: option.splits prod.splits) (metis fst_conv)

lemma behind_grows: "cursor_behind cursors sp \<Longrightarrow> grows sp sp' \<Longrightarrow> cursor_behind cursors sp'"
  unfolding cursor_behind_def grows_def by (metis order_trans)

lemma delivered_irrelevant [simp]:
  "acquiring consumer now sp0 (sp\<lparr>spDelivered := x\<rparr>) out = acquiring consumer now sp0 sp out"
  "cursor_behind cursors (sp\<lparr>spDelivered := x\<rparr>) = cursor_behind cursors sp"
  by (simp_all add: acquiring_def kept_def grows_def settled_def leased_to_def cursor_behind_def cursorKey_def)

lemma acquire_fresh_present:
  assumes "part_ok p rs" and "acquiring consumer now sp0 sp out" and "int (length out) \<le> n" and "FirstSeq p \<le> spNext sp"
    and "cursor_behind cursors sp"
  shows "\<exists>p' sp' out'. acquire_fresh io_ok consumer n now (p, cursors, sp) out = Some ((p', cursors, sp'), Inr out') \<and>
    part_ok p' rs \<and> acquiring consumer now sp0 sp' out' \<and> length out \<le> length out' \<and> int (length out') \<le> n \<and> cursor_behind cursors sp' \<and>
    (int (length out) < n \<and> int (unat (spNext sp)) - int (unat (spBase sp)) < scMaxInFlight (spCfg sp) \<and> spNext sp < NextSeq p \<longrightarrow>
      length out < length out')"
  using assms
proof (induction "nat (n - int (length out))" arbitrary: p sp out rule: less_induct)
  case less
  let ?room = "scMaxInFlight (spCfg sp) - (int (unat (spNext sp)) - int (unat (spBase sp)))"
  have w: "window_ok sp" using less.prems(2) by (simp add: acquiring_def)
  show ?case
  proof (cases "int (length out) < n \<and> 0 < ?room")
    case False
    then show ?thesis using less.prems window_span [OF w]
      by (subst acquire_fresh.simps) (auto simp: Let_def)
  next
    case True
    let ?want = "min (n - int (length out)) ?room"
    have want: "0 < ?want" using True by simp
    obtain p1 recs where r: "ReadFrom io_ok (spNext sp) ?want p = (p1, recs, None)" "part_ok p1 rs" "FirstSeq p1 = FirstSeq p"
        "numbered (spNext sp) recs" "int (length recs) \<le> ?want" "spNext sp < NextSeq p \<longrightarrow> recs \<noteq> []"
      using ReadFrom_run [OF less.prems(1,4) want] by blast
    note unf = acquire_fresh.simps [of io_ok consumer n now "(p, cursors, sp)" out]
    show ?thesis
    proof (cases "recs = []")
      case True
      have "acquire_fresh io_ok consumer n now (p, cursors, sp) out =
          Some ((p1, cursors, sp\<lparr>spDelivered := spDelivered sp + of_nat (length out)\<rparr>), Inr out)"
        using True \<open>int (length out) < n \<and> 0 < ?room\<close> r(1) unfolding unf by (simp add: Let_def window_span [OF w])
      then show ?thesis using r(2,6) True less.prems by auto
    next
      case False
      obtain sp1 out1 where l: "lease_records consumer n now recs sp out = (sp1, out1)" by (metis surj_pair)
      have "acquire_fresh io_ok consumer n now (p, cursors, sp) out = acquire_fresh io_ok consumer n now (p1, cursors, sp1) out1"
        using False \<open>int (length out) < n \<and> 0 < ?room\<close> r(1) l unfolding unf by (simp add: Let_def window_span [OF w])
      moreover have "int (unat (spNext sp)) - int (unat (spBase sp)) + int (length recs) \<le> scMaxInFlight (spCfg sp)"
        using r(5) by linarith
      note f = lease_records_facts [OF l less.prems(2) r(4) this]
      have "FirstSeq p1 \<le> spNext sp1" using less.prems(4) f r(3) by (metis order_trans)
      moreover have "cursor_behind cursors sp1" using f less.prems(2,5) unfolding acquiring_def kept_def grows_def cursor_behind_def by auto
      moreover have "length out < length out1" "nat (n - int (length out1)) < nat (n - int (length out))"
        using f False \<open>int (length out) < n \<and> 0 < ?room\<close> by auto
      ultimately show ?thesis using less.hyps [of out1 p1 sp1] r(2) f less.prems(3) by fastforce
    qed
  qed
qed

lemma acquire_fresh_returns:
  assumes ok: "part_ok p rs" and a: "acquiring consumer now sp0 sp out" and len: "int (length out) \<le> n" and cur: "cursor_behind cursors sp"
  shows "\<exists>p' cursors' sp' out'. acquire_fresh io_ok consumer n now (p, cursors, sp) out = Some ((p', cursors', sp'), Inr out') \<and>
    part_ok p' rs \<and> acquiring consumer now sp0 sp' out' \<and> length out \<le> length out' \<and> int (length out') \<le> n \<and> cursor_behind cursors' sp' \<and> only_key (cursorKey sp) cursors cursors' \<and>
    (int (length out) < n \<and> int (unat (spNext sp)) - int (unat (spBase sp)) < scMaxInFlight (spCfg sp) \<and> spNext sp < NextSeq p \<and> rs \<noteq> [] \<longrightarrow>
      length out < length out')"
proof (cases "FirstSeq p \<le> spNext sp")
  case True
  then show ?thesis using acquire_fresh_present [OF ok a len True cur] only_key_refl by blast
next
  case False
  let ?room = "scMaxInFlight (spCfg sp) - (int (unat (spNext sp)) - int (unat (spBase sp)))"
  have w: "window_ok sp" using a by (simp add: acquiring_def)
  note unf = acquire_fresh.simps [of io_ok consumer n now "(p, cursors, sp)" out]
  show ?thesis
  proof (cases "int (length out) < n \<and> 0 < ?room")
    case stop: False
    then show ?thesis using assms unfolding unf by (auto simp: Let_def window_span [OF w] only_key_refl)
  next
    case go: True
    have nz: "spNext sp \<noteq> 0" using w unfolding window_ok_def by (metis word_gt_0 word_le_0_iff)
    have lt: "spNext sp < FirstSeq p" using False by simp
    have r: "ReadFrom io_ok (spNext sp) m p = (p, [], Some (ErrSeqTruncated (spNext sp) (FirstSeq p)))" for m
      using lt nz part_ok_open [OF ok] by (simp add: ReadFrom_def Read_def Let_def FirstSeq_def)
    obtain cursors1 sp1 where sk: "skipToLocked io_ok (FirstSeq p) (cursors, sp) = (cursors1, sp1)" by (metis surj_pair)
    have e: "acquire_fresh io_ok consumer n now (p, cursors, sp) out = acquire_fresh io_ok consumer n now (p, cursors1, sp1) out"
      using go r sk unfolding unf by (simp add: Let_def window_span [OF w] is_truncated_def)
    note f = skip_facts [OF a sk lt]
    have "kept now sp0 sp1" "kept now sp0 sp" using f a unfolding acquiring_def by blast+
    then have key: "cursorKey sp1 = cursorKey sp" unfolding kept_def grows_def by simp
    then have ok1: "only_key (cursorKey sp) cursors cursors1" using f commit_base_only [of sp1 cursors io_ok] by simp
    moreover have "spBase sp \<le> FirstSeq p" using lt w unfolding window_ok_def by (meson less_imp_le order_trans)
    then have "cursor_behind cursors sp1" using cur f key unfolding cursor_behind_def by (metis order_trans)
    then have c1: "cursor_behind cursors1 sp1" using f commit_base_behind by blast
    have "0 < scMaxInFlight (spCfg sp1)" using f unfolding acquiring_def window_ok_def by blast
    moreover have "FirstSeq p < NextSeq p" if "rs \<noteq> []"
      using part_ok_numbered [OF ok] numbered_less [of "pFirstSeq p" rs 0 "length rs"] that by (auto simp: FirstSeq_def NextSeq_def)
    ultimately show ?thesis
      using acquire_fresh_present [OF ok _ len _ c1, of consumer now sp0] f go ok1 unfolding e by fastforce
  qed
qed

lemma acquire_facts:
  assumes ok: "part_ok p rs" and w: "window_ok sp" and cur: "cursor_behind cursors sp" and n: "0 < n" and op: "\<not> spClosed sp"
  shows "\<exists>p' cursors' sp' out. acquire io_ok dl consumer n now (p, cursors, sp) = Some ((p', cursors', sp'), Inr out) \<and>
    part_ok p' rs \<and> acquiring consumer now sp sp' out \<and> int (length out) \<le> n \<and> cursor_behind cursors' sp' \<and> only_key (cursorKey sp) cursors cursors' \<and>
    ((\<exists>s e. map_of (spEntries sp) s = Some e \<and> enState e = stateAvailable) \<or>
     int (unat (spNext sp)) - int (unat (spBase sp)) < scMaxInFlight (spCfg sp) \<and> spNext sp < NextSeq p \<and> rs \<noteq> [] \<longrightarrow> out \<noteq> [])"
proof -
  obtain cursors1 sp1 where r: "reapExpiredLocked io_ok dl now (cursors, sp) = (cursors1, sp1)" by (metis surj_pair)
  note f = reap_facts [OF r w]
  have "cursor_behind cursors sp1" using f cur behind_grows unfolding kept_def by blast
  then have c1: "cursor_behind cursors1 sp1" using f commit_base_behind by blast
  obtain sp2 out2 where d: "redeliver consumer n now (spAvailable sp1) sp1 [] = (sp2, out2)" by (metis surj_pair)
  have "acquiring consumer now sp (sp1\<lparr>spAvailable := spAvailable sp1\<rparr>) []" using f w by (simp add: acquiring_def)
  note g = redeliver_facts [OF d this]
  have k: "cursorKey sp2 = cursorKey sp1" "spCfg sp2 = spCfg sp" "cursorKey sp1 = cursorKey sp"
    using g f unfolding acquiring_def kept_def grows_def by auto
  then have c2: "cursor_behind cursors1 sp2" using c1 g unfolding cursor_behind_def by simp
  have l2: "int (length out2) \<le> n" using g n by auto
  obtain p' cursors' sp' out where h: "acquire_fresh io_ok consumer n now (p, cursors1, sp2) out2 = Some ((p', cursors', sp'), Inr out)"
      "part_ok p' rs" "acquiring consumer now sp sp' out" "length out2 \<le> length out" "int (length out) \<le> n" "cursor_behind cursors' sp'"
      "only_key (cursorKey sp2) cursors1 cursors'"
      "int (length out2) < n \<and> int (unat (spNext sp2)) - int (unat (spBase sp2)) < scMaxInFlight (spCfg sp2) \<and> spNext sp2 < NextSeq p \<and> rs \<noteq> [] \<longrightarrow>
      length out2 < length out"
    using acquire_fresh_returns [OF ok g [THEN conjunct1] l2 c2] by blast
  have acq: "acquire io_ok dl consumer n now (p, cursors, sp) = Some ((p', cursors', sp'), Inr out)"
    using r d h(1) n op by (simp add: acquire_def)
  have "out \<noteq> []" if "map_of (spEntries sp) s = Some e" "enState e = stateAvailable" for s e
  proof -
    have "map_of (spEntries sp1) s = Some e" using f that unfolding waiting_kept_def by blast
    then have "0 < length out2" using g n that(2) window_in(5) [of sp1 s e] f by auto
    then show ?thesis using h(4) by auto
  qed
  moreover have "out \<noteq> []" if "int (unat (spNext sp)) - int (unat (spBase sp)) < scMaxInFlight (spCfg sp)" "spNext sp < NextSeq p" "rs \<noteq> []"
  proof (cases "out2 = []")
    case True
    have "spBase sp \<le> spBase sp2" "spNext sp2 = spNext sp" using f g unfolding kept_def grows_def by auto
    then have "int (unat (spNext sp2)) - int (unat (spBase sp2)) < scMaxInFlight (spCfg sp2)"
      using that(1) k(2) by (simp add: word_le_def)
    then show ?thesis using h(8) True n that(2,3) \<open>spNext sp2 = spNext sp\<close> by auto
  qed (use h(4) in auto)
  moreover have "only_key (cursorKey sp) cursors cursors'"
    using f h(7) commit_base_only [of sp1 cursors io_ok] only_key_refl only_key_trans unfolding k by blast
  ultimately show ?thesis using acq h(2,3,5,6) by blast
qed

subsection \<open>Settling and releasing\<close>

lemma advance_grows:
  assumes "advanceLocked io (cursors, sp) = ((cursors', sp'), res)" and w: "window_ok sp" and cur: "cursor_behind cursors sp"
  shows "window_ok sp' \<and> grows sp sp' \<and> cursor_behind cursors' sp' \<and> spEntries sp' = spEntries sp \<and> spNext sp' = spNext sp \<and>
    only_key (cursorKey sp) cursors cursors'"
proof -
  note f = advance_facts [OF assms(1) w]
  then obtain b r where b: "sp' = sp\<lparr>spBase := b, spRetired := r\<rparr>" by blast
  have g: "grows sp sp'" using kept_advance [of sp b 0 r] f b unfolding kept_def by simp
  then have "cursor_behind cursors sp'" using cur behind_grows by blast
  then have "cursor_behind cursors' sp'" using f commit_base_behind by blast
  moreover have "only_key (cursorKey sp) cursors cursors'"
    using f commit_base_only [of sp' cursors io] only_key_refl g unfolding grows_def by metis
  ultimately show ?thesis using f g b by simp
qed

text \<open>The three ways in which a delivery is settled or returned, behind the checks of the lease.\<close>

lemma settle_one:
  assumes w: "window_ok sp" and m: "map_of (spEntries sp) s = Some e" and cur: "cursor_behind cursors sp"
    and one: "window_ok sp1" "\<forall>t. t \<noteq> s \<longrightarrow> map_of (spEntries sp1) t = map_of (spEntries sp) t"
      "spCfg sp1 = spCfg sp" "cursorKey sp1 = cursorKey sp" "spBase sp1 = spBase sp" "spNext sp1 = spNext sp"
    and adv: "advanceLocked io (cursors, sp1) = ((cursors', sp'), res)"
  shows "window_ok sp' \<and> grows sp sp' \<and> cursor_behind cursors' sp' \<and> only_key (cursorKey sp) cursors cursors' \<and>
    (map_of (spEntries sp1) s = None \<longrightarrow> settled sp' s)"
proof -
  have g: "grows sp sp1" using one by (intro grows_one(1) [OF m]) auto
  then have c1: "cursor_behind cursors sp1" using cur behind_grows by blast
  note a = advance_grows [OF adv one(1) c1]
  have "settled sp' s" if "map_of (spEntries sp1) s = None"
    using that a one(6) window_in(2) [OF w m] unfolding settled_def held_map_of by simp
  then show ?thesis using a g grows_trans one(4) by auto
qed

lemma ack_facts:
  assumes "share_ack io consumer seq (cursors, sp) = ((cursors', sp'), res)" and w: "window_ok sp" and cur: "cursor_behind cursors sp"
  shows "window_ok sp' \<and> grows sp sp' \<and> cursor_behind cursors' sp' \<and> only_key (cursorKey sp) cursors cursors' \<and>
    (res = Inr () \<longrightarrow> settled sp' seq)"
proof (cases "\<exists>e. \<not> spClosed sp \<and> map_of (spEntries sp) seq = Some e \<and> enState e = stateAcquired \<and> enHolder e = consumer")
  case False
  then have "sp' = sp \<and> cursors' = cursors \<and> res \<noteq> Inr ()"
    using assms(1) by (auto simp: share_ack_def split: if_splits option.splits)
  then show ?thesis using w cur grows_refl only_key_refl by simp
next
  case True
  then obtain e where e: "map_of (spEntries sp) seq = Some e" by blast
  let ?sp = "(retireLocked seq sp)\<lparr>spAcked := spAcked (retireLocked seq sp) + 1\<rparr>"
  have adv: "advanceLocked io (cursors, ?sp) = ((cursors', sp'), res)"
    using assms(1) True by (auto simp: share_ack_def Let_def)
  have k: "cursorKey ?sp = cursorKey sp" by (simp add: cursorKey_def retireLocked_def)
  show ?thesis using settle_one [OF w e cur _ _ _ k _ _ adv] window_retire [OF w e] by simp
qed

lemma nack_facts:
  assumes "share_nack io dl consumer seq requeue (cursors, sp) = ((cursors', sp'), res)" and w: "window_ok sp" and cur: "cursor_behind cursors sp"
  shows "window_ok sp' \<and> grows sp sp' \<and> cursor_behind cursors' sp' \<and> only_key (cursorKey sp) cursors cursors'"
proof (cases "\<exists>e. \<not> spClosed sp \<and> map_of (spEntries sp) seq = Some e \<and> enState e = stateAcquired \<and> enHolder e = consumer")
  case False
  then have "sp' = sp \<and> cursors' = cursors"
    using assms(1) by (auto simp: share_nack_def split: if_splits option.splits)
  then show ?thesis using w cur grows_refl only_key_refl by simp
next
  case True
  then obtain e where e: "map_of (spEntries sp) seq = Some e" by blast
  let ?sp = "sp\<lparr>spNacked := spNacked sp + 1\<rparr>"
  have m: "map_of (spEntries ?sp) seq = Some e" and w1: "window_ok ?sp" using e w by simp_all
  have key: "cursorKey ?sp = cursorKey sp" by (simp add: cursorKey_def)
  have "(\<exists>reason. advanceLocked io (cursors, deadLetterLocked dl seq e reason ?sp) = ((cursors', sp'), res)) \<or>
      (cursors' = cursors \<and> sp' = releaseLocked seq e ?sp)"
    using assms(1) True e by (auto simp: share_nack_def Let_def split: if_splits)
  then show ?thesis
  proof (elim disjE exE conjE)
    fix reason assume adv: "advanceLocked io (cursors, deadLetterLocked dl seq e reason ?sp) = ((cursors', sp'), res)"
    show ?thesis
      using settle_one [OF w e cur window_dead_letter [OF w1 m] _ _ _ _ _ adv] dead_letter_entries [OF m, of dl reason] key by simp
  next
    assume r: "cursors' = cursors" "sp' = releaseLocked seq e ?sp"
    have "grows sp sp'" using key by (intro grows_one(1) [OF e]) (simp_all add: r)
    then show ?thesis using window_release [OF w1 m] cur behind_grows r only_key_refl by blast
  qed
qed

lemma release_where_fold:
  "fst (fold (\<lambda>(seq, e) (s, n). if enState e = stateAcquired \<and> P e then (releaseLocked seq e s, n + 1) else (s, n)) xs (sp, n)) =
   fold (\<lambda>(seq, e) s. if enState e = stateAcquired \<and> P e then releaseLocked seq e s else s) xs sp"
  by (induction xs arbitrary: sp n) (auto split: prod.splits)

lemma release_facts:
  assumes w: "window_ok sp" and cur: "cursor_behind cursors sp"
  shows "window_ok (fst (release_where P sp)) \<and> grows sp (fst (release_where P sp)) \<and> cursor_behind cursors (fst (release_where P sp))"
proof -
  let ?f = "\<lambda>(seq, e) s. if enState e = stateAcquired \<and> P e then releaseLocked seq e s else s"
  have "window_ok (fst (release_where P sp)) \<and> grows sp (fst (release_where P sp))"
    unfolding release_where_def release_where_fold
  proof (rule fold_window [where R = grows])
    fix s e sp assume a: "window_ok sp" "map_of (spEntries sp) s = Some e"
    have "grows sp (releaseLocked s e sp)" by (rule grows_one(1) [OF a(2)]) simp_all
    then show "window_ok (?f (s, e) sp) \<and> grows sp (?f (s, e) sp) \<and>
        (\<forall>t. t \<noteq> s \<longrightarrow> map_of (spEntries (?f (s, e) sp)) t = map_of (spEntries sp) t)"
      using window_release [OF a] a(1) grows_refl by simp
  qed (use w map_of_entries [OF w] grows_refl grows_trans in auto)
  then show ?thesis using cur behind_grows by blast
qed

subsection \<open>The window as a state machine\<close>

text \<open>
  The partition is shared with writers, followers and retention, and the cursor store with other
  groups: every acquire sees some well-formed partition, and between two operations the store may
  change as long as the position of this group does not run ahead, which \<open>Commit\<close> for other keys and a
  restart both guarantee.
\<close>

inductive share_step :: "cursor_store option \<times> sharePartition \<Rightarrow> cursor_store option \<times> sharePartition \<Rightarrow> bool" where
  share_acquire: "part_ok p rs \<Longrightarrow> acquire io_ok dl consumer n now (p, cs, sp) = Some ((p', cs', sp'), res) \<Longrightarrow>
    share_step (cs, sp) (cs', sp')"
| share_reap: "reapExpiredLocked io dl now (cs, sp) = (cs', sp') \<Longrightarrow> share_step (cs, sp) (cs', sp')"
| share_acked: "share_ack io consumer seq (cs, sp) = ((cs', sp'), res) \<Longrightarrow> share_step (cs, sp) (cs', sp')"
| share_nacked: "share_nack io dl consumer seq requeue (cs, sp) = ((cs', sp'), res) \<Longrightarrow> share_step (cs, sp) (cs', sp')"
| share_release_all: "share_step (cs, sp) (cs, fst (releaseAll sp))"
| share_release_consumer: "share_step (cs, sp) (cs, fst (releaseConsumer consumer sp))"
| share_closing: "share_step (cs, sp) (cs, share_close sp)"
| share_others: "(\<And>pos. Position (cursorKey sp) c' = Some pos \<Longrightarrow> \<exists>old. Position (cursorKey sp) c = Some old \<and> pos \<le> old) \<Longrightarrow>
    share_step (Some c, sp) (Some c', sp)"

definition share_init :: "cursor_store option \<times> sharePartition \<Rightarrow> bool" where
  "share_init s \<longleftrightarrow> (\<exists>topic i p rs cfg. part_ok p rs \<and> scMaxInFlight cfg < 2 ^ 63 \<and> snd s = openSharePartition topic i p (fst s) cfg)"

definition share_inv :: "cursor_store option \<times> sharePartition \<Rightarrow> bool" where
  "share_inv s \<longleftrightarrow> window_ok (snd s) \<and> cursor_behind (fst s) (snd s)"

lemma open_facts:
  assumes "part_ok p rs" and "scMaxInFlight cfg < 2 ^ 63"
  shows "share_inv (cs, openSharePartition topic i p cs cfg)"
proof -
  have "FirstSeq p \<noteq> 0" using part_ok_numbered [OF assms(1)] by (simp add: numbered_def FirstSeq_def)
  then have "0 < (if b < FirstSeq p then FirstSeq p else b)" for b by (auto simp: word_gt_0 not_less)
  then show ?thesis
    using assms(2) unfolding share_inv_def openSharePartition_def
    by (auto simp: Let_def window_ok_def share_applyDefaults_def cursor_behind_def cursorKey_def PositionOr_def)
qed

lemma share_step_facts:
  assumes "share_step s s'" and "share_inv s"
  shows "share_inv s' \<and> grows (snd s) (snd s')"
  using assms
proof (induction rule: share_step.induct)
  case (share_acquire p rs dl consumer n now cs sp p' cs' sp' res)
  show ?case
  proof (cases "0 < n \<and> \<not> spClosed sp")
    case True
    then show ?thesis
      using acquire_facts [OF share_acquire(1), of sp cs n dl consumer now] share_acquire(2,3)
      by (auto simp: share_inv_def acquiring_def kept_def)
  next
    case False
    then show ?thesis using share_acquire(2,3) grows_refl by (auto simp: acquire_def split: if_splits)
  qed
next
  case (share_reap io dl now cs sp cs' sp')
  then show ?case
    using reap_facts [OF share_reap(1)] behind_grows [of cs sp sp'] commit_base_behind [of cs sp' io]
    by (auto simp: share_inv_def kept_def)
next
  case (share_acked io consumer seq cs sp cs' sp' res)
  then show ?case using ack_facts [OF share_acked(1)] by (simp add: share_inv_def)
next
  case (share_nacked io dl consumer seq requeue cs sp cs' sp' res)
  then show ?case using nack_facts [OF share_nacked(1)] by (simp add: share_inv_def)
next
  case (share_closing cs sp)
  then show ?case by (simp add: share_inv_def share_close_def cursor_behind_def cursorKey_def grows_def settled_def)
next
  case (share_others sp c' c)
  then show ?case using grows_refl by (auto simp: share_inv_def cursor_behind_def dest: order_trans)
qed (use release_facts in \<open>auto simp: share_inv_def releaseAll_def releaseConsumer_def\<close>)

interpretation share: state_machine share_init share_step share_inv
proof
  show "share_inv s" if "share_init s" for s using that open_facts [of _ _ _ "fst s"] unfolding share_init_def by (metis prod.collapse)
  show "share_inv t" if "share_inv s" "share_step s t" for s t using share_step_facts [OF that(2,1)] by blast
qed

lemma share_steps_grow: "share_step\<^sup>*\<^sup>* s t \<Longrightarrow> share_inv s \<Longrightarrow> share_inv t \<and> grows (snd s) (snd t)"
proof (induction rule: rtranclp_induct)
  case base
  then show ?case using grows_refl by simp
next
  case (step t u)
  then show ?case using share_step_facts grows_trans by blast
qed

subsection \<open>Properties\<close>

text \<open>
  C15: In every state a share partition reaches, under any interleaving of acquires, acknowledgements,
  rejections, expiries, disconnects and loss of leadership, each sequence between the base and the
  next read is either held with its delivery state or retired, never both and nothing else is held;
  every record that waits for delivery is in the heap, and the window is within its bound.
\<close>

theorem share_window_exact:
  assumes "reachable share_init share_step (cs, sp)"
  shows "spBase sp \<le> spNext sp \<and> int (unat (spNext sp)) - int (unat (spBase sp)) \<le> scMaxInFlight (spCfg sp) \<and>
    (\<forall>s. (s \<in> held sp \<or> s \<in> set (spRetired sp)) = (spBase sp \<le> s \<and> s < spNext sp)) \<and> held sp \<inter> set (spRetired sp) = {} \<and>
    {s. \<exists>e. map_of (spEntries sp) s = Some e \<and> enState e = stateAvailable} \<subseteq> set (spAvailable sp)"
proof -
  have w: "window_ok sp" using share.reachable_inv [OF assms] by (simp add: share_inv_def)
  then have "held sp \<union> set (spRetired sp) = {s. spBase sp \<le> s \<and> s < spNext sp}" unfolding window_ok_def by blast
  then have "(s \<in> held sp \<or> s \<in> set (spRetired sp)) = (spBase sp \<le> s \<and> s < spNext sp)" for s
    by (metis (mono_tags, lifting) Un_iff mem_Collect_eq)
  then show ?thesis using w unfolding window_ok_def by blast
qed


text \<open>
  C17: An acquire hands out at most as many records as asked for, each once, none that is settled and
  none that another lease still covers; every running lease stays as it is unless retention
  removed its record.
\<close>

theorem lease_exclusive:
  assumes "reachable share_init share_step (cs, sp)" and "part_ok p rs" and "0 < n"
    and "acquire io_ok dl consumer n now (p, cs, sp) = Some ((p', cs', sp'), Inr out)"
  shows "int (length out) \<le> n \<and> distinct (map dlSeq out) \<and>
    (\<forall>d \<in> set out. \<not> settled sp (dlSeq d) \<and> (\<forall>e. map_of (spEntries sp) (dlSeq d) = Some e \<longrightarrow> \<not> unexpired now e) \<and>
       (leased_to consumer sp' d \<or> dlSeq d < spBase sp')) \<and>
    (\<forall>s e. map_of (spEntries sp) s = Some e \<longrightarrow> unexpired now e \<longrightarrow> map_of (spEntries sp') s = Some e \<or> s < spBase sp')"
proof -
  have i: "share_inv (cs, sp)" by (rule share.reachable_inv [OF assms(1)])
  have "\<not> spClosed sp" using assms(3,4) by (auto simp: acquire_def split: if_splits)
  then have a: "acquiring consumer now sp sp' out" "int (length out) \<le> n"
    using acquire_facts [OF assms(2), of sp cs n dl consumer now] i assms(3,4) by (auto simp: share_inv_def)
  then show ?thesis unfolding acquiring_def kept_def free_for_def by blast
qed

text \<open>
  C18: An acquire on an open window always returns, although its loop re-reads the log without a bound
  of its own; it skips over what retention removed, and it returns records whenever one waits
  for redelivery or the window has room and the log holds records past it.
\<close>

theorem acquire_returns:
  assumes "reachable share_init share_step (cs, sp)" and "part_ok p rs" and "0 < n" and "\<not> spClosed sp"
  shows "\<exists>w out. acquire io_ok dl consumer n now (p, cs, sp) = Some (w, Inr out) \<and>
    ((\<exists>s e. map_of (spEntries sp) s = Some e \<and> enState e = stateAvailable) \<or>
     int (unat (spNext sp)) - int (unat (spBase sp)) < scMaxInFlight (spCfg sp) \<and> spNext sp < NextSeq p \<and> rs \<noteq> [] \<longrightarrow> out \<noteq> [])"
  using acquire_facts [OF assms(2) _ _ assms(3,4), of cs dl consumer now] share.reachable_inv [OF assms(1)]
  unfolding share_inv_def by auto


text \<open>
  A consumer that takes one record and drops its connection: the server returns the lease.
\<close>

definition crash_round :: "dead_letter_route \<Rightarrow> string \<Rightarrow> int \<Rightarrow> share_world \<Rightarrow> share_world" where
  "crash_round dl consumer now w =
     (case acquire io_ok dl consumer 1 now w of
        Some ((p, cs, sp), _) \<Rightarrow> (p, cs, fst (releaseConsumer consumer sp))
      | None \<Rightarrow> w)"

lemma crash_round_one:
  assumes "spEntries sp = [(s, e)]" and "enState e = stateAvailable" and "spAvailable sp = [s]" and "spBase sp \<notin> set (spRetired sp)"
    and "\<not> spClosed sp"
  shows "crash_round dl consumer now (p, cs, sp) =
    (p, cs, sp\<lparr>spEntries := [(s, e\<lparr>enCount := enCount e + 1, enHolder := [], enDeadline := None\<rparr>)], spDelivered := spDelivered sp + 1\<rparr>)"
proof -
  have adv: "advance_loop (spBase sp) (spRetired sp) False = (spBase sp, spRetired sp, False)"
    using assms(4) by (simp add: advance_loop.simps [of "spBase sp"])
  have "reapExpiredLocked io_ok dl now (cs, sp) = (cs, sp)"
    using assms(1,2) adv by (simp add: reapExpiredLocked_def reap_entry_def advanceLocked_def Let_def)
  then show ?thesis
    using assms unfolding crash_round_def acquire_def
    by (simp add: leaseLocked_def Let_def acquire_fresh.simps releaseConsumer_def release_where_def releaseLocked_def)
qed

lemma crash_rounds:
  assumes "spEntries sp = [(s, e)]" and "enState e = stateAvailable" and "spAvailable sp = [s]" and "spBase sp \<notin> set (spRetired sp)"
    and "\<not> spClosed sp"
  shows "\<exists>sp'. (crash_round dl consumer now ^^ m) (p, cs, sp) = (p, cs, sp') \<and>
    (\<exists>e'. spEntries sp' = [(s, e')] \<and> enState e' = stateAvailable \<and> enCount e' = enCount e + int m) \<and>
    spAvailable sp' = [s] \<and> spBase sp' = spBase sp \<and> spRetired sp' = spRetired sp \<and> spClosed sp' = spClosed sp \<and>
    spDead sp' = spDead sp \<and> spDlqCount sp' = spDlqCount sp \<and> spCfg sp' = spCfg sp"
proof (induction m)
  case 0
  then show ?case using assms by simp
next
  case (Suc m)
  then obtain sp' e' where i: "(crash_round dl consumer now ^^ m) (p, cs, sp) = (p, cs, sp')" "spEntries sp' = [(s, e')]"
      "enState e' = stateAvailable" "enCount e' = enCount e + int m" "spAvailable sp' = [s]" "spBase sp' = spBase sp"
      "spRetired sp' = spRetired sp" "spClosed sp' = spClosed sp" "spDead sp' = spDead sp" "spDlqCount sp' = spDlqCount sp" "spCfg sp' = spCfg sp"
    by blast
  have "crash_round dl consumer now (p, cs, sp') =
      (p, cs, sp'\<lparr>spEntries := [(s, e'\<lparr>enCount := enCount e' + 1, enHolder := [], enDeadline := None\<rparr>)], spDelivered := spDelivered sp' + 1\<rparr>)"
    using i assms(4,5) by (intro crash_round_one) simp_all
  then show ?case using i by simp
qed

text \<open>
  C38: The delivery limit does not bound deliveries to a consumer that crashes: when the record makes its
  consumer drop the connection, the lease is returned without a look at the delivery count, so
  after any number of rounds, past every limit, the record is available again and nothing was dead-lettered.
\<close>

theorem crashing_consumer_never_dead_lettered:
  assumes "spEntries sp = [(s, e)]" and "enState e = stateAvailable" and "spAvailable sp = [s]" and "spBase sp \<notin> set (spRetired sp)"
    and "\<not> spClosed sp"
  shows "\<exists>sp' e'. (crash_round dl consumer now ^^ m) (p, cs, sp) = (p, cs, sp') \<and> spEntries sp' = [(s, e')] \<and>
    enState e' = stateAvailable \<and> enCount e' = enCount e + int m \<and> spDead sp' = spDead sp \<and> spDlqCount sp' = spDlqCount sp"
  using crash_rounds [OF assms, of m dl consumer now p cs] by blast


subsection \<open>Instances\<close>

definition sample_config :: shareConfig where
  "sample_config = \<lparr>scGroup = ''g'', scAckTimeout = 100, scMaxDelivery = 1, scMaxInFlight = 10\<rparr>"

definition sample_window :: sharePartition where
  "sample_window = openSharePartition ''t'' 0 sample_partition None sample_config"

definition leased_entry :: "stream_record \<Rightarrow> entry" where
  "leased_entry r = \<lparr>enRec = r, enState = stateAcquired, enCount = 1, enDeadline = Some 100, enHolder = ''c''\<rparr>"

lemma sample_window_fields:
  "spBase sample_window = 1" "spNext sample_window = 1" "spEntries sample_window = []" "spRetired sample_window = []"
  "spAvailable sample_window = []" "\<not> spClosed sample_window" "spCfg sample_window = sample_config" "spDead sample_window = []"
  "spTopic sample_window = ''t''" "spPartID sample_window = 0"
  using sample_partition_ok
  by (simp_all add: sample_window_def openSharePartition_def FirstSeq_def sample_config_def share_applyDefaults_def)

lemma sample_window_init: "share_init (None, sample_window)"
proof -
  obtain r where "part_ok sample_partition [r]" using sample_partition_ok by blast
  moreover have "scMaxInFlight sample_config < 2 ^ 63" by (simp add: sample_config_def)
  moreover have "snd (None, sample_window) = openSharePartition ''t'' 0 sample_partition (fst (None, sample_window)) sample_config"
    by (simp add: sample_window_def)
  ultimately show ?thesis unfolding share_init_def by blast
qed

lemma sample_window_reachable: "reachable share_init share_step (None, sample_window)"
  by (rule reach_init) (rule sample_window_init)

text \<open>The first record of the log leased to a consumer.\<close>

lemma sample_lease:
  "\<exists>p' sp r. part_ok sample_partition [r] \<and> acquire io_ok None ''c'' 1 0 (sample_partition, None, sample_window) = Some ((p', None, sp),
      Inr [\<lparr>dlTopic = ''t'', dlPartition = 0, dlSeq = 1, dlRecord = r, dlCount = 1, dlConsumer = ''c'', dlDeadline = 100\<rparr>]) \<and>
    reachable share_init share_step (None, sp) \<and> spEntries sp = [(1, leased_entry r)] \<and> spBase sp = 1 \<and> spNext sp = 2 \<and>
    spRetired sp = [] \<and> spAvailable sp = [] \<and> \<not> spClosed sp \<and> spCfg sp = sample_config \<and> spDead sp = []"
proof -
  obtain r where ok: "part_ok sample_partition [r]" using sample_partition_ok by blast
  have f: "FirstSeq sample_partition = 1" "NextSeq sample_partition = 2" using sample_partition_ok by (simp_all add: FirstSeq_def NextSeq_def)
  have rs: "rSeq r = 1" using part_ok_numbered [OF ok] numbered_nth [of 1 "[r]" 0] f by (simp add: FirstSeq_def)
  obtain p' k where rd: "Read io_ok 1 1 4194304 sample_partition = (p', take k [r], None)" "0 < k"
    using Read_ok [OF ok, of 1 1 4194304] f rs by (auto simp: FirstSeq_def)
  then have "ReadFrom io_ok 1 1 sample_partition = (p', [r], None)" by (cases k) (simp_all add: ReadFrom_def)
  moreover have "advance_loop 1 [] False = (1, [], False)" by (simp add: advance_loop.simps [of 1])
  ultimately have a: "acquire io_ok None ''c'' 1 0 (sample_partition, None, sample_window) = Some ((p', None,
      sample_window\<lparr>spEntries := [(1, leased_entry r)], spNext := 2, spDelivered := spDelivered sample_window + 1\<rparr>),
      Inr [\<lparr>dlTopic = ''t'', dlPartition = 0, dlSeq = 1, dlRecord = r, dlCount = 1, dlConsumer = ''c'', dlDeadline = 100\<rparr>])"
    using rs by (simp add: acquire_def sample_window_fields reapExpiredLocked_def advanceLocked_def Let_def acquire_fresh.simps
      leaseLocked_def sample_config_def leased_entry_def)
  from reach_step [OF sample_window_reachable share_acquire [OF ok this]]
  show ?thesis using a ok by (intro exI [of _ p'] exI [of _ "sample_window\<lparr>spEntries := [(1, leased_entry r)], spNext := 2, spDelivered := spDelivered sample_window + 1\<rparr>"] exI [of _ r])
    (simp add: sample_window_fields)
qed

theorem share_window_exact_witness:
  "\<exists>sp. reachable share_init share_step (None, sp) \<and> held sp = {1} \<and> (1 \<in> held sp \<or> 1 \<in> set (spRetired sp)) = (spBase sp \<le> 1 \<and> 1 < spNext sp)"
proof -
  obtain p' sp r where "reachable share_init share_step (None, sp)" "spEntries sp = [(1, leased_entry r)]"
    using sample_lease by blast
  moreover from this have "(1 \<in> held sp \<or> 1 \<in> set (spRetired sp)) = (spBase sp \<le> 1 \<and> 1 < spNext sp)"
    using share_window_exact [of None sp] by blast
  ultimately show ?thesis by (intro exI [of _ sp]) auto
qed


theorem lease_exclusive_witness:
  "\<exists>p' sp out. acquire io_ok None ''c'' 1 0 (sample_partition, None, sample_window) = Some ((p', None, sp), Inr out) \<and>
     map dlSeq out = [1] \<and> (\<forall>d \<in> set out. leased_to ''c'' sp d \<or> dlSeq d < spBase sp)"
proof -
  obtain p' sp r where s: "part_ok sample_partition [r]" "acquire io_ok None ''c'' 1 0 (sample_partition, None, sample_window) = Some ((p', None, sp),
      Inr [\<lparr>dlTopic = ''t'', dlPartition = 0, dlSeq = 1, dlRecord = r, dlCount = 1, dlConsumer = ''c'', dlDeadline = 100\<rparr>])"
    using sample_lease by blast
  show ?thesis using lease_exclusive [OF sample_window_reachable s(1) _ s(2)] s(2) by auto
qed

theorem acquire_returns_witness:
  "\<exists>w out. acquire io_ok None ''c'' 3 0 (sample_partition, None, sample_window) = Some (w, Inr out) \<and> out \<noteq> []"
proof -
  obtain r where ok: "part_ok sample_partition [r]" using sample_partition_ok by blast
  have "NextSeq sample_partition = 2" using sample_partition_ok by (simp add: NextSeq_def)
  then show ?thesis using acquire_returns [OF sample_window_reachable ok, of 3 None "''c''" 0]
    by (simp add: sample_window_fields sample_config_def)
qed


theorem crashing_consumer_never_dead_lettered_witness:
  "\<exists>sp sp' e'. scMaxDelivery (spCfg sp) = 1 \<and> (crash_round None ''c'' 0 ^^ 50) (sample_partition, None, sp) = (sample_partition, None, sp') \<and>
     spEntries sp' = [(1, e')] \<and> enCount e' = 51 \<and> spDlqCount sp' = 0"
proof -
  let ?e = "(leased_entry undefined)\<lparr>enState := stateAvailable\<rparr>"
  let ?sp = "sample_window\<lparr>spEntries := [(1, ?e)], spAvailable := [1], spNext := 2, spDlqCount := 0\<rparr>"
  obtain sp' e' where "(crash_round None ''c'' 0 ^^ 50) (sample_partition, None, ?sp) = (sample_partition, None, sp')" "spEntries sp' = [(1, e')]"
      "enCount e' = enCount ?e + int 50" "spDlqCount sp' = spDlqCount ?sp"
    using crashing_consumer_never_dead_lettered [of ?sp 1 ?e 50 None "''c''" 0 sample_partition None] by (auto simp: sample_window_fields)
  then show ?thesis by (intro exI [of _ ?sp] exI [of _ sp'] exI [of _ e']) (simp add: sample_window_fields sample_config_def leased_entry_def)
qed


end
