(* ===== verification/Spec2Isabelle.thy ===== *)
theory Spec2Isabelle
  imports Broker_Recovery Token Share
begin

section \<open>BoltQ\<close>

text \<open>
  BoltQ is a message broker in Go. It has two planes: an in-memory queue broker with a write-ahead
  log (\<open>internal/broker\<close>, \<open>internal/queue\<close>, \<open>internal/wal\<close>, \<open>internal/storage\<close>,
  \<open>internal/scheduler\<close>), and a replicated stream log (\<open>internal/stream\<close>)
  with a queue plane on top of it (\<open>internal/queuelog\<close>). Requests are authorised by
  \<open>internal/identity\<close>. This development models these parts operation by operation and proves what
  they promise, and where they do not keep a promise of their comments, the counterexample.

  \<^bold>\<open>The parts and their theories.\<close>

  \<^item> \<open>BoltQ_Prelude\<close>: the conventions (machine words, Go maps as association lists, errors as
    values of a sum, the outcome of system calls as a function, time as an argument), little-endian
    codecs, strings, binary search, reachability and the locale \<open>state_machine\<close> through which every
    invariant below is proved. \<open>Checksum\<close> is CRC-32 with the detection of one changed byte;
    \<open>Buffered_Writer\<close> is \<open>bufio.Writer\<close>.

  \<^item> \<open>Stream_Record\<close> (\<open>stream/record.go\<close>, the framing of \<open>replicate.go\<close>): encoding and decoding of
    records, their round trip, corruption, and the headers that are too long.
    \<open>Epoch\<close> (\<open>epoch.go\<close>): the history of leadership terms and its checkpoint file.
    \<open>Segment\<close> (\<open>segment.go\<close>): one log file with its sparse index; reading, appending, truncating and
    recovery against the list of its records. \<open>Partition\<close> and \<open>Partition_Contract\<close>
    (\<open>partition.go\<close>): the segments of a partition, local and replicated appends, leadership,
    truncation and retention; the log is gap-free in every reachable state and survives a crash
    without its torn tail.

  \<^item> \<open>Message_Queue\<close> (\<open>protocol/message.go\<close>, \<open>queue/queue.go\<close>): the ring buffer refines a bounded
    list through the locale \<open>fifo_queue\<close>. \<open>Priority_Queue\<close> (\<open>priority_queue.go\<close>) refines a list sorted
    by priority through \<open>ranked_queue\<close>. \<open>Exchange\<close> (\<open>broker/exchange.go\<close>): routing; the wildcard loop
    decides an inductively defined language, through the locale \<open>topic_matcher\<close> that the access rules
    share. \<open>Wal\<close> (\<open>wal/wal.go\<close>, \<open>storage/\<close>): the log file, the disk and the memory storage behind the
    locale \<open>message_store\<close>, and recovery. \<open>Broker\<close> (\<open>broker.go\<close>, \<open>scheduler.go\<close>, the recovery of
    \<open>cmd/server/main.go\<close>): all operations of the broker. \<open>Broker_Contract\<close>: what each operation does to
    the backlog of a topic, the dead letters and the pending table. \<open>Broker_Invariant\<close>: the
    state machine of all operations and its invariant. \<open>Broker_Recovery\<close>: snapshots, checkpoints and
    restarts, with the cases in which messages, exchanges and acknowledgements are lost.

  \<^item> \<open>Cursor\<close> (\<open>stream/cursor.go\<close>): the positions of consumer groups, their file and its
    compaction; a restart recovers every position, except behind a torn tail or after a failed write.

  \<^item> \<open>Share\<close> (\<open>queuelog/share.go\<close>): the delivery window of competing consumers over one partition:
    leases, acknowledgement, rejection, expiry, dead letters and the committed base. In every
    reachable state the window is exact; leases are exclusive, an acknowledged record is never
    delivered again, a restart delivers again whatever was not settled, and \<open>acquire\<close> returns.
    A consumer that crashes on a record receives it without bound.

  \<^item> \<open>Access\<close> (\<open>identity/acl.go\<close>): rules, policies, group tables and the membership cache.
    \<open>Token\<close> (\<open>identity/token.go\<close>): tokens, keys and revocation.

  \<^bold>\<open>Bounds.\<close> Sequences and terms are machine words; the theorems on partitions assume that the
  sequence space is not exhausted (\<open>room_for\<close>). Queue capacities are at most $2^{32}$, the range in
  which \<open>nextPowerOfTwo\<close> is right. Loops are total functions: the scans over files shrink their
  input, the others recurse on a list or on an index below a length. The one loop without a bound of
  its own, in \<open>acquire\<close>, is a partial function that is proved to return. No fuel is used.

  \<^bold>\<open>Parameters.\<close> The JSON codecs (\<open>codec\<close>, \<open>meta_codec\<close>, \<open>jwt_lib\<close>) and the message authentication
  code are arguments; what is used of them is stated as \<open>codec_faithful\<close>, \<open>rejects_empty\<close> and
  \<open>json_faithful\<close>, with an instance for each.

  \<^bold>\<open>Not modelled.\<close> The network servers and clients (\<open>internal/api\<close>, \<open>internal/gateway\<close>,
  \<open>client/\<close>, \<open>cmd/cli\<close>), metrics and configuration files are input and output around the operations
  modelled here. The control plane (\<open>internal/cluster\<close>, \<open>internal/streamctl\<close>) runs on a Raft library that is
  not part of the sources. The loops of the replication leader and follower, the topic table of
  \<open>stream/log.go\<close>, the composition of windows in \<open>queuelog/queue.go\<close>, and the side services (presence,
  fanout, outbox, ephemeral signals, deduplication, cache) are out of scope; what they call in a
  partition, a window or the broker is modelled. Locks are modelled by the atomicity of the
  operations that hold them; the places where an operation releases its lock are separate steps.
\<close>

end
